theory Spec2Isabelle
  imports Main "HOL-Library.Multiset"
begin

section \<open>Data model\<close>

text \<open>
  The graph is a Python dict of dicts, iterated in insertion order: an association list of
  association lists. Edge weights are Python numbers; the road map uses integers, so they are
  \<open>int\<close> here. A lookup \<open>graph[k]\<close> of a missing key raises \<open>KeyError\<close>.
\<close>

type_synonym 'a graph = "('a \<times> ('a \<times> int) list) list"

datatype 'a error = KeyError 'a | IndexError

definition dict_get :: "('k \<times> 'v) list \<Rightarrow> 'k \<Rightarrow> 'k error + 'v" where
  "dict_get d k = (case map_of d k of None \<Rightarrow> Inl (KeyError k) | Some v \<Rightarrow> Inr v)"

text \<open>\<open>d[k] = v\<close> on an insertion-ordered dict: an existing key keeps its position.\<close>

fun dict_set :: "('k \<times> 'v) list \<Rightarrow> 'k \<Rightarrow> 'v \<Rightarrow> ('k \<times> 'v) list" where
  "dict_set [] k v = [(k, v)]"
| "dict_set ((k', v') # d) k v = (if k' = k then (k, v) # d else (k', v') # dict_set d k v)"

text \<open>
  class Node: the parent link is an owned, never mutated reference, so a node carries its
  parent by value. The action label \<open>"{state} to {neighbor}"\<close> is kept as the pair of states.
\<close>

datatype 'a node = Node (state: 'a) (parent: "'a node option") (action: "('a \<times> 'a) option")
  (path_cost: int) (depth: nat)

definition root_node :: "'a \<Rightarrow> 'a node" where
  "root_node s = Node s None None 0 0"

text \<open>Node.__lt__\<close>

definition node_lt :: "'a node \<Rightarrow> 'a node \<Rightarrow> bool" where
  "node_lt n other = (path_cost n < path_cost other)"

text \<open>Node.expand: one child per item of \<open>graph[self.state]\<close>, in the dict's order.\<close>

definition expand :: "'a node \<Rightarrow> 'a graph \<Rightarrow> 'a error + 'a node list" where
  "expand n graph =
     (case dict_get graph (state n) of
        Inl e \<Rightarrow> Inl e
      | Inr items \<Rightarrow>
          Inr (map (\<lambda>(neighbor, distance).
                 Node neighbor (Some n) (Some (state n, neighbor))
                   (path_cost n + distance) (depth n + 1)) items))"

text \<open>Node.path: walk the parent links, then reverse.\<close>

fun path_back :: "'a node \<Rightarrow> 'a list" where
  "path_back (Node s p a c d) = s # (case p of None \<Rightarrow> [] | Some q \<Rightarrow> path_back q)"

definition path :: "'a node \<Rightarrow> 'a list" where
  "path n = rev (path_back n)"

text \<open>
  One snapshot of the step trace. The \<open>explored\<close> entry is \<open>list(explored)\<close> of a Python set,
  whose order depends on the hash seed: only its elements are modelled. \<open>depth_limit\<close> is the
  key that iterative deepening adds to each snapshot.
\<close>

record 'a step =
  s_frontier :: "'a list"
  s_explored :: "'a set"
  s_current :: "'a option"
  s_depth_limit :: "int option"

text \<open>
  The result dict. \<open>execution_time\<close> is wall-clock time and is left out.
\<close>

record ('a, 't) result =
  r_algorithm :: string
  r_path :: "'a list"
  r_distance :: int
  r_nodes_expanded :: nat
  r_nodes_generated :: nat
  r_max_frontier_size :: nat
  r_steps :: "'t list"

text \<open>
  The local variables of one search: \<open>'e\<close> is the type of a frontier entry, \<open>'s\<close> the type
  of \<open>frontier_states\<close> (unit where the algorithm has none).
\<close>

record ('a, 'e, 's) search =
  frontier :: "'e list"
  frontier_states :: 's
  explored :: "'a set"
  steps :: "'a step list"
  nodes_expanded :: nat
  nodes_generated :: nat
  max_frontier_size :: nat

text \<open>
  A \<open>while\<close> loop: the body either continues with a new state or returns.
  A loop that never returns has the value \<open>None\<close>.
\<close>

partial_function (option) run_loop :: "('s \<Rightarrow> 's + 'r) \<Rightarrow> 's \<Rightarrow> 'r option" where
  "run_loop body s = (case body s of Inl s' \<Rightarrow> run_loop body s' | Inr r \<Rightarrow> Some r)"

declare run_loop.simps [code]

text \<open>
  The two statements every loop starts with: update \<open>max_frontier_size\<close> and append the
  snapshot with \<open>current = None\<close>.
\<close>

definition snapshot ::
  "('e \<Rightarrow> 'a node) \<Rightarrow> ('a, 'e, 's, 'z) search_scheme \<Rightarrow> ('a, 'e, 's, 'z) search_scheme" where
  "snapshot nd st =
     st\<lparr>max_frontier_size := max (max_frontier_size st) (length (frontier st)),
        steps := steps st @
          [\<lparr>s_frontier = map (\<lambda>e. state (nd e)) (frontier st), s_explored = explored st,
            s_current = None, s_depth_limit = None\<rparr>]\<rparr>"

text \<open>\<open>steps[-1]["current"] = node.state\<close>\<close>

definition set_current :: "'a step list \<Rightarrow> 'a \<Rightarrow> 'a step list" where
  "set_current ss s = ss[length ss - 1 := (last ss)\<lparr>s_current := Some s\<rparr>]"

definition found ::
  "string \<Rightarrow> 'a node \<Rightarrow> ('a, 'e, 's, 'z) search_scheme \<Rightarrow> ('a, 'a step) result" where
  "found alg n st =
     \<lparr>r_algorithm = alg, r_path = path n, r_distance = path_cost n,
      r_nodes_expanded = nodes_expanded st, r_nodes_generated = nodes_generated st,
      r_max_frontier_size = max_frontier_size st, r_steps = steps st\<rparr>"

definition no_path :: "string \<Rightarrow> ('a, 'e, 's, 'z) search_scheme \<Rightarrow> ('a, 'a step) result" where
  "no_path alg st =
     \<lparr>r_algorithm = alg, r_path = [], r_distance = 0,
      r_nodes_expanded = nodes_expanded st, r_nodes_generated = nodes_generated st,
      r_max_frontier_size = max_frontier_size st, r_steps = steps st\<rparr>"

definition trivial_result :: "string \<Rightarrow> 'a \<Rightarrow> nat \<Rightarrow> nat \<Rightarrow> nat \<Rightarrow> ('a, 't) result" where
  "trivial_result alg start ne ng mfs =
     \<lparr>r_algorithm = alg, r_path = [start], r_distance = 0,
      r_nodes_expanded = ne, r_nodes_generated = ng,
      r_max_frontier_size = mfs, r_steps = []\<rparr>"

section \<open>Breadth-first search\<close>

definition bfs_init :: "'a \<Rightarrow> ('a, 'a node, unit) search" where
  "bfs_init start =
     \<lparr>frontier = [root_node start], frontier_states = (), explored = {}, steps = [],
      nodes_expanded = 0, nodes_generated = 1, max_frontier_size = 1\<rparr>"

definition bfs_child :: "'a node \<Rightarrow> ('a, 'a node, unit) search \<Rightarrow> ('a, 'a node, unit) search" where
  "bfs_child child st =
     (let st1 = st\<lparr>nodes_generated := nodes_generated st + 1\<rparr>
      in if state child \<notin> explored st1 \<and> state child \<notin> set (map state (frontier st1))
         then st1\<lparr>frontier := frontier st1 @ [child]\<rparr>
         else st1)"

definition bfs_body ::
  "'a graph \<Rightarrow> 'a \<Rightarrow> ('a, 'a node, unit) search \<Rightarrow>
     ('a, 'a node, unit) search + ('a error + ('a, 'a step) result)" where
  "bfs_body graph goal st =
     (case frontier st of
        [] \<Rightarrow> Inr (Inr (no_path ''bfs'' st))
      | n # rest \<Rightarrow>
          (let st1 = snapshot id st;
               st2 = st1\<lparr>frontier := rest, nodes_expanded := nodes_expanded st1 + 1\<rparr>;
               st3 = st2\<lparr>steps := set_current (steps st2) (state n)\<rparr>
           in if state n = goal then Inr (Inr (found ''bfs'' n st3))
              else
                (let st4 = st3\<lparr>explored := insert (state n) (explored st3)\<rparr>
                 in case expand n graph of
                      Inl e \<Rightarrow> Inr (Inl e)
                    | Inr children \<Rightarrow> Inl (fold bfs_child children st4))))"

definition breadth_first_search ::
  "'a graph \<Rightarrow> 'a \<Rightarrow> 'a \<Rightarrow> ('a error + ('a, 'a step) result) option" where
  "breadth_first_search graph start goal =
     (if start = goal then Some (Inr (trivial_result ''bfs'' start 0 1 1))
      else run_loop (bfs_body graph goal) (bfs_init start))"

section \<open>Depth-first and depth-limited search\<close>

text \<open>\<open>frontier_states.remove(x)\<close> raises \<open>KeyError\<close> when \<open>x\<close> is not in the set.\<close>

definition set_remove :: "'a set \<Rightarrow> 'a \<Rightarrow> 'a error + 'a set" where
  "set_remove S x = (if x \<in> S then Inr (S - {x}) else Inl (KeyError x))"

definition stack_init :: "'a \<Rightarrow> ('a, 'a node, 'a set) search" where
  "stack_init start =
     \<lparr>frontier = [root_node start], frontier_states = {start}, explored = {}, steps = [],
      nodes_expanded = 0, nodes_generated = 1, max_frontier_size = 1\<rparr>"

definition dfs_child ::
  "'a node \<Rightarrow> ('a, 'a node, 'a set) search \<Rightarrow> ('a, 'a node, 'a set) search" where
  "dfs_child child st =
     (let st1 = st\<lparr>nodes_generated := nodes_generated st + 1\<rparr>
      in if state child \<notin> explored st1 \<and> state child \<notin> frontier_states st1
         then st1\<lparr>frontier := frontier st1 @ [child],
                  frontier_states := insert (state child) (frontier_states st1)\<rparr>
         else st1)"

text \<open>The stack is a Python list: \<open>pop()\<close> takes the last element.\<close>

definition dfs_body ::
  "'a graph \<Rightarrow> 'a \<Rightarrow> ('a, 'a node, 'a set) search \<Rightarrow>
     ('a, 'a node, 'a set) search + ('a error + ('a, 'a step) result)" where
  "dfs_body graph goal st =
     (if frontier st = [] then Inr (Inr (no_path ''dfs'' st))
      else
        (let st1 = snapshot id st;
             n = last (frontier st1);
             st2 = st1\<lparr>frontier := butlast (frontier st1)\<rparr>
         in case set_remove (frontier_states st2) (state n) of
              Inl e \<Rightarrow> Inr (Inl e)
            | Inr fs \<Rightarrow>
                (let st3 = st2\<lparr>frontier_states := fs, nodes_expanded := nodes_expanded st2 + 1\<rparr>;
                     st4 = st3\<lparr>steps := set_current (steps st3) (state n)\<rparr>
                 in if state n = goal then Inr (Inr (found ''dfs'' n st4))
                    else
                      (let st5 = st4\<lparr>explored := insert (state n) (explored st4)\<rparr>
                       in case expand n graph of
                            Inl e \<Rightarrow> Inr (Inl e)
                          | Inr children \<Rightarrow> Inl (fold dfs_child (rev children) st5)))))"

definition depth_first_search ::
  "'a graph \<Rightarrow> 'a \<Rightarrow> 'a \<Rightarrow> ('a error + ('a, 'a step) result) option" where
  "depth_first_search graph start goal =
     (if start = goal then Some (Inr (trivial_result ''dfs'' start 0 1 1))
      else run_loop (dfs_body graph goal) (stack_init start))"

definition dls_body ::
  "'a graph \<Rightarrow> 'a \<Rightarrow> int \<Rightarrow> ('a, 'a node, 'a set) search \<Rightarrow>
     ('a, 'a node, 'a set) search + ('a error + ('a, 'a step) result)" where
  "dls_body graph goal depth_limit st =
     (if frontier st = [] then Inr (Inr (no_path ''dls'' st))
      else
        (let st1 = snapshot id st;
             n = last (frontier st1);
             st2 = st1\<lparr>frontier := butlast (frontier st1)\<rparr>
         in case set_remove (frontier_states st2) (state n) of
              Inl e \<Rightarrow> Inr (Inl e)
            | Inr fs \<Rightarrow>
                (let st3 = st2\<lparr>frontier_states := fs, nodes_expanded := nodes_expanded st2 + 1\<rparr>;
                     st4 = st3\<lparr>steps := set_current (steps st3) (state n)\<rparr>
                 in if state n = goal then Inr (Inr (found ''dls'' n st4))
                    else
                      (let st5 = st4\<lparr>explored := insert (state n) (explored st4)\<rparr>
                       in if int (depth n) < depth_limit
                          then (case expand n graph of
                                  Inl e \<Rightarrow> Inr (Inl e)
                                | Inr children \<Rightarrow> Inl (fold dfs_child (rev children) st5))
                          else Inl st5))))"

definition depth_limited_search ::
  "'a graph \<Rightarrow> 'a \<Rightarrow> 'a \<Rightarrow> int \<Rightarrow> ('a error + ('a, 'a step) result) option" where
  "depth_limited_search graph start goal depth_limit =
     (if start = goal then Some (Inr (trivial_result ''dls'' start 0 1 1))
      else run_loop (dls_body graph goal depth_limit) (stack_init start))"

section \<open>Iterative deepening\<close>

record 'a ids_totals =
  total_nodes_expanded :: nat
  total_nodes_generated :: nat
  ids_max_frontier_size :: nat
  all_steps :: "'a step list"

definition ids_accumulate ::
  "int \<Rightarrow> ('a, 'a step) result \<Rightarrow> 'a ids_totals \<Rightarrow> 'a ids_totals" where
  "ids_accumulate d res acc =
     \<lparr>total_nodes_expanded = total_nodes_expanded acc + r_nodes_expanded res,
      total_nodes_generated = total_nodes_generated acc + r_nodes_generated res,
      ids_max_frontier_size = max (ids_max_frontier_size acc) (r_max_frontier_size res),
      all_steps = all_steps acc @ map (\<lambda>s. s\<lparr>s_depth_limit := Some d\<rparr>) (r_steps res)\<rparr>"

definition ids_result :: "'a list \<Rightarrow> int \<Rightarrow> 'a ids_totals \<Rightarrow> ('a, 'a step) result" where
  "ids_result p dist acc =
     \<lparr>r_algorithm = ''ids'', r_path = p, r_distance = dist,
      r_nodes_expanded = total_nodes_expanded acc,
      r_nodes_generated = total_nodes_generated acc,
      r_max_frontier_size = ids_max_frontier_size acc, r_steps = all_steps acc\<rparr>"

text \<open>The \<open>for depth in range(max_depth)\<close> loop, over the list of depths still to try.\<close>

fun ids_loop ::
  "'a graph \<Rightarrow> 'a \<Rightarrow> 'a \<Rightarrow> int list \<Rightarrow> 'a ids_totals \<Rightarrow>
     ('a error + ('a, 'a step) result) option" where
  "ids_loop graph start goal [] acc = Some (Inr (ids_result [] 0 acc))"
| "ids_loop graph start goal (d # ds) acc =
     (case depth_limited_search graph start goal d of
        None \<Rightarrow> None
      | Some (Inl e) \<Rightarrow> Some (Inl e)
      | Some (Inr res) \<Rightarrow>
          (let acc' = ids_accumulate d res acc
           in if r_path res \<noteq> [] then Some (Inr (ids_result (r_path res) (r_distance res) acc'))
              else ids_loop graph start goal ds acc'))"

definition iterative_deepening_search ::
  "'a graph \<Rightarrow> 'a \<Rightarrow> 'a \<Rightarrow> int \<Rightarrow> ('a error + ('a, 'a step) result) option" where
  "iterative_deepening_search graph start goal max_depth =
     (if start = goal then Some (Inr (trivial_result ''ids'' start 1 1 1))
      else ids_loop graph start goal (map int [0..<nat max_depth])
             \<lparr>total_nodes_expanded = 0, total_nodes_generated = 0,
              ids_max_frontier_size = 0, all_steps = []\<rparr>)"

section \<open>The heapq module\<close>

text \<open>
  The frontier of the cost-ordered searches is a Python list kept as a binary heap by
  \<open>heapq\<close>, which compares entries with \<open><\<close> only. The functions follow CPython's
  \<open>_siftdown\<close>, \<open>_siftup\<close>, \<open>heappush\<close>, \<open>heappop\<close> and \<open>heapify\<close>; every index they read
  is below the length of the list.
\<close>

function siftdown_loop ::
  "('e \<Rightarrow> 'e \<Rightarrow> bool) \<Rightarrow> 'e \<Rightarrow> nat \<Rightarrow> 'e list \<Rightarrow> nat \<Rightarrow> 'e list \<times> nat" where
  "siftdown_loop lt newitem startpos heap pos =
     (if startpos < pos then
        (let parentpos = (pos - 1) div 2;
             parent = heap ! parentpos
         in if lt newitem parent
            then siftdown_loop lt newitem startpos (heap[pos := parent]) parentpos
            else (heap, pos))
      else (heap, pos))"
  by pat_completeness auto
termination
  by (relation "measure (\<lambda>(lt, newitem, startpos, heap, pos). pos)") auto

declare siftdown_loop.simps [simp del]

definition siftdown :: "('e \<Rightarrow> 'e \<Rightarrow> bool) \<Rightarrow> 'e list \<Rightarrow> nat \<Rightarrow> nat \<Rightarrow> 'e list" where
  "siftdown lt heap startpos pos =
     (let newitem = heap ! pos;
          (heap', pos') = siftdown_loop lt newitem startpos heap pos
      in heap'[pos' := newitem])"

function siftup_loop ::
  "('e \<Rightarrow> 'e \<Rightarrow> bool) \<Rightarrow> nat \<Rightarrow> 'e list \<Rightarrow> nat \<Rightarrow> 'e list \<times> nat" where
  "siftup_loop lt endpos heap pos =
     (let childpos = 2 * pos + 1
      in if childpos < endpos then
           (let rightpos = childpos + 1;
                childpos' = (if rightpos < endpos \<and> \<not> lt (heap ! childpos) (heap ! rightpos)
                             then rightpos else childpos)
            in siftup_loop lt endpos (heap[pos := heap ! childpos']) childpos')
         else (heap, pos))"
  by pat_completeness auto
termination
  by (relation "measure (\<lambda>(lt, endpos, heap, pos). endpos - pos)") (auto simp: Let_def)

declare siftup_loop.simps [simp del]

definition siftup :: "('e \<Rightarrow> 'e \<Rightarrow> bool) \<Rightarrow> 'e list \<Rightarrow> nat \<Rightarrow> 'e list" where
  "siftup lt heap pos =
     (let endpos = length heap;
          startpos = pos;
          newitem = heap ! pos;
          (heap', pos') = siftup_loop lt endpos heap pos
      in siftdown lt (heap'[pos' := newitem]) startpos pos')"

definition heappush :: "('e \<Rightarrow> 'e \<Rightarrow> bool) \<Rightarrow> 'e list \<Rightarrow> 'e \<Rightarrow> 'e list" where
  "heappush lt heap item = siftdown lt (heap @ [item]) 0 (length heap)"

text \<open>\<open>heappop\<close> of an empty list raises \<open>IndexError\<close>: the value \<open>None\<close>.\<close>

definition heappop :: "('e \<Rightarrow> 'e \<Rightarrow> bool) \<Rightarrow> 'e list \<Rightarrow> ('e \<times> 'e list) option" where
  "heappop lt heap =
     (if heap = [] then None
      else
        (let lastelt = last heap;
             heap1 = butlast heap
         in if heap1 \<noteq> [] then Some (heap1 ! 0, siftup lt (heap1[0 := lastelt]) 0)
            else Some (lastelt, heap1)))"

definition heapify :: "('e \<Rightarrow> 'e \<Rightarrow> bool) \<Rightarrow> 'e list \<Rightarrow> 'e list" where
  "heapify lt x = fold (\<lambda>i h. siftup lt h i) (rev [0..<length x div 2]) x"

text \<open>The index of the first element that satisfies \<open>P\<close>: the scan of a \<open>for ... break\<close>.\<close>

fun first_index :: "('e \<Rightarrow> bool) \<Rightarrow> 'e list \<Rightarrow> nat option" where
  "first_index P [] = None"
| "first_index P (x # xs) = (if P x then Some 0 else map_option Suc (first_index P xs))"

section \<open>Uniform-cost search\<close>

text \<open>
  Frontier entries are tuples \<open>(cost, node)\<close>; Python compares tuples lexicographically and
  falls back on \<open>Node.__lt__\<close> when the costs are equal.
\<close>

definition ucs_lt :: "int \<times> 'a node \<Rightarrow> int \<times> 'a node \<Rightarrow> bool" where
  "ucs_lt x y = (if fst x \<noteq> fst y then fst x < fst y else node_lt (snd x) (snd y))"

definition ucs_init :: "'a \<Rightarrow> ('a, int \<times> 'a node, 'a set) search" where
  "ucs_init start =
     \<lparr>frontier = [(0, root_node start)], frontier_states = {start}, explored = {}, steps = [],
      nodes_expanded = 0, nodes_generated = 1, max_frontier_size = 1\<rparr>"

definition ucs_update :: "(int \<times> 'a node) list \<Rightarrow> 'a node \<Rightarrow> (int \<times> 'a node) list" where
  "ucs_update fr child =
     (case first_index (\<lambda>(cost, frontier_node).
             state frontier_node = state child \<and> path_cost child < cost) fr of
        None \<Rightarrow> fr
      | Some i \<Rightarrow> heapify ucs_lt (fr[i := (path_cost child, child)]))"

definition ucs_child ::
  "'a node \<Rightarrow> ('a, int \<times> 'a node, 'a set) search \<Rightarrow> ('a, int \<times> 'a node, 'a set) search" where
  "ucs_child child st =
     (let st1 = st\<lparr>nodes_generated := nodes_generated st + 1\<rparr>
      in if state child \<notin> explored st1 \<and> state child \<notin> frontier_states st1
         then st1\<lparr>frontier := heappush ucs_lt (frontier st1) (path_cost child, child),
                  frontier_states := insert (state child) (frontier_states st1)\<rparr>
         else if state child \<in> frontier_states st1
         then st1\<lparr>frontier := ucs_update (frontier st1) child\<rparr>
         else st1)"

definition ucs_body ::
  "'a graph \<Rightarrow> 'a \<Rightarrow> ('a, int \<times> 'a node, 'a set) search \<Rightarrow>
     ('a, int \<times> 'a node, 'a set) search + ('a error + ('a, 'a step) result)" where
  "ucs_body graph goal st =
     (if frontier st = [] then Inr (Inr (no_path ''ucs'' st))
      else
        (let st1 = snapshot snd st
         in case heappop ucs_lt (frontier st1) of
              None \<Rightarrow> Inr (Inl IndexError)
            | Some ((c, n), rest) \<Rightarrow>
                (let st2 = st1\<lparr>frontier := rest\<rparr>
                 in case set_remove (frontier_states st2) (state n) of
                      Inl e \<Rightarrow> Inr (Inl e)
                    | Inr fs \<Rightarrow>
                        (let st3 = st2\<lparr>frontier_states := fs,
                                       nodes_expanded := nodes_expanded st2 + 1\<rparr>;
                             st4 = st3\<lparr>steps := set_current (steps st3) (state n)\<rparr>
                         in if state n = goal then Inr (Inr (found ''ucs'' n st4))
                            else
                              (let st5 = st4\<lparr>explored := insert (state n) (explored st4)\<rparr>
                               in case expand n graph of
                                    Inl e \<Rightarrow> Inr (Inl e)
                                  | Inr children \<Rightarrow> Inl (fold ucs_child children st5))))))"

definition uniform_cost_search ::
  "'a graph \<Rightarrow> 'a \<Rightarrow> 'a \<Rightarrow> ('a error + ('a, 'a step) result) option" where
  "uniform_cost_search graph start goal =
     (if start = goal then Some (Inr (trivial_result ''ucs'' start 0 1 1))
      else run_loop (ucs_body graph goal) (ucs_init start))"

section \<open>Heuristic\<close>

text \<open>
  The table \<open>heuristic_data\<close> is a dict from state to number. The lookup
  \<open>heuristic_data[state]\<close> is the fallible \<open>dict_get\<close>, reached only behind the test
  \<open>state in heuristic_data\<close>.
\<close>

definition get_heuristic ::
  "string \<Rightarrow> string \<Rightarrow> (string \<times> int) list \<Rightarrow> string error + int" where
  "get_heuristic s goal heuristic_data =
     (if goal = ''Bucharest'' \<and> s \<in> set (map fst heuristic_data)
      then dict_get heuristic_data s
      else Inr 0)"

text \<open>A \<open>for\<close> loop whose body may raise: the first error ends it.\<close>

fun fold_err :: "('c \<Rightarrow> 's \<Rightarrow> 'x + 's) \<Rightarrow> 'c list \<Rightarrow> 's \<Rightarrow> 'x + 's" where
  "fold_err f [] s = Inr s"
| "fold_err f (c # cs) s = (case f c s of Inl e \<Rightarrow> Inl e | Inr s' \<Rightarrow> fold_err f cs s')"

section \<open>Greedy best-first search\<close>

text \<open>Frontier entries are tuples \<open>(h, node)\<close>, compared like those of uniform-cost search.\<close>

definition greedy_init ::
  "string \<Rightarrow> int \<Rightarrow> (string, int \<times> string node, string set) search" where
  "greedy_init start h =
     \<lparr>frontier = [(h, root_node start)], frontier_states = {start}, explored = {}, steps = [],
      nodes_expanded = 0, nodes_generated = 1, max_frontier_size = 1\<rparr>"

definition greedy_child ::
  "string \<Rightarrow> (string \<times> int) list \<Rightarrow> string node \<Rightarrow>
     (string, int \<times> string node, string set) search \<Rightarrow>
     string error + (string, int \<times> string node, string set) search" where
  "greedy_child goal heuristic_data child st =
     (let st1 = st\<lparr>nodes_generated := nodes_generated st + 1\<rparr>
      in if state child \<notin> explored st1 \<and> state child \<notin> frontier_states st1
         then (case get_heuristic (state child) goal heuristic_data of
                 Inl e \<Rightarrow> Inl e
               | Inr h \<Rightarrow>
                   Inr (st1\<lparr>frontier := heappush ucs_lt (frontier st1) (h, child),
                            frontier_states := insert (state child) (frontier_states st1)\<rparr>))
         else Inr st1)"

definition greedy_body ::
  "string graph \<Rightarrow> string \<Rightarrow> (string \<times> int) list \<Rightarrow>
     (string, int \<times> string node, string set) search \<Rightarrow>
     (string, int \<times> string node, string set) search +
       (string error + (string, string step) result)" where
  "greedy_body graph goal heuristic_data st =
     (if frontier st = [] then Inr (Inr (no_path ''greedy'' st))
      else
        (let st1 = snapshot snd st
         in case heappop ucs_lt (frontier st1) of
              None \<Rightarrow> Inr (Inl IndexError)
            | Some ((h, n), rest) \<Rightarrow>
                (let st2 = st1\<lparr>frontier := rest\<rparr>
                 in case set_remove (frontier_states st2) (state n) of
                      Inl e \<Rightarrow> Inr (Inl e)
                    | Inr fs \<Rightarrow>
                        (let st3 = st2\<lparr>frontier_states := fs,
                                       nodes_expanded := nodes_expanded st2 + 1\<rparr>;
                             st4 = st3\<lparr>steps := set_current (steps st3) (state n)\<rparr>
                         in if state n = goal then Inr (Inr (found ''greedy'' n st4))
                            else
                              (let st5 = st4\<lparr>explored := insert (state n) (explored st4)\<rparr>
                               in case expand n graph of
                                    Inl e \<Rightarrow> Inr (Inl e)
                                  | Inr children \<Rightarrow>
                                      (case fold_err (greedy_child goal heuristic_data)
                                              children st5 of
                                         Inl e \<Rightarrow> Inr (Inl e)
                                       | Inr st6 \<Rightarrow> Inl st6))))))"

definition greedy_search ::
  "string graph \<Rightarrow> string \<Rightarrow> string \<Rightarrow> (string \<times> int) list \<Rightarrow>
     (string error + (string, string step) result) option" where
  "greedy_search graph start goal heuristic_data =
     (if start = goal then Some (Inr (trivial_result ''greedy'' start 0 1 1))
      else (case get_heuristic start goal heuristic_data of
              Inl e \<Rightarrow> Some (Inl e)
            | Inr h \<Rightarrow> run_loop (greedy_body graph goal heuristic_data) (greedy_init start h)))"

section \<open>A* search\<close>

text \<open>
  Frontier entries are tuples \<open>(f, id(node), node)\<close>. \<open>id\<close> is the identity of a Python
  object, chosen by the interpreter: the search takes it as a parameter \<open>ident\<close> that gives
  the identity of the k-th node object created, and the field \<open>created\<close> counts them.
  \<open>frontier_states\<close> is a dict from state to path cost, never iterated: a map.
\<close>

record ('a, 'e, 's) astar_search = "('a, 'e, 's) search" +
  created :: nat

definition astar_lt :: "int \<times> int \<times> 'a node \<Rightarrow> int \<times> int \<times> 'a node \<Rightarrow> bool" where
  "astar_lt x y =
     (if fst x \<noteq> fst y then fst x < fst y
      else if fst (snd x) \<noteq> fst (snd y) then fst (snd x) < fst (snd y)
      else node_lt (snd (snd x)) (snd (snd y)))"

text \<open>\<open>del d[k]\<close> raises \<open>KeyError\<close> when \<open>k\<close> is not a key.\<close>

definition dict_del :: "('k \<rightharpoonup> 'v) \<Rightarrow> 'k \<Rightarrow> 'k error + ('k \<rightharpoonup> 'v)" where
  "dict_del d k = (if k \<in> dom d then Inr (d(k := None)) else Inl (KeyError k))"

definition map_get :: "('k \<rightharpoonup> 'v) \<Rightarrow> 'k \<Rightarrow> 'k error + 'v" where
  "map_get d k = (case d k of None \<Rightarrow> Inl (KeyError k) | Some v \<Rightarrow> Inr v)"

definition astar_init ::
  "(nat \<Rightarrow> int) \<Rightarrow> string \<Rightarrow> int \<Rightarrow>
     (string, int \<times> int \<times> string node, string \<rightharpoonup> int) astar_search" where
  "astar_init ident start h =
     \<lparr>frontier = [(path_cost (root_node start) + h, ident 0, root_node start)],
      frontier_states = [start \<mapsto> path_cost (root_node start)],
      explored = {}, steps = [],
      nodes_expanded = 0, nodes_generated = 1, max_frontier_size = 1, created = 1\<rparr>"

definition astar_child ::
  "(nat \<Rightarrow> int) \<Rightarrow> string \<Rightarrow> (string \<times> int) list \<Rightarrow> string node \<Rightarrow>
     (string, int \<times> int \<times> string node, string \<rightharpoonup> int) astar_search \<Rightarrow>
     string error + (string, int \<times> int \<times> string node, string \<rightharpoonup> int) astar_search" where
  "astar_child ident goal heuristic_data child st =
     (let child_id = ident (created st);
          st1 = st\<lparr>nodes_generated := nodes_generated st + 1, created := created st + 1\<rparr>
      in if state child \<notin> explored st1 then
           (case get_heuristic (state child) goal heuristic_data of
              Inl e \<Rightarrow> Inl e
            | Inr h \<Rightarrow>
                (let f_value = path_cost child + h
                 in if state child \<notin> dom (frontier_states st1)
                    then Inr (st1\<lparr>frontier :=
                                   heappush astar_lt (frontier st1) (f_value, child_id, child),
                                 frontier_states :=
                                   (frontier_states st1)(state child \<mapsto> path_cost child)\<rparr>)
                    else (case map_get (frontier_states st1) (state child) of
                            Inl e \<Rightarrow> Inl e
                          | Inr old \<Rightarrow>
                              if path_cost child < old then
                                (case first_index (\<lambda>(f, i, frontier_node).
                                        state frontier_node = state child) (frontier st1) of
                                   None \<Rightarrow> Inr st1
                                 | Some i \<Rightarrow>
                                     Inr (st1\<lparr>frontier :=
                                                heapify astar_lt
                                                  ((frontier st1)[i := (f_value, child_id, child)]),
                                              frontier_states :=
                                                (frontier_states st1)
                                                  (state child \<mapsto> path_cost child)\<rparr>))
                              else Inr st1)))
         else Inr st1)"

definition astar_body ::
  "(nat \<Rightarrow> int) \<Rightarrow> string graph \<Rightarrow> string \<Rightarrow> (string \<times> int) list \<Rightarrow>
     (string, int \<times> int \<times> string node, string \<rightharpoonup> int) astar_search \<Rightarrow>
     (string, int \<times> int \<times> string node, string \<rightharpoonup> int) astar_search +
       (string error + (string, string step) result)" where
  "astar_body ident graph goal heuristic_data st =
     (if frontier st = [] then Inr (Inr (no_path ''astar'' st))
      else
        (let st1 = snapshot (\<lambda>e. snd (snd e)) st
         in case heappop astar_lt (frontier st1) of
              None \<Rightarrow> Inr (Inl IndexError)
            | Some ((f, i, n), rest) \<Rightarrow>
                (let st2 = st1\<lparr>frontier := rest\<rparr>
                 in case dict_del (frontier_states st2) (state n) of
                      Inl e \<Rightarrow> Inr (Inl e)
                    | Inr fs \<Rightarrow>
                        (let st3 = st2\<lparr>frontier_states := fs,
                                       nodes_expanded := nodes_expanded st2 + 1\<rparr>;
                             st4 = st3\<lparr>steps := set_current (steps st3) (state n)\<rparr>
                         in if state n = goal then Inr (Inr (found ''astar'' n st4))
                            else
                              (let st5 = st4\<lparr>explored := insert (state n) (explored st4)\<rparr>
                               in case expand n graph of
                                    Inl e \<Rightarrow> Inr (Inl e)
                                  | Inr children \<Rightarrow>
                                      (case fold_err (astar_child ident goal heuristic_data)
                                              children st5 of
                                         Inl e \<Rightarrow> Inr (Inl e)
                                       | Inr st6 \<Rightarrow> Inl st6))))))"

definition a_star_search ::
  "(nat \<Rightarrow> int) \<Rightarrow> string graph \<Rightarrow> string \<Rightarrow> string \<Rightarrow> (string \<times> int) list \<Rightarrow>
     (string error + (string, string step) result) option" where
  "a_star_search ident graph start goal heuristic_data =
     (if start = goal then Some (Inr (trivial_result ''astar'' start 0 1 1))
      else (case get_heuristic start goal heuristic_data of
              Inl e \<Rightarrow> Some (Inl e)
            | Inr h \<Rightarrow>
                run_loop (astar_body ident graph goal heuristic_data)
                  (astar_init ident start h)))"

section \<open>Bidirectional search\<close>

record 'a bistep =
  s_forward_frontier :: "'a list"
  s_backward_frontier :: "'a list"
  s_forward_explored :: "'a list"
  s_backward_explored :: "'a list"
  s_current_forward :: "'a option"
  s_current_backward :: "'a option"

text \<open>
  The explored structures are dicts from state to node whose keys are listed in the
  snapshots: association lists in insertion order.
\<close>

record 'a bisearch =
  forward_frontier :: "'a node list"
  forward_explored :: "('a \<times> 'a node) list"
  backward_frontier :: "'a node list"
  backward_explored :: "('a \<times> 'a node) list"
  bi_steps :: "'a bistep list"
  bi_nodes_expanded :: nat
  bi_nodes_generated :: nat
  bi_max_frontier_size :: nat

text \<open>
  The reverse graph: first an empty dict for every city, then
  \<open>reverse_graph[neighbor][city] = distance\<close> for every edge, which raises \<open>KeyError\<close> when
  \<open>neighbor\<close> is not a key of the graph.
\<close>

definition reverse_edge ::
  "'a \<Rightarrow> 'a \<times> int \<Rightarrow> 'a graph \<Rightarrow> 'a error + 'a graph" where
  "reverse_edge city e rg =
     (case dict_get rg (fst e) of
        Inl err \<Rightarrow> Inl err
      | Inr inner \<Rightarrow> Inr (dict_set rg (fst e) (dict_set inner city (snd e))))"

definition make_reverse_graph :: "'a graph \<Rightarrow> 'a error + 'a graph" where
  "make_reverse_graph graph =
     fold_err (\<lambda>(city, neighbors) rg. fold_err (reverse_edge city) neighbors rg) graph
       (fold (\<lambda>(city, neighbors) rg. dict_set rg city []) graph [])"

definition bi_init :: "'a \<Rightarrow> 'a \<Rightarrow> 'a bisearch" where
  "bi_init start goal =
     \<lparr>forward_frontier = [root_node start], forward_explored = [],
      backward_frontier = [root_node goal], backward_explored = [],
      bi_steps = [], bi_nodes_expanded = 0, bi_nodes_generated = 2, bi_max_frontier_size = 2\<rparr>"

definition bi_snapshot :: "'a bisearch \<Rightarrow> 'a bisearch" where
  "bi_snapshot st =
     st\<lparr>bi_max_frontier_size :=
          max (bi_max_frontier_size st)
            (length (forward_frontier st) + length (backward_frontier st)),
        bi_steps := bi_steps st @
          [\<lparr>s_forward_frontier = map state (forward_frontier st),
            s_backward_frontier = map state (backward_frontier st),
            s_forward_explored = map fst (forward_explored st),
            s_backward_explored = map fst (backward_explored st),
            s_current_forward = None, s_current_backward = None\<rparr>]\<rparr>"

definition bi_result :: "'a list \<Rightarrow> int \<Rightarrow> 'a bisearch \<Rightarrow> ('a, 'a bistep) result" where
  "bi_result p dist st =
     \<lparr>r_algorithm = ''bidirectional'', r_path = p, r_distance = dist,
      r_nodes_expanded = bi_nodes_expanded st, r_nodes_generated = bi_nodes_generated st,
      r_max_frontier_size = bi_max_frontier_size st, r_steps = bi_steps st\<rparr>"

text \<open>
  The meeting of the two searches: the forward path, then the reversed backward path without
  its first element.
\<close>

definition bi_meet :: "'a node \<Rightarrow> 'a node \<Rightarrow> 'a bisearch \<Rightarrow> ('a, 'a bistep) result" where
  "bi_meet forward_node backward_node st =
     bi_result (path forward_node @ tl (rev (path backward_node)))
       (path_cost forward_node + path_cost backward_node) st"

definition forward_child :: "'a node \<Rightarrow> 'a bisearch \<Rightarrow> 'a bisearch" where
  "forward_child child st =
     (let st1 = st\<lparr>bi_nodes_generated := bi_nodes_generated st + 1\<rparr>
      in if state child \<notin> set (map fst (forward_explored st1)) \<and>
            state child \<notin> set (map state (forward_frontier st1))
         then st1\<lparr>forward_frontier := forward_frontier st1 @ [child]\<rparr>
         else st1)"

definition backward_child :: "'a node \<Rightarrow> 'a bisearch \<Rightarrow> 'a bisearch" where
  "backward_child child st =
     (let st1 = st\<lparr>bi_nodes_generated := bi_nodes_generated st + 1\<rparr>
      in if state child \<notin> set (map fst (backward_explored st1)) \<and>
            state child \<notin> set (map state (backward_frontier st1))
         then st1\<lparr>backward_frontier := backward_frontier st1 @ [child]\<rparr>
         else st1)"

definition bi_set_forward :: "'a bistep list \<Rightarrow> 'a \<Rightarrow> 'a bistep list" where
  "bi_set_forward ss s = ss[length ss - 1 := (last ss)\<lparr>s_current_forward := Some s\<rparr>]"

definition bi_set_backward :: "'a bistep list \<Rightarrow> 'a \<Rightarrow> 'a bistep list" where
  "bi_set_backward ss s = ss[length ss - 1 := (last ss)\<lparr>s_current_backward := Some s\<rparr>]"

text \<open>The backward half of one iteration, after the forward expansion.\<close>

definition bi_backward ::
  "'a graph \<Rightarrow> 'a bisearch \<Rightarrow> 'a bisearch + ('a error + ('a, 'a bistep) result)" where
  "bi_backward reverse_graph st =
     (case backward_frontier st of
        [] \<Rightarrow> Inr (Inl IndexError)
      | backward_node # rest \<Rightarrow>
          (let st1 = st\<lparr>backward_frontier := rest,
                        bi_nodes_expanded := bi_nodes_expanded st + 1\<rparr>;
               st2 = st1\<lparr>bi_steps := bi_set_backward (bi_steps st1) (state backward_node)\<rparr>;
               st3 = st2\<lparr>backward_explored :=
                           dict_set (backward_explored st2) (state backward_node) backward_node\<rparr>
           in if state backward_node \<in> set (map fst (forward_explored st3))
              then (case dict_get (forward_explored st3) (state backward_node) of
                      Inl e \<Rightarrow> Inr (Inl e)
                    | Inr forward_node \<Rightarrow> Inr (Inr (bi_meet forward_node backward_node st3)))
              else (case expand backward_node reverse_graph of
                      Inl e \<Rightarrow> Inr (Inl e)
                    | Inr children \<Rightarrow> Inl (fold backward_child children st3))))"

definition bi_body ::
  "'a graph \<Rightarrow> 'a graph \<Rightarrow> 'a bisearch \<Rightarrow>
     'a bisearch + ('a error + ('a, 'a bistep) result)" where
  "bi_body graph reverse_graph st =
     (case forward_frontier st of
        [] \<Rightarrow> Inr (Inr (bi_result [] 0 st))
      | forward_node # rest \<Rightarrow>
          if backward_frontier st = [] then Inr (Inr (bi_result [] 0 st))
          else
            (let st1 = bi_snapshot st;
                 st2 = st1\<lparr>forward_frontier := rest,
                          bi_nodes_expanded := bi_nodes_expanded st1 + 1\<rparr>;
                 st3 = st2\<lparr>bi_steps := bi_set_forward (bi_steps st2) (state forward_node)\<rparr>;
                 st4 = st3\<lparr>forward_explored :=
                             dict_set (forward_explored st3) (state forward_node) forward_node\<rparr>
             in if state forward_node \<in> set (map fst (backward_explored st4))
                then (case dict_get (backward_explored st4) (state forward_node) of
                        Inl e \<Rightarrow> Inr (Inl e)
                      | Inr backward_node \<Rightarrow> Inr (Inr (bi_meet forward_node backward_node st4)))
                else (case expand forward_node graph of
                        Inl e \<Rightarrow> Inr (Inl e)
                      | Inr children \<Rightarrow>
                          bi_backward reverse_graph (fold forward_child children st4))))"

definition bidirectional_search ::
  "'a graph \<Rightarrow> 'a \<Rightarrow> 'a \<Rightarrow> ('a error + ('a, 'a bistep) result) option" where
  "bidirectional_search graph start goal =
     (if start = goal then Some (Inr (trivial_result ''bidirectional'' start 0 2 2))
      else (case make_reverse_graph graph of
              Inl e \<Rightarrow> Some (Inl e)
            | Inr reverse_graph \<Rightarrow> run_loop (bi_body graph reverse_graph) (bi_init start goal)))"

section \<open>Loop states\<close>

text \<open>The state of a loop at the start of its k-th iteration, if the loop gets that far.\<close>

fun loop_state :: "('s \<Rightarrow> 's + 'r) \<Rightarrow> 's \<Rightarrow> nat \<Rightarrow> 's option" where
  "loop_state body s 0 = Some s"
| "loop_state body s (Suc k) =
     (case loop_state body s k of
        None \<Rightarrow> None
      | Some s' \<Rightarrow> (case body s' of Inl s'' \<Rightarrow> Some s'' | Inr r \<Rightarrow> None))"


section \<open>The fixed scenario\<close>

text \<open>
  Edges A-B 1, B-C 2, A-C 5, entered in both directions in that order, and a fourth node
  without edges.
\<close>

definition scenario_graph :: "string graph" where
  "scenario_graph =
     [(''A'', [(''B'', 1), (''C'', 5)]),
      (''B'', [(''A'', 1), (''C'', 2)]),
      (''C'', [(''B'', 2), (''A'', 5)]),
      (''D'', [])]"

definition zero_table :: "(string \<times> int) list" where
  "zero_table = [(''A'', 0), (''B'', 0), (''C'', 0), (''D'', 0)]"

text \<open>
  An admissible table that is not consistent, for the goal Bucharest: from A the goal is 11
  away and the estimate is 10, but X, one unit from A, has the estimate 0.
\<close>

definition detour_graph :: "string graph" where
  "detour_graph =
     [(''S'', [(''X'', 4), (''A'', 1)]),
      (''A'', [(''S'', 1), (''X'', 1)]),
      (''X'', [(''S'', 4), (''A'', 1), (''Bucharest'', 10)]),
      (''Bucharest'', [(''X'', 10)])]"

definition detour_table :: "(string \<times> int) list" where
  "detour_table = [(''S'', 0), (''A'', 10), (''X'', 0), (''Bucharest'', 0)]"

section \<open>Graphs, paths and distances\<close>

text \<open>A Python dict has each key once, in the graph and in every neighbour dict.\<close>

definition wf_graph :: "'a graph \<Rightarrow> bool" where
  "wf_graph g \<longleftrightarrow> distinct (map fst g) \<and> (\<forall>(k, nb) \<in> set g. distinct (map fst nb))"

definition edge_weight :: "'a graph \<Rightarrow> 'a \<Rightarrow> 'a \<Rightarrow> int option" where
  "edge_weight g u v = (case map_of g u of None \<Rightarrow> None | Some nb \<Rightarrow> map_of nb v)"

text \<open>Consecutive elements are adjacent; the sum of the traversed edge weights.\<close>

fun path_ok :: "'a graph \<Rightarrow> 'a list \<Rightarrow> bool" where
  "path_ok g (u # v # p) = (edge_weight g u v \<noteq> None \<and> path_ok g (v # p))"
| "path_ok g p = True"

fun path_weight :: "'a graph \<Rightarrow> 'a list \<Rightarrow> int" where
  "path_weight g (u # v # p) =
     (case edge_weight g u v of None \<Rightarrow> 0 | Some w \<Rightarrow> w) + path_weight g (v # p)"
| "path_weight g p = 0"

definition edges :: "'a graph \<Rightarrow> ('a \<times> 'a) set" where
  "edges g = {(u, v). edge_weight g u v \<noteq> None}"

definition reachable :: "'a graph \<Rightarrow> 'a \<Rightarrow> 'a set" where
  "reachable g s = (edges g)\<^sup>* `` {s}"

text \<open>Every state reachable from the start is a key of the graph.\<close>

definition closed_from :: "'a graph \<Rightarrow> 'a \<Rightarrow> bool" where
  "closed_from g s \<longleftrightarrow> reachable g s \<subseteq> set (map fst g)"

text \<open>Every neighbour named in the graph is a key of the graph.\<close>

definition closed_graph :: "'a graph \<Rightarrow> bool" where
  "closed_graph g \<longleftrightarrow> (\<forall>(k, nb) \<in> set g. set (map fst nb) \<subseteq> set (map fst g))"

definition nonneg_weights :: "'a graph \<Rightarrow> bool" where
  "nonneg_weights g \<longleftrightarrow> (\<forall>(k, nb) \<in> set g. \<forall>(v, w) \<in> set nb. 0 \<le> w)"

text \<open>A walk from \<open>s\<close> to \<open>t\<close>: a non-empty list of states, consecutive ones adjacent.\<close>

definition walk :: "'a graph \<Rightarrow> 'a \<Rightarrow> 'a \<Rightarrow> 'a list \<Rightarrow> bool" where
  "walk g s t p \<longleftrightarrow> p \<noteq> [] \<and> hd p = s \<and> last p = t \<and> path_ok g p"

text \<open>\<open>d\<close> is the true shortest-path distance from \<open>s\<close> to \<open>t\<close>.\<close>

definition shortest_distance :: "'a graph \<Rightarrow> 'a \<Rightarrow> 'a \<Rightarrow> int \<Rightarrow> bool" where
  "shortest_distance g s t d \<longleftrightarrow>
     (\<exists>p. walk g s t p \<and> path_weight g p = d) \<and> (\<forall>p. walk g s t p \<longrightarrow> d \<le> path_weight g p)"

section \<open>Invariants of the searches\<close>

text \<open>
  A search node is sound when its parent chain starts at the root of the search and every
  link follows an item of the parent's neighbour dict, adding its weight and one level.
\<close>

fun node_ok :: "'a graph \<Rightarrow> 'a \<Rightarrow> 'a node \<Rightarrow> bool" where
  "node_ok g start (Node s p a c d) =
     (case p of
        None \<Rightarrow> s = start \<and> c = 0 \<and> d = 0
      | Some q \<Rightarrow>
          node_ok g start q \<and> d = depth q + 1 \<and>
          (\<exists>nb w. map_of g (state q) = Some nb \<and> (s, w) \<in> set nb \<and> c = path_cost q + w))"

text \<open>The state of a search right after a pop: the bookkeeping every loop body does.\<close>

definition after_pop ::
  "('e \<Rightarrow> 'a node) \<Rightarrow> 'a node \<Rightarrow> 'e list \<Rightarrow> 's \<Rightarrow>
     ('a, 'e, 's, 'z) search_scheme \<Rightarrow> ('a, 'e, 's, 'z) search_scheme" where
  "after_pop nd n rest fs st =
     st\<lparr>frontier := rest, frontier_states := fs,
        steps := steps st @
          [\<lparr>s_frontier = map (\<lambda>e. state (nd e)) (frontier st), s_explored = explored st,
            s_current = Some (state n), s_depth_limit = None\<rparr>],
        nodes_expanded := Suc (nodes_expanded st),
        max_frontier_size := max (max_frontier_size st) (length (frontier st))\<rparr>"

definition frontier_inv ::
  "'a graph \<Rightarrow> 'a \<Rightarrow> ('e \<Rightarrow> 'a node) \<Rightarrow> ('a, 'e, 's, 'z) search_scheme \<Rightarrow> bool" where
  "frontier_inv g start nd st \<longleftrightarrow>
     (\<forall>e \<in> set (frontier st). node_ok g start (nd e)) \<and>
     distinct (map (\<lambda>e. state (nd e)) (frontier st)) \<and>
     (\<forall>e \<in> set (frontier st). state (nd e) \<notin> explored st) \<and>
     explored st \<subseteq> reachable g start \<and>
     card (explored st) = nodes_expanded st \<and>
     nodes_expanded st + length (frontier st) \<le> nodes_generated st \<and>
     1 \<le> max_frontier_size st"

text \<open>
  What every search guarantees about its result: the counters, the bound on the expansions
  by the states reachable from the start, and a non-empty path is the path of a sound node
  whose state is the goal.
\<close>

definition result_ok :: "'a graph \<Rightarrow> 'a \<Rightarrow> 'a \<Rightarrow> ('a, 't) result \<Rightarrow> bool" where
  "result_ok g start goal r \<longleftrightarrow>
     r_nodes_expanded r \<le> r_nodes_generated r \<and>
     1 \<le> r_max_frontier_size r \<and>
     r_nodes_expanded r \<le> card (reachable g start) \<and>
     (if r_path r = [] then r_distance r = 0
      else \<exists>n. node_ok g start n \<and> state n = goal \<and> r_path r = path n \<and>
             r_distance r = path_cost n)"

text \<open>The only exception of a search is the \<open>KeyError\<close> of a reachable state without entry.\<close>

definition outcome_ok ::
  "'a graph \<Rightarrow> 'a \<Rightarrow> 'a \<Rightarrow> 'a error + ('a, 't) result \<Rightarrow> bool" where
  "outcome_ok g start goal res \<longleftrightarrow>
     (case res of
        Inl e \<Rightarrow> \<exists>k. e = KeyError k \<and> k \<in> reachable g start \<and> k \<notin> set (map fst g)
      | Inr r \<Rightarrow> result_ok g start goal r)"

definition stack_inv :: "'a graph \<Rightarrow> 'a \<Rightarrow> ('a, 'a node, 'a set) search \<Rightarrow> bool" where
  "stack_inv g start st \<longleftrightarrow>
     frontier_inv g start id st \<and> frontier_states st = state ` set (frontier st)"

definition keyed_inv ::
  "'a graph \<Rightarrow> 'a \<Rightarrow> ('e \<Rightarrow> 'a node) \<Rightarrow> ('a, 'e, 'a set) search \<Rightarrow> bool" where
  "keyed_inv g start nd st \<longleftrightarrow>
     frontier_inv g start nd st \<and>
     frontier_states st = (\<lambda>e. state (nd e)) ` set (frontier st)"

definition astar_inv ::
  "string graph \<Rightarrow> string \<Rightarrow>
     (string, int \<times> int \<times> string node, string \<rightharpoonup> int) astar_search \<Rightarrow> bool" where
  "astar_inv g start st \<longleftrightarrow>
     frontier_inv g start (\<lambda>e. snd (snd e)) st \<and>
     dom (frontier_states st) = (\<lambda>e. state (snd (snd e))) ` set (frontier st)"

text \<open>
  The guarantee of iterative deepening after \<open>k\<close> rounds: the expansions of every round are
  bounded by the reachable states, so their sum by \<open>k\<close> times as many.
\<close>

definition ids_ok :: "'a graph \<Rightarrow> 'a \<Rightarrow> 'a \<Rightarrow> nat \<Rightarrow> ('a, 't) result \<Rightarrow> bool" where
  "ids_ok g start goal k r \<longleftrightarrow>
     r_nodes_expanded r \<le> r_nodes_generated r \<and>
     (0 < k \<longrightarrow> 1 \<le> r_max_frontier_size r) \<and>
     r_nodes_expanded r \<le> k * card (reachable g start) \<and>
     (if r_path r = [] then r_distance r = 0
      else \<exists>n. node_ok g start n \<and> state n = goal \<and> r_path r = path n \<and>
             r_distance r = path_cost n)"

definition ids_outcome_ok ::
  "'a graph \<Rightarrow> 'a \<Rightarrow> 'a \<Rightarrow> nat \<Rightarrow> 'a error + ('a, 't) result \<Rightarrow> bool" where
  "ids_outcome_ok g start goal k res \<longleftrightarrow>
     (case res of
        Inl e \<Rightarrow> \<exists>x. e = KeyError x \<and> x \<in> reachable g start \<and> x \<notin> set (map fst g)
      | Inr r \<Rightarrow> ids_ok g start goal k r)"

text \<open>The state of bidirectional search right after the forward pop, and after the backward pop.\<close>

definition fwd_popped :: "'a node \<Rightarrow> 'a node list \<Rightarrow> 'a bisearch \<Rightarrow> 'a bisearch" where
  "fwd_popped fn rest st =
     st\<lparr>forward_frontier := rest,
        forward_explored := dict_set (forward_explored st) (state fn) fn,
        bi_nodes_expanded := Suc (bi_nodes_expanded st),
        bi_max_frontier_size :=
          max (bi_max_frontier_size st)
            (length (forward_frontier st) + length (backward_frontier st)),
        bi_steps := bi_steps st @
          [\<lparr>s_forward_frontier = map state (forward_frontier st),
            s_backward_frontier = map state (backward_frontier st),
            s_forward_explored = map fst (forward_explored st),
            s_backward_explored = map fst (backward_explored st),
            s_current_forward = Some (state fn), s_current_backward = None\<rparr>]\<rparr>"

definition bwd_popped :: "'a node \<Rightarrow> 'a node list \<Rightarrow> 'a bisearch \<Rightarrow> 'a bisearch" where
  "bwd_popped bn rest st =
     st\<lparr>backward_frontier := rest,
        backward_explored := dict_set (backward_explored st) (state bn) bn,
        bi_nodes_expanded := Suc (bi_nodes_expanded st),
        bi_steps := bi_set_backward (bi_steps st) (state bn)\<rparr>"

text \<open>
  One side of the search: frontier nodes and explored nodes are sound, their paths visit no
  state twice and pass through explored states only; frontier states are pairwise distinct and
  not yet explored; the explored dict maps each state to a node of that state.
\<close>

definition side_inv ::
  "'a graph \<Rightarrow> 'a \<Rightarrow> 'a node list \<Rightarrow> ('a \<times> 'a node) list \<Rightarrow> bool" where
  "side_inv g start fr ex \<longleftrightarrow>
     (\<forall>n \<in> set fr. node_ok g start n \<and> distinct (path n) \<and>
        set (butlast (path n)) \<subseteq> fst ` set ex) \<and>
     distinct (map state fr) \<and>
     (\<forall>n \<in> set fr. state n \<notin> fst ` set ex) \<and>
     distinct (map fst ex) \<and>
     (\<forall>(k, n) \<in> set ex. node_ok g start n \<and> state n = k \<and> distinct (path n) \<and>
        set (path n) \<subseteq> fst ` set ex)"

definition bi_core :: "'a graph \<Rightarrow> 'a graph \<Rightarrow> 'a \<Rightarrow> 'a \<Rightarrow> 'a bisearch \<Rightarrow> bool" where
  "bi_core g rg start goal st \<longleftrightarrow>
     side_inv g start (forward_frontier st) (forward_explored st) \<and>
     side_inv rg goal (backward_frontier st) (backward_explored st) \<and>
     bi_nodes_expanded st + length (forward_frontier st) + length (backward_frontier st)
       \<le> bi_nodes_generated st \<and>
     1 \<le> bi_max_frontier_size st"

definition bi_inv :: "'a graph \<Rightarrow> 'a graph \<Rightarrow> 'a \<Rightarrow> 'a \<Rightarrow> 'a bisearch \<Rightarrow> bool" where
  "bi_inv g rg start goal st \<longleftrightarrow>
     bi_core g rg start goal st \<and>
     fst ` set (forward_explored st) \<inter> fst ` set (backward_explored st) = {} \<and>
     bi_nodes_expanded st = 2 * length (forward_explored st)"

text \<open>
  What bidirectional search guarantees about its result: a non-empty path joins the path of
  a sound forward node and the reversed path of a sound backward node of the same state,
  and visits no state twice.
\<close>

definition bi_result_ok ::
  "'a graph \<Rightarrow> 'a graph \<Rightarrow> 'a \<Rightarrow> 'a \<Rightarrow> ('a, 't) result \<Rightarrow> bool" where
  "bi_result_ok g rg start goal r \<longleftrightarrow>
     r_nodes_expanded r \<le> r_nodes_generated r \<and>
     1 \<le> r_max_frontier_size r \<and>
     r_nodes_expanded r \<le> 2 * card (reachable g start) \<and>
     (if r_path r = [] then r_distance r = 0
      else \<exists>fn bn. node_ok g start fn \<and> node_ok rg goal bn \<and> state fn = state bn \<and>
             r_path r = path fn @ tl (rev (path bn)) \<and>
             r_distance r = path_cost fn + path_cost bn \<and> distinct (r_path r))"

definition bi_outcome_ok ::
  "'a graph \<Rightarrow> 'a graph \<Rightarrow> 'a \<Rightarrow> 'a \<Rightarrow> 'a error + ('a, 't) result \<Rightarrow> bool" where
  "bi_outcome_ok g rg start goal res \<longleftrightarrow>
     (case res of
        Inl e \<Rightarrow> \<exists>k. e = KeyError k \<and>
                   (k \<in> reachable g start \<and> k \<notin> set (map fst g) \<or>
                    k \<in> reachable rg goal \<and> k \<notin> set (map fst rg))
      | Inr r \<Rightarrow> bi_result_ok g rg start goal r)"

text \<open>Every item of the reverse graph comes from an item of the graph, turned round.\<close>

definition rev_items :: "'a graph \<Rightarrow> 'a graph \<Rightarrow> bool" where
  "rev_items g rg \<longleftrightarrow>
     fst ` set rg = fst ` set g \<and>
     (\<forall>u nb v w. map_of rg u = Some nb \<longrightarrow> (v, w) \<in> set nb \<longrightarrow>
        (\<exists>nb'. (v, nb') \<in> set g \<and> (u, w) \<in> set nb'))"

text \<open>Every returned result satisfies \<open>P\<close>.\<close>

definition returns :: "('e + 'r) option \<Rightarrow> ('r \<Rightarrow> bool) \<Rightarrow> bool" where
  "returns out P \<longleftrightarrow> (\<forall>r. out = Some (Inr r) \<longrightarrow> P r)"

text \<open>The call terminates, raises no exception, and its result satisfies \<open>P\<close>.\<close>

definition returns_with :: "('e + 'r) option \<Rightarrow> ('r \<Rightarrow> bool) \<Rightarrow> bool" where
  "returns_with out P \<longleftrightarrow> (\<exists>r. out = Some (Inr r) \<and> P r)"

definition counters_ok :: "('a, 't) result \<Rightarrow> bool" where
  "counters_ok r \<longleftrightarrow> r_nodes_expanded r \<le> r_nodes_generated r \<and> 1 \<le> r_max_frontier_size r"

text \<open>
  A non-empty path runs from start to goal along edges of the graph, and the distance is the
  sum of the weights of these edges.
\<close>

definition valid_path_result :: "'a graph \<Rightarrow> 'a \<Rightarrow> 'a \<Rightarrow> ('a, 't) result \<Rightarrow> bool" where
  "valid_path_result g start goal r \<longleftrightarrow>
     (r_path r \<noteq> [] \<longrightarrow>
        path_ok g (r_path r) \<and> r_distance r = path_weight g (r_path r) \<and>
        hd (r_path r) = start \<and> last (r_path r) = goal)"

text \<open>
  The result of an exhausted search: no path, distance 0, and at most \<open>k\<close> expansions per
  state reachable from the start.
\<close>

definition exhausted :: "'a graph \<Rightarrow> 'a \<Rightarrow> nat \<Rightarrow> ('a, 't) result \<Rightarrow> bool" where
  "exhausted g start k r \<longleftrightarrow>
     r_path r = [] \<and> r_distance r = 0 \<and> r_nodes_expanded r \<le> k * card (reachable g start)"

text \<open>Two states without edges: the smallest graph with an unreachable goal.\<close>

definition two_islands :: "string graph" where
  "two_islands = [(''A'', []), (''C'', [])]"

section \<open>The step trace\<close>

text \<open>
  What each discipline pops from a frontier: the first element of the deque, the last
  element of the stack, the entry that \<open>heappop\<close> returns.
\<close>

definition popleft :: "'e list \<Rightarrow> 'e option" where
  "popleft xs = (case xs of [] \<Rightarrow> None | x # rest \<Rightarrow> Some x)"

definition pop_last :: "'e list \<Rightarrow> 'e option" where
  "pop_last xs = (if xs = [] then None else Some (last xs))"

definition heap_top :: "('e \<Rightarrow> 'e \<Rightarrow> bool) \<Rightarrow> 'e list \<Rightarrow> 'e option" where
  "heap_top lt xs = map_option fst (heappop lt xs)"

text \<open>
  The snapshot of an iteration that starts in state \<open>st\<close> and pops the entry \<open>e\<close>: frontier
  and explored as they are before the pop, and the popped state as \<open>current\<close>.
\<close>

definition snapshot_of ::
  "('e \<Rightarrow> 'a node) \<Rightarrow> 'e \<Rightarrow> ('a, 'e, 's, 'z) search_scheme \<Rightarrow> 'a step" where
  "snapshot_of nd e st =
     \<lparr>s_frontier = map (\<lambda>x. state (nd x)) (frontier st), s_explored = explored st,
      s_current = Some (state (nd e)), s_depth_limit = None\<rparr>"

text \<open>
  The returned steps are the snapshots of the successive loop states, one per expansion.
\<close>

definition trace_ok ::
  "(('a, 'e, 's, 'z) search_scheme \<Rightarrow> ('a, 'e, 's, 'z) search_scheme + 'x) \<Rightarrow>
     ('a, 'e, 's, 'z) search_scheme \<Rightarrow> ('e \<Rightarrow> 'a node) \<Rightarrow> ('e list \<Rightarrow> 'e option) \<Rightarrow>
     ('a, 'a step) result \<Rightarrow> bool" where
  "trace_ok body s0 nd pop r \<longleftrightarrow>
     length (r_steps r) = r_nodes_expanded r \<and>
     (\<forall>i < length (r_steps r).
        \<exists>st e. loop_state body s0 i = Some st \<and> pop (frontier st) = Some e \<and>
               r_steps r ! i = snapshot_of nd e st)"

section \<open>The heap order\<close>

text \<open>
  The comparison \<open>lt\<close> of the entries agrees with the numeric key \<open>key\<close> of an entry, the
  first component of the tuple: a smaller entry has no larger key.
\<close>

definition key_order :: "('e \<Rightarrow> 'e \<Rightarrow> bool) \<Rightarrow> ('e \<Rightarrow> int) \<Rightarrow> bool" where
  "key_order lt key \<longleftrightarrow> (\<forall>x y. (lt x y \<longrightarrow> key x \<le> key y) \<and> (\<not> lt x y \<longrightarrow> key y \<le> key x))"

text \<open>
  The heap invariant of \<open>heapq\<close> on the positions from \<open>s\<close> on: no entry has a smaller key
  than its parent, for every parent at position \<open>s\<close> or later.
\<close>

definition heap_from :: "('e \<Rightarrow> int) \<Rightarrow> nat \<Rightarrow> 'e list \<Rightarrow> bool" where
  "heap_from key s h \<longleftrightarrow>
     (\<forall>c. 0 < c \<and> c < length h \<and> s \<le> (c - 1) div 2 \<longrightarrow>
        key (h ! ((c - 1) div 2)) \<le> key (h ! c))"

text \<open>Position \<open>pos\<close> lies in the subtree of position \<open>s\<close>.\<close>

definition below :: "nat \<Rightarrow> nat \<Rightarrow> bool" where
  "below s pos \<longleftrightarrow> (\<exists>k. ((\<lambda>c. (c - 1) div 2) ^^ k) pos = s)"

section \<open>Optimal distances\<close>

text \<open>The estimate that \<open>get_heuristic\<close> gives for a state, as a function of the state.\<close>

definition h_value :: "string \<Rightarrow> (string \<times> int) list \<Rightarrow> string \<Rightarrow> int" where
  "h_value goal tbl s = (case get_heuristic s goal tbl of Inl e \<Rightarrow> 0 | Inr h \<Rightarrow> h)"

text \<open>An admissible estimate never exceeds the true remaining distance to the goal.\<close>

definition admissible :: "'a graph \<Rightarrow> 'a \<Rightarrow> ('a \<Rightarrow> int) \<Rightarrow> bool" where
  "admissible g goal hf \<longleftrightarrow> (\<forall>s d. shortest_distance g s goal d \<longrightarrow> hf s \<le> d)"

text \<open>A consistent estimate drops along an edge by at most the weight of the edge.\<close>

definition consistent :: "'a graph \<Rightarrow> ('a \<Rightarrow> int) \<Rightarrow> bool" where
  "consistent g hf \<longleftrightarrow> (\<forall>u v w. edge_weight g u v = Some w \<longrightarrow> hf u \<le> w + hf v)"

text \<open>
  The frontier is a heap on the first component of its entries, which is the path cost of the
  entry's node plus the estimate of its state.
\<close>

definition keys_ok :: "('a \<Rightarrow> int) \<Rightarrow> ('e \<Rightarrow> 'a node) \<Rightarrow> ('e \<Rightarrow> int) \<Rightarrow> 'e list \<Rightarrow> bool" where
  "keys_ok hf nd key fr \<longleftrightarrow>
     heap_from key 0 fr \<and> (\<forall>e \<in> set fr. key e = path_cost (nd e) + hf (state (nd e)))"

text \<open>State \<open>z\<close> is explored, or has a frontier entry of path cost at most \<open>b\<close>.\<close>

definition covered :: "('e \<Rightarrow> 'a node) \<Rightarrow> 'e list \<Rightarrow> 'a set \<Rightarrow> 'a \<Rightarrow> int \<Rightarrow> bool" where
  "covered nd fr ex z b \<longleftrightarrow> z \<in> ex \<or> (\<exists>e \<in> set fr. state (nd e) = z \<and> path_cost (nd e) \<le> b)"

text \<open>
  Every explored state has a true distance from the start, and each of its neighbours is
  covered at that distance plus the weight of the edge; the start is covered at 0.
\<close>

definition settled :: "'a graph \<Rightarrow> 'a \<Rightarrow> ('e \<Rightarrow> 'a node) \<Rightarrow> 'e list \<Rightarrow> 'a set \<Rightarrow> bool" where
  "settled g start nd fr ex \<longleftrightarrow>
     covered nd fr ex start 0 \<and>
     (\<forall>x \<in> ex. \<exists>d. shortest_distance g start x d \<and>
        (\<forall>z w. edge_weight g x z = Some w \<longrightarrow> covered nd fr ex z (d + w)))"

text \<open>Every entry of \<open>fr\<close> has in \<open>fr'\<close> an entry of the same state and no larger path cost.\<close>

definition improves :: "('e \<Rightarrow> 'a node) \<Rightarrow> 'e list \<Rightarrow> 'e list \<Rightarrow> bool" where
  "improves nd fr fr' \<longleftrightarrow>
     (\<forall>e \<in> set fr. \<exists>e' \<in> set fr'. state (nd e') = state (nd e) \<and>
        path_cost (nd e') \<le> path_cost (nd e))"

text \<open>The returned distance is the true shortest-path distance from start to goal.\<close>

definition optimal_result :: "'a graph \<Rightarrow> 'a \<Rightarrow> 'a \<Rightarrow> ('a, 't) result \<Rightarrow> bool" where
  "optimal_result g start goal r \<longleftrightarrow> shortest_distance g start goal (r_distance r)"

text \<open>The invariant of uniform-cost search, and that of A* for the estimate \<open>hf\<close>.\<close>

definition ucs_opt ::
  "'a graph \<Rightarrow> 'a \<Rightarrow> 'a \<Rightarrow> ('a, int \<times> 'a node, 'a set) search \<Rightarrow> bool" where
  "ucs_opt g start goal st \<longleftrightarrow>
     keyed_inv g start snd st \<and> keys_ok (\<lambda>s. 0) snd fst (frontier st) \<and>
     settled g start snd (frontier st) (explored st) \<and> goal \<notin> explored st"

definition astar_opt ::
  "string graph \<Rightarrow> string \<Rightarrow> string \<Rightarrow> (string \<Rightarrow> int) \<Rightarrow>
     (string, int \<times> int \<times> string node, string \<rightharpoonup> int) astar_search \<Rightarrow> bool" where
  "astar_opt g start goal hf st \<longleftrightarrow>
     astar_inv g start st \<and> keys_ok hf (\<lambda>e. snd (snd e)) fst (frontier st) \<and>
     (\<forall>e \<in> set (frontier st).
        frontier_states st (state (snd (snd e))) = Some (path_cost (snd (snd e)))) \<and>
     settled g start (\<lambda>e. snd (snd e)) (frontier st) (explored st) \<and> goal \<notin> explored st"

text \<open>The exact remaining distances of the detour graph to Bucharest: a consistent table.\<close>

definition exact_table :: "(string \<times> int) list" where
  "exact_table = [(''S'', 12), (''A'', 11), (''X'', 10), (''Bucharest'', 0)]"

section \<open>Evaluation\<close>

lemmas eval_defs =
  run_loop.simps snapshot_def set_current_def found_def no_path_def
  expand_def dict_get_def root_node_def path_def trivial_result_def
  breadth_first_search_def bfs_body_def bfs_init_def bfs_child_def
  uniform_cost_search_def ucs_body_def ucs_init_def ucs_child_def ucs_update_def ucs_lt_def
  node_lt_def heappush_def heappop_def heapify_def siftup_def siftdown_def set_remove_def
  siftdown_loop.simps siftup_loop.simps
  a_star_search_def astar_body_def astar_init_def astar_child_def astar_lt_def
  get_heuristic_def dict_del_def map_get_def

section \<open>Dicts\<close>

lemma dict_get_key: "k \<in> set (map fst d) \<Longrightarrow> \<exists>v. dict_get d k = Inr v \<and> map_of d k = Some v"
  by (cases "map_of d k") (auto simp: dict_get_def map_of_eq_None_iff)

section \<open>Rules for loops\<close>

lemma run_loop_total:
  assumes "I s"
    and step: "\<And>s. I s \<Longrightarrow> (case body s of Inl s' \<Rightarrow> I s' \<and> m s' < (m s :: nat) | Inr r \<Rightarrow> Q r)"
  shows "\<exists>r. run_loop body s = Some r \<and> Q r"
  using assms(1)
proof (induction "m s" arbitrary: s rule: less_induct)
  case less
  show ?case
  proof (cases "body s")
    case (Inl s')
    with step [OF less.prems] have "I s'" "m s' < m s" by auto
    from less.hyps [OF this(2) this(1)] obtain r where "run_loop body s' = Some r" "Q r" by blast
    with Inl show ?thesis by (subst run_loop.simps) simp
  next
    case (Inr r)
    with step [OF less.prems] have "Q r" by auto
    with Inr show ?thesis by (subst run_loop.simps) simp
  qed
qed

lemma run_loop_partial_aux:
  assumes "run_loop body s = Some r"
  shows "(\<forall>s. I s \<longrightarrow> (case body s of Inl s' \<Rightarrow> I s' | Inr r \<Rightarrow> Q r)) \<longrightarrow> I s \<longrightarrow> Q r"
proof (rule run_loop.raw_induct
    [where P = "\<lambda>b s r. (\<forall>s. I s \<longrightarrow> (case b s of Inl s' \<Rightarrow> I s' | Inr r \<Rightarrow> Q r)) \<longrightarrow> I s \<longrightarrow> Q r",
      OF _ assms])
  fix f b s r
  assume IH: "\<And>b s r. f b s = Some r \<Longrightarrow>
      (\<forall>s. I s \<longrightarrow> (case b s of Inl s' \<Rightarrow> I s' | Inr r \<Rightarrow> Q r)) \<longrightarrow> I s \<longrightarrow> Q r"
    and eq: "(case b s of Inl s' \<Rightarrow> f b s' | Inr r \<Rightarrow> Some r) = Some r"
  show "(\<forall>s. I s \<longrightarrow> (case b s of Inl s' \<Rightarrow> I s' | Inr r \<Rightarrow> Q r)) \<longrightarrow> I s \<longrightarrow> Q r"
  proof (intro impI)
    assume st: "\<forall>s. I s \<longrightarrow> (case b s of Inl s' \<Rightarrow> I s' | Inr r \<Rightarrow> Q r)" and i: "I s"
    show "Q r"
    proof (cases "b s")
      case (Inl s')
      with st i have "I s'" by (auto split: sum.splits)
      moreover from Inl eq have "f b s' = Some r" by simp
      ultimately show ?thesis using IH st by blast
    next
      case (Inr r')
      with eq have "r' = r" by simp
      with st i Inr show ?thesis by (auto split: sum.splits)
    qed
  qed
qed

lemma run_loop_partial:
  assumes "run_loop body s = Some r" and "I s"
    and step: "\<And>s. I s \<Longrightarrow> (case body s of Inl s' \<Rightarrow> I s' | Inr r \<Rightarrow> Q r)"
  shows "Q r"
  using run_loop_partial_aux [OF assms(1), of I Q] assms(2) step by blast

lemma run_loop_reaches:
  assumes "run_loop body s0 = Some r"
  shows "\<exists>k st. loop_state body s0 k = Some st \<and> body st = Inr r"
proof (rule run_loop_partial [OF assms, where I = "\<lambda>s. \<exists>k. loop_state body s0 k = Some s"])
  show "\<exists>k. loop_state body s0 k = Some s0" by (rule exI [of _ 0]) simp
next
  fix s assume "\<exists>k. loop_state body s0 k = Some s"
  then obtain k where k: "loop_state body s0 k = Some s" ..
  show "case body s of Inl s' \<Rightarrow> \<exists>k. loop_state body s0 k = Some s'
        | Inr r \<Rightarrow> \<exists>k st. loop_state body s0 k = Some st \<and> body st = Inr r"
  proof (cases "body s")
    case (Inl s')
    with k have "loop_state body s0 (Suc k) = Some s'" by simp
    then have "\<exists>k. loop_state body s0 k = Some s'" by (rule exI)
    with Inl show ?thesis by simp
  next
    case (Inr r)
    with k show ?thesis by auto
  qed
qed

text \<open>A trace that grows by one snapshot of the loop state per iteration.\<close>

lemma loop_trace:
  assumes grow: "\<And>st st'. body st = Inl st' \<Longrightarrow> stp st' = stp st @ [snap st] \<and> cnt st' = Suc (cnt st)"
    and init: "stp s0 = []" "cnt s0 = (0::nat)"
  shows "loop_state body s0 k = Some st \<Longrightarrow>
    cnt st = k \<and> length (stp st) = k \<and>
    (\<forall>i<k. \<exists>sti. loop_state body s0 i = Some sti \<and> stp st ! i = snap sti)"
proof (induction k arbitrary: st)
  case 0
  with init show ?case by simp
next
  case (Suc k)
  from Suc.prems obtain sk where sk: "loop_state body s0 k = Some sk" and b: "body sk = Inl st"
    by (auto split: option.splits sum.splits)
  from Suc.IH [OF sk] have ih: "cnt sk = k" "length (stp sk) = k"
    "\<forall>i<k. \<exists>sti. loop_state body s0 i = Some sti \<and> stp sk ! i = snap sti" by auto
  from grow [OF b] have g: "stp st = stp sk @ [snap sk]" "cnt st = Suc (cnt sk)" by auto
  show ?case
  proof (intro conjI allI impI)
    show "cnt st = Suc k" using g ih by simp
    show "length (stp st) = Suc k" using g ih by simp
    fix i assume "i < Suc k"
    show "\<exists>sti. loop_state body s0 i = Some sti \<and> stp st ! i = snap sti"
    proof (cases "i < k")
      case True
      with ih(3) obtain sti where "loop_state body s0 i = Some sti" "stp sk ! i = snap sti" by blast
      with True ih(2) g show ?thesis by (auto simp: nth_append)
    next
      case False
      with \<open>i < Suc k\<close> have "i = k" by simp
      with sk g ih(2) show ?thesis by (auto simp: nth_append)
    qed
  qed
qed

section \<open>heapq keeps the entries\<close>

lemma mset_move_hole:
  assumes "i < length h" "j < length h" "i \<noteq> j"
  shows "mset (h[i := h ! j, j := x]) = mset (h[i := x])"
  using assms by (simp add: mset_update nth_list_update)

lemma siftdown_loop_mset:
  "pos < length heap \<Longrightarrow> siftdown_loop lt x sp heap pos = (h', p') \<Longrightarrow>
     length h' = length heap \<and> p' \<le> pos \<and> mset (h'[p' := x]) = mset (heap[pos := x])"
proof (induction lt x sp heap pos arbitrary: h' p' rule: siftdown_loop.induct)
  case (1 lt x sp heap pos)
  let ?pp = "(pos - 1) div 2"
  show ?case
  proof (cases "sp < pos \<and> lt x (heap ! ?pp)")
    case True
    from True have pp: "?pp < pos" by auto
    have "siftdown_loop lt x sp heap pos = siftdown_loop lt x sp (heap[pos := heap ! ?pp]) ?pp"
      using True by (subst siftdown_loop.simps) (simp add: Let_def)
    with "1.prems" have r: "siftdown_loop lt x sp (heap[pos := heap ! ?pp]) ?pp = (h', p')"
      by simp
    have "length h' = length (heap[pos := heap ! ?pp]) \<and> p' \<le> ?pp \<and>
          mset (h'[p' := x]) = mset (heap[pos := heap ! ?pp, ?pp := x])"
      using "1.IH" [OF _ refl refl _ _ r] True pp "1.prems"(1) by simp
    moreover have "mset (heap[pos := heap ! ?pp, ?pp := x]) = mset (heap[pos := x])"
      using mset_move_hole [of pos heap ?pp x] pp "1.prems"(1) by simp
    ultimately show ?thesis using pp by simp
  next
    case False
    have "siftdown_loop lt x sp heap pos = (heap, pos)"
      using False by (subst siftdown_loop.simps) (auto simp: Let_def)
    with "1.prems" show ?thesis by simp
  qed
qed

lemma siftdown_mset:
  "pos < length heap \<Longrightarrow> mset (siftdown lt heap sp pos) = mset heap \<and>
     length (siftdown lt heap sp pos) = length heap"
proof -
  assume a: "pos < length heap"
  obtain h' p' where r: "siftdown_loop lt (heap ! pos) sp heap pos = (h', p')" by force
  from siftdown_loop_mset [OF a r] show ?thesis
    by (simp add: siftdown_def r)
qed

lemma siftup_loop_mset:
  "pos < length heap \<Longrightarrow> endpos \<le> length heap \<Longrightarrow> siftup_loop lt endpos heap pos = (h', p') \<Longrightarrow>
     length h' = length heap \<and> pos \<le> p' \<and> p' < length heap \<and>
     mset (h'[p' := x]) = mset (heap[pos := x])"
proof (induction lt endpos heap pos arbitrary: h' p' rule: siftup_loop.induct)
  case (1 lt endpos heap pos)
  show ?case
  proof (cases "2 * pos + 1 < endpos")
    case True
    define c where "c = (if 2 * pos + 1 + 1 < endpos \<and> \<not> lt (heap ! (2 * pos + 1)) (heap ! (2 * pos + 1 + 1))
                           then 2 * pos + 1 + 1 else 2 * pos + 1)"
    have c: "pos < c" "c < endpos" using True by (auto simp: c_def)
    have "siftup_loop lt endpos heap pos = siftup_loop lt endpos (heap[pos := heap ! c]) c"
      using True unfolding c_def by (subst siftup_loop.simps) (simp add: Let_def)
    with "1.prems" have r: "siftup_loop lt endpos (heap[pos := heap ! c]) c = (h', p')"
      by simp
    have "length h' = length (heap[pos := heap ! c]) \<and> c \<le> p' \<and> p' < length (heap[pos := heap ! c]) \<and>
          mset (h'[p' := x]) = mset (heap[pos := heap ! c, c := x])"
    proof (rule "1.IH" [OF refl True refl])
      show "c = (if 2 * pos + 1 + 1 < endpos \<and> \<not> lt (heap ! (2 * pos + 1)) (heap ! (2 * pos + 1 + 1))
                 then 2 * pos + 1 + 1 else 2 * pos + 1)" by (rule c_def)
      show "c < length (heap[pos := heap ! c])" using c "1.prems"(2) by simp
      show "endpos \<le> length (heap[pos := heap ! c])" using "1.prems"(2) by simp
      show "siftup_loop lt endpos (heap[pos := heap ! c]) c = (h', p')" by (rule r)
    qed
    moreover have "mset (heap[pos := heap ! c, c := x]) = mset (heap[pos := x])"
      using mset_move_hole [of pos heap c x] c "1.prems" by simp
    ultimately show ?thesis using c by simp
  next
    case False
    have "siftup_loop lt endpos heap pos = (heap, pos)"
      using False by (subst siftup_loop.simps) (simp add: Let_def)
    with "1.prems" show ?thesis by simp
  qed
qed

lemma siftup_mset:
  assumes "pos < length heap"
  shows "mset (siftup lt heap pos) = mset heap \<and> length (siftup lt heap pos) = length heap"
proof -
  obtain h' p' where r: "siftup_loop lt (length heap) heap pos = (h', p')" by force
  from siftup_loop_mset [OF assms _ r, of "heap ! pos"]
  have f: "length h' = length heap" "p' < length heap" "mset (h'[p' := heap ! pos]) = mset heap"
    by simp_all
  then have "p' < length (h'[p' := heap ! pos])" by simp
  from siftdown_mset [OF this, of lt pos] f show ?thesis
    by (simp add: siftup_def r)
qed

lemma heappush_mset:
  "mset (heappush lt heap item) = add_mset item (mset heap) \<and>
   length (heappush lt heap item) = Suc (length heap)"
  using siftdown_mset [of "length heap" "heap @ [item]" lt 0] by (simp add: heappush_def)

lemma heappop_Some:
  assumes "heap \<noteq> []"
  shows "\<exists>rest. heappop lt heap = Some (hd heap, rest) \<and> mset heap = add_mset (hd heap) (mset rest) \<and>
     Suc (length rest) = length heap"
proof -
  from assms obtain b l where bl: "heap = b @ [l]" by (metis append_butlast_last_id)
  show ?thesis
  proof (cases "b = []")
    case True
    with bl show ?thesis by (simp add: heappop_def)
  next
    case False
    then obtain x b' where b: "b = x # b'" by (cases b) auto
    have pos: "0 < length (b[0 := l])" using False by simp
    have m: "mset (b[0 := l]) = add_mset l (mset b')" using b by simp
    from siftup_mset [OF pos, of lt] m
    have "mset (siftup lt (b[0 := l]) 0) = add_mset l (mset b')"
      "length (siftup lt (b[0 := l]) 0) = length b" by simp_all
    with bl b show ?thesis by (simp add: heappop_def)
  qed
qed

lemma heappop_None: "heappop lt heap = None \<longleftrightarrow> heap = []"
  by (simp add: heappop_def Let_def)

lemma fold_siftup_mset:
  "\<forall>i\<in>set is. i < length h \<Longrightarrow>
     mset (fold (\<lambda>i h. siftup lt h i) is h) = mset h \<and>
     length (fold (\<lambda>i h. siftup lt h i) is h) = length h"
proof (induction "is" arbitrary: h)
  case Nil
  then show ?case by simp
next
  case (Cons i "is")
  from Cons.prems have i: "i < length h" by simp
  from siftup_mset [OF i, of lt] Cons.prems
  have "\<forall>j\<in>set is. j < length (siftup lt h i)" by simp
  from Cons.IH [OF this] siftup_mset [OF i, of lt] show ?case by simp
qed

lemma heapify_mset: "mset (heapify lt x) = mset x \<and> length (heapify lt x) = length x"
  unfolding heapify_def by (rule fold_siftup_mset) auto

lemma set_current_snoc [simp]:
  "set_current (ss @ [x]) s = ss @ [x\<lparr>s_current := Some s\<rparr>]"
  by (simp add: set_current_def)

lemma after_pop_simps [simp]:
  "frontier (after_pop nd n rest fs st) = rest"
  "frontier_states (after_pop nd n rest fs st) = fs"
  "explored (after_pop nd n rest fs st) = explored st"
  "nodes_expanded (after_pop nd n rest fs st) = Suc (nodes_expanded st)"
  "nodes_generated (after_pop nd n rest fs st) = nodes_generated st"
  "max_frontier_size (after_pop nd n rest fs st) = max (max_frontier_size st) (length (frontier st))"
  "steps (after_pop nd n rest fs st) = steps st @
          [\<lparr>s_frontier = map (\<lambda>e. state (nd e)) (frontier st), s_explored = explored st,
            s_current = Some (state n), s_depth_limit = None\<rparr>]"
  by (simp_all add: after_pop_def)

lemma bfs_body_eq:
  "bfs_body g goal st =
     (case frontier st of
        [] \<Rightarrow> Inr (Inr (no_path ''bfs'' st))
      | n # rest \<Rightarrow>
          if state n = goal then Inr (Inr (found ''bfs'' n (after_pop id n rest () st)))
          else (case expand n g of
                  Inl e \<Rightarrow> Inr (Inl e)
                | Inr children \<Rightarrow>
                    Inl (fold bfs_child children
                          ((after_pop id n rest () st)\<lparr>explored := insert (state n) (explored st)\<rparr>))))"
  by (cases st) (simp add: bfs_body_def snapshot_def after_pop_def Let_def split: list.splits sum.splits)

lemma dfs_body_eq:
  "dfs_body g goal st =
     (if frontier st = [] then Inr (Inr (no_path ''dfs'' st))
      else
        (let n = last (frontier st); rest = butlast (frontier st)
         in case set_remove (frontier_states st) (state n) of
              Inl e \<Rightarrow> Inr (Inl e)
            | Inr fs \<Rightarrow>
                if state n = goal then Inr (Inr (found ''dfs'' n (after_pop id n rest fs st)))
                else (case expand n g of
                        Inl e \<Rightarrow> Inr (Inl e)
                      | Inr children \<Rightarrow>
                          Inl (fold dfs_child (rev children)
                                ((after_pop id n rest fs st)
                                   \<lparr>explored := insert (state n) (explored st)\<rparr>)))))"
  by (cases st) (simp add: dfs_body_def snapshot_def after_pop_def Let_def split: sum.splits)

lemma dls_body_eq:
  "dls_body g goal depth_limit st =
     (if frontier st = [] then Inr (Inr (no_path ''dls'' st))
      else
        (let n = last (frontier st); rest = butlast (frontier st)
         in case set_remove (frontier_states st) (state n) of
              Inl e \<Rightarrow> Inr (Inl e)
            | Inr fs \<Rightarrow>
                if state n = goal then Inr (Inr (found ''dls'' n (after_pop id n rest fs st)))
                else if int (depth n) < depth_limit
                then (case expand n g of
                        Inl e \<Rightarrow> Inr (Inl e)
                      | Inr children \<Rightarrow>
                          Inl (fold dfs_child (rev children)
                                ((after_pop id n rest fs st)
                                   \<lparr>explored := insert (state n) (explored st)\<rparr>)))
                else Inl ((after_pop id n rest fs st)
                            \<lparr>explored := insert (state n) (explored st)\<rparr>)))"
  by (cases st) (simp add: dls_body_def snapshot_def after_pop_def Let_def split: sum.splits)

lemma ucs_body_eq:
  "ucs_body g goal st =
     (if frontier st = [] then Inr (Inr (no_path ''ucs'' st))
      else
        (case heappop ucs_lt (frontier st) of
           None \<Rightarrow> Inr (Inl IndexError)
         | Some ((c, n), rest) \<Rightarrow>
            (case set_remove (frontier_states st) (state n) of
              Inl e \<Rightarrow> Inr (Inl e)
            | Inr fs \<Rightarrow>
                if state n = goal then Inr (Inr (found ''ucs'' n (after_pop snd n rest fs st)))
                else (case expand n g of
                        Inl e \<Rightarrow> Inr (Inl e)
                      | Inr children \<Rightarrow>
                          Inl (fold ucs_child children
                                ((after_pop snd n rest fs st)
                                   \<lparr>explored := insert (state n) (explored st)\<rparr>))))))"
  by (cases st) (simp add: ucs_body_def snapshot_def after_pop_def Let_def split: sum.splits option.splits)

lemma greedy_body_eq:
  "greedy_body g goal tbl st =
     (if frontier st = [] then Inr (Inr (no_path ''greedy'' st))
      else
        (case heappop ucs_lt (frontier st) of
           None \<Rightarrow> Inr (Inl IndexError)
         | Some ((h, n), rest) \<Rightarrow>
            (case set_remove (frontier_states st) (state n) of
              Inl e \<Rightarrow> Inr (Inl e)
            | Inr fs \<Rightarrow>
                if state n = goal then Inr (Inr (found ''greedy'' n (after_pop snd n rest fs st)))
                else (case expand n g of
                        Inl e \<Rightarrow> Inr (Inl e)
                      | Inr children \<Rightarrow>
                          (case fold_err (greedy_child goal tbl) children
                                ((after_pop snd n rest fs st)
                                   \<lparr>explored := insert (state n) (explored st)\<rparr>) of
                             Inl e \<Rightarrow> Inr (Inl e)
                           | Inr st6 \<Rightarrow> Inl st6)))))"
  by (cases st) (simp add: greedy_body_def snapshot_def after_pop_def Let_def split: sum.splits option.splits)

lemma astar_body_eq:
  "astar_body ident g goal tbl st =
     (if frontier st = [] then Inr (Inr (no_path ''astar'' st))
      else
        (case heappop astar_lt (frontier st) of
           None \<Rightarrow> Inr (Inl IndexError)
         | Some ((f, i, n), rest) \<Rightarrow>
            (case dict_del (frontier_states st) (state n) of
              Inl e \<Rightarrow> Inr (Inl e)
            | Inr fs \<Rightarrow>
                if state n = goal
                then Inr (Inr (found ''astar'' n (after_pop (\<lambda>e. snd (snd e)) n rest fs st)))
                else (case expand n g of
                        Inl e \<Rightarrow> Inr (Inl e)
                      | Inr children \<Rightarrow>
                          (case fold_err (astar_child ident goal tbl) children
                                ((after_pop (\<lambda>e. snd (snd e)) n rest fs st)
                                   \<lparr>explored := insert (state n) (explored st)\<rparr>) of
                             Inl e \<Rightarrow> Inr (Inl e)
                           | Inr st6 \<Rightarrow> Inl st6)))))"
  by (cases st) (simp add: astar_body_def snapshot_def after_pop_def Let_def split: sum.splits option.splits)

section \<open>Reachable states\<close>

lemma edge_weight_item:
  "map_of g u = Some nb \<Longrightarrow> (v, w) \<in> set nb \<Longrightarrow> edge_weight g u v \<noteq> None"
  by (auto simp: edge_weight_def map_of_eq_None_iff intro: rev_image_eqI)

lemma edges_subset: "edges g \<subseteq> (\<Union>(k, nb) \<in> set g. {k} \<times> fst ` set nb)"
proof
  fix x assume "x \<in> edges g"
  then obtain u v where x: "x = (u, v)" and e: "edge_weight g u v \<noteq> None"
    by (auto simp: edges_def)
  from e obtain nb where nb: "map_of g u = Some nb" and v: "map_of nb v \<noteq> None"
    by (auto simp: edge_weight_def split: option.splits)
  from nb have "(u, nb) \<in> set g" by (rule map_of_SomeD)
  moreover from v have "v \<in> fst ` set nb" by (simp add: map_of_eq_None_iff)
  ultimately show "x \<in> (\<Union>(k, nb) \<in> set g. {k} \<times> fst ` set nb)" using x by auto
qed

lemma finite_edges: "finite (edges g)"
  by (rule finite_subset [OF edges_subset]) auto

lemma finite_reachable: "finite (reachable g s)"
proof -
  have "reachable g s \<subseteq> insert s (Range (edges g))"
    by (auto simp: reachable_def elim: rtranclE)
  moreover have "finite (Range (edges g))" using finite_edges by (rule finite_Range)
  ultimately show ?thesis by (auto intro: finite_subset)
qed

lemma reachable_start: "s \<in> reachable g s"
  by (simp add: reachable_def)

lemma reachable_step:
  "u \<in> reachable g s \<Longrightarrow> map_of g u = Some nb \<Longrightarrow> (v, w) \<in> set nb \<Longrightarrow> v \<in> reachable g s"
  using edge_weight_item [of g u nb v w]
  by (auto simp: reachable_def edges_def intro: rtrancl_into_rtrancl)

lemma node_ok_reachable: "node_ok g start n \<Longrightarrow> state n \<in> reachable g start"
proof (induction n)
  case (Node s p a c d)
  show ?case
  proof (cases p)
    case None
    with Node.prems show ?thesis by (simp add: reachable_start)
  next
    case (Some q)
    with Node.prems obtain nb w where q: "node_ok g start q"
      and nb: "map_of g (state q) = Some nb" "(s, w) \<in> set nb" by auto
    from Node.IH [of q] Some q have "state q \<in> reachable g start" by simp
    from reachable_step [OF this nb] show ?thesis by simp
  qed
qed

lemma node_ok_root: "node_ok g start (root_node start)"
  by (simp add: root_node_def)

lemma expand_Inl: "expand n g = Inl e \<Longrightarrow> e = KeyError (state n) \<and> state n \<notin> set (map fst g)"
  by (auto simp: expand_def dict_get_def map_of_eq_None_iff split: option.splits)

lemma expand_child:
  assumes "expand n g = Inr children" "c \<in> set children"
  shows "\<exists>nb w. map_of g (state n) = Some nb \<and> (state c, w) \<in> set nb \<and>
           c = Node (state c) (Some n) (Some (state n, state c)) (path_cost n + w) (depth n + 1)"
  using assms by (auto simp: expand_def dict_get_def split: option.splits)

lemma expand_child_ok:
  assumes "expand n g = Inr children" "c \<in> set children" "node_ok g start n"
  shows "node_ok g start c"
proof -
  from expand_child [OF assms(1,2)] obtain nb w where
    nb: "map_of g (state n) = Some nb" "(state c, w) \<in> set nb"
    and c: "c = Node (state c) (Some n) (Some (state n, state c)) (path_cost n + w) (depth n + 1)"
    by blast
  have "node_ok g start (Node (state c) (Some n) (Some (state n, state c)) (path_cost n + w) (depth n + 1))"
    using nb assms(3) by auto
  with c show ?thesis by simp
qed

section \<open>The frontier invariant\<close>

lemma mset_split_facts:
  assumes "mset xs = add_mset e (mset rest)"
  shows "set xs = insert e (set rest)" "length xs = Suc (length rest)"
    "distinct (map f xs) \<Longrightarrow> distinct (map f rest) \<and> f e \<notin> f ` set rest"
proof -
  from assms have m: "mset xs = mset (e # rest)" by simp
  from m show "set xs = insert e (set rest)" by (metis list.simps(15) mset_eq_setD)
  from m show "length xs = Suc (length rest)" by (metis length_Cons mset_eq_length)
  assume d: "distinct (map f xs)"
  from m have "mset (map f xs) = mset (map f (e # rest))" by simp
  with d have "distinct (map f (e # rest))" by (metis mset_eq_imp_distinct_iff)
  then show "distinct (map f rest) \<and> f e \<notin> f ` set rest" by simp
qed

lemma frontier_inv_pop:
  fixes n fs
  assumes inv: "frontier_inv g start nd st"
    and m: "mset (frontier st) = add_mset e (mset rest)"
  defines "st' \<equiv> (after_pop nd n rest fs st)\<lparr>explored := insert (state (nd e)) (explored st)\<rparr>"
  shows "frontier_inv g start nd st'"
    and "node_ok g start (nd e)"
    and "state (nd e) \<notin> explored st"
    and "state (nd e) \<notin> (\<lambda>e. state (nd e)) ` set rest"
    and "card (reachable g start - explored st') < card (reachable g start - explored st)"
    and "Suc (nodes_expanded st) \<le> card (reachable g start)"
    and "Suc (nodes_expanded st) \<le> nodes_generated st"
proof -
  note f = mset_split_facts [OF m]
  from inv f(1) show ok: "node_ok g start (nd e)" by (simp add: frontier_inv_def)
  from inv f(1) show ne: "state (nd e) \<notin> explored st" by (simp add: frontier_inv_def)
  from inv have d: "distinct (map (\<lambda>e. state (nd e)) (frontier st))" by (simp add: frontier_inv_def)
  from f(3) [of "\<lambda>e. state (nd e)", OF d]
  have nr: "state (nd e) \<notin> (\<lambda>e. state (nd e)) ` set rest"
    and dr: "distinct (map (\<lambda>e. state (nd e)) rest)" by simp_all
  from nr show "state (nd e) \<notin> (\<lambda>e. state (nd e)) ` set rest" .
  from inv have sub: "explored st \<subseteq> reachable g start" by (simp add: frontier_inv_def)
  have fin: "finite (explored st)" using sub finite_reachable by (rule finite_subset)
  have r: "state (nd e) \<in> reachable g start" using ok by (rule node_ok_reachable)
  have cd: "card (insert (state (nd e)) (explored st)) = Suc (card (explored st))"
    using fin ne by simp
  have "insert (state (nd e)) (explored st) \<subseteq> reachable g start" using sub r by simp
  then have "card (insert (state (nd e)) (explored st)) \<le> card (reachable g start)"
    using finite_reachable by (rule card_mono [rotated])
  with cd inv show "Suc (nodes_expanded st) \<le> card (reachable g start)"
    by (simp add: frontier_inv_def)
  from inv f(2) show "Suc (nodes_expanded st) \<le> nodes_generated st"
    by (simp add: frontier_inv_def)
  have "reachable g start - insert (state (nd e)) (explored st) \<subset> reachable g start - explored st"
    using r ne by auto
  then show "card (reachable g start - explored st') < card (reachable g start - explored st)"
    unfolding st'_def using finite_reachable [of g start]
    by (simp add: psubset_card_mono)
  have nr': "\<forall>x\<in>set rest. state (nd x) \<noteq> state (nd e)"
  proof (intro ballI notI)
    fix x assume "x \<in> set rest" "state (nd x) = state (nd e)"
    then have "state (nd e) \<in> (\<lambda>e. state (nd e)) ` set rest"
      by (intro rev_image_eqI [of x]) simp_all
    with nr show False by simp
  qed
  show "frontier_inv g start nd st'"
    unfolding frontier_inv_def st'_def
    using inv f(1,2) dr nr' r cd by (auto simp: frontier_inv_def)
qed

lemma frontier_inv_skip:
  assumes "frontier_inv g start nd st"
    and "frontier st' = frontier st" "explored st' = explored st"
    "nodes_expanded st' = nodes_expanded st" "nodes_generated st' = Suc (nodes_generated st)"
    "max_frontier_size st' = max_frontier_size st"
  shows "frontier_inv g start nd st'"
  using assms by (simp add: frontier_inv_def)

lemma frontier_inv_push:
  assumes "frontier_inv g start nd st"
    and "mset (frontier st') = add_mset e (mset (frontier st))"
    and "node_ok g start (nd e)" "state (nd e) \<notin> explored st"
    "state (nd e) \<notin> (\<lambda>e. state (nd e)) ` set (frontier st)"
    and "explored st' = explored st"
    "nodes_expanded st' = nodes_expanded st" "nodes_generated st' = Suc (nodes_generated st)"
    "max_frontier_size st' = max_frontier_size st"
  shows "frontier_inv g start nd st'"
proof -
  from assms(2) have m: "mset (frontier st') = mset (e # frontier st)" by simp
  then have s: "set (frontier st') = insert e (set (frontier st))"
    by (metis list.simps(15) mset_eq_setD)
  from m have l: "length (frontier st') = Suc (length (frontier st))"
    by (metis length_Cons mset_eq_length)
  from m have "mset (map (\<lambda>e. state (nd e)) (frontier st')) =
      mset (map (\<lambda>e. state (nd e)) (e # frontier st))" by simp
  moreover have "distinct (map (\<lambda>e. state (nd e)) (e # frontier st))"
    using assms(1,5) by (simp add: frontier_inv_def)
  ultimately have d: "distinct (map (\<lambda>e. state (nd e)) (frontier st'))"
    by (metis mset_eq_imp_distinct_iff)
  show ?thesis
    unfolding frontier_inv_def using assms(1,3,4,6-9) s l d by (auto simp: frontier_inv_def)
qed

lemma frontier_inv_replace:
  assumes "frontier_inv g start nd st"
    and "mset (frontier st') = mset ((frontier st)[i := e])" "i < length (frontier st)"
    and "node_ok g start (nd e)" "state (nd e) = state (nd (frontier st ! i))"
    and "explored st' = explored st"
    "nodes_expanded st' = nodes_expanded st" "nodes_generated st' = Suc (nodes_generated st)"
    "max_frontier_size st' = max_frontier_size st"
  shows "frontier_inv g start nd st'"
proof -
  let ?u = "(frontier st)[i := e]"
  have mp: "map (\<lambda>e. state (nd e)) ?u = map (\<lambda>e. state (nd e)) (frontier st)"
    using assms(3,5) by (simp add: map_update list_update_same_conv)
  from assms(2) have s: "set (frontier st') = set ?u" by (rule mset_eq_setD)
  from assms(2) have l: "length (frontier st') = length (frontier st)"
    by (metis mset_eq_length length_list_update)
  from assms(2) have "mset (map (\<lambda>e. state (nd e)) (frontier st')) =
      mset (map (\<lambda>e. state (nd e)) ?u)" by simp
  moreover have "distinct (map (\<lambda>e. state (nd e)) ?u)"
    using assms(1) mp by (simp add: frontier_inv_def)
  ultimately have d: "distinct (map (\<lambda>e. state (nd e)) (frontier st'))"
    by (metis mset_eq_imp_distinct_iff)
  have su: "set ?u \<subseteq> insert e (set (frontier st))" by (rule set_update_subset_insert)
  have ex: "state (nd e) \<notin> explored st"
    using assms(1,3,5) by (simp add: frontier_inv_def)
  show ?thesis
    unfolding frontier_inv_def using assms(1,4,6-9) s l d su ex
    by (auto simp: frontier_inv_def)
qed

text \<open>A result built from an invariant state.\<close>

lemma found_ok:
  assumes "node_ok g start n" "state n = goal"
    and "nodes_expanded st \<le> nodes_generated st" "1 \<le> max_frontier_size st"
    and "nodes_expanded st \<le> card (reachable g start)"
  shows "result_ok g start goal (found alg n st)"
proof -
  have "path n \<noteq> []" by (cases n) (simp add: path_def)
  with assms show ?thesis by (auto simp: result_ok_def found_def)
qed

lemma no_path_ok:
  assumes "frontier_inv g start nd st"
  shows "result_ok g start goal (no_path alg st)"
proof -
  from assms have sub: "explored st \<subseteq> reachable g start" by (simp add: frontier_inv_def)
  then have "card (explored st) \<le> card (reachable g start)"
    using finite_reachable by (rule card_mono [rotated])
  with assms show ?thesis by (auto simp: result_ok_def no_path_def frontier_inv_def)
qed

lemma fold_inv:
  assumes "P st" and "\<And>c st. c \<in> set cs \<Longrightarrow> P st \<Longrightarrow> P (f c st)"
  shows "P (fold f cs st)"
  using assms by (induction cs arbitrary: st) auto

section \<open>Outcomes of the searches\<close>

lemma card_reachable_pos: "1 \<le> card (reachable g s)"
proof -
  have "card {s} \<le> card (reachable g s)"
    using finite_reachable by (rule card_mono) (simp add: reachable_start)
  then show ?thesis by simp
qed

lemma trivial_ok:
  assumes "ne \<le> ng" "1 \<le> mfs" "ne \<le> 1"
  shows "outcome_ok g start start (Inr (trivial_result alg start ne ng mfs))"
proof -
  have "node_ok g start (root_node start) \<and> state (root_node start) = start \<and>
        [start] = path (root_node start) \<and> 0 = path_cost (root_node start)"
    by (simp add: root_node_def path_def)
  then have "\<exists>n. node_ok g start n \<and> state n = start \<and> [start] = path n \<and> 0 = path_cost n" ..
  moreover have "ne \<le> card (reachable g start)"
    using assms(3) card_reachable_pos [of g start] by simp
  ultimately show ?thesis using assms(1,2)
    by (simp add: outcome_ok_def result_ok_def trivial_result_def)
qed

lemma pop_found_ok:
  fixes n' fs
  assumes "frontier_inv g start nd st" "mset (frontier st) = add_mset e (mset rest)"
    "state (nd e) = goal"
  shows "outcome_ok g start goal (Inr (found alg (nd e) (after_pop nd n' rest fs st)))"
proof -
  note p = frontier_inv_pop [OF assms(1,2)]
  from assms(1) have "1 \<le> max_frontier_size st" by (simp add: frontier_inv_def)
  then have "1 \<le> max_frontier_size (after_pop nd n' rest fs st)" by simp
  with p(2,6,7) assms(3) show ?thesis
    unfolding outcome_ok_def by (simp add: found_ok)
qed

lemma pop_expand_error_ok:
  assumes "frontier_inv g start nd st" "mset (frontier st) = add_mset e (mset rest)"
    "expand (nd e) g = Inl err"
  shows "outcome_ok g start goal (Inl err)"
proof -
  note p = frontier_inv_pop [OF assms(1,2)]
  from node_ok_reachable [OF p(2)] expand_Inl [OF assms(3)] show ?thesis
    by (auto simp: outcome_ok_def)
qed

subsection \<open>Breadth-first search\<close>

lemma bfs_child_keeps:
  assumes "frontier_inv g start id st" "node_ok g start c"
  shows "frontier_inv g start id (bfs_child c st) \<and> explored (bfs_child c st) = explored st"
proof (cases "state c \<notin> explored st \<and> state c \<notin> set (map state (frontier st))")
  case True
  have "frontier_inv g start id (bfs_child c st)"
    by (rule frontier_inv_push [OF assms(1), of _ c]) (use True assms(2) in \<open>simp_all add: bfs_child_def\<close>)
  with True show ?thesis by (simp add: bfs_child_def)
next
  case False
  have "frontier_inv g start id (bfs_child c st)"
    by (rule frontier_inv_skip [OF assms(1)]) (use False in \<open>auto simp: bfs_child_def\<close>)
  with False show ?thesis by (auto simp: bfs_child_def)
qed

lemma bfs_step:
  fixes st :: "('a, 'a node, unit) search"
  assumes inv: "frontier_inv g start id st"
  shows "case bfs_body g goal st of
           Inl st' \<Rightarrow> frontier_inv g start id st' \<and>
             card (reachable g start - explored st') < card (reachable g start - explored st)
         | Inr res \<Rightarrow> outcome_ok g start goal res"
proof (cases "frontier st")
  case Nil
  with no_path_ok [OF inv] show ?thesis by (simp add: bfs_body_eq outcome_ok_def)
next
  case (Cons n rest)
  then have m: "mset (frontier st) = add_mset (id n) (mset rest)" by simp
  note p = frontier_inv_pop [OF inv m]
  show ?thesis
  proof (cases "state n = goal")
    case True
    with pop_found_ok [OF inv m, where goal = goal and n' = n and fs = "()" and alg = "''bfs''"] Cons show ?thesis
      by (simp add: bfs_body_eq)
  next
    case False
    show ?thesis
    proof (cases "expand n g")
      case (Inl err)
      with pop_expand_error_ok [OF inv m, where err = err and goal = goal] False Cons show ?thesis
        by (simp add: bfs_body_eq)
    next
      case (Inr children)
      let ?mid = "(after_pop id n rest () st)\<lparr>explored := insert (state n) (explored st)\<rparr>"
      let ?P = "\<lambda>s :: ('a, 'a node, unit) search.
                  frontier_inv g start id s \<and> explored s = explored ?mid"
      have "?P (fold bfs_child children ?mid)"
      proof (rule fold_inv)
        show "?P ?mid" using p(1) by simp
      next
        fix c s assume c: "c \<in> set children" and s: "?P s"
        from expand_child_ok [OF Inr c] p(2) have "node_ok g start c" by simp
        with bfs_child_keeps [of g start s c] s show "?P (bfs_child c s)" by simp
      qed
      with p(5) Inr False Cons show ?thesis by (simp add: bfs_body_eq)
    qed
  qed
qed

lemma bfs_init_inv: "frontier_inv g start id (bfs_init start)"
  by (simp add: frontier_inv_def bfs_init_def node_ok_root)

lemma bfs_outcome:
  "\<exists>res. breadth_first_search g start goal = Some res \<and> outcome_ok g start goal res"
proof (cases "start = goal")
  case True
  with trivial_ok [of 0 1 1 g start "''bfs''"] show ?thesis
    by (simp add: breadth_first_search_def)
next
  case False
  have "\<exists>res. run_loop (bfs_body g goal) (bfs_init start) = Some res \<and> outcome_ok g start goal res"
    by (rule run_loop_total [where I = "frontier_inv g start id"
          and m = "\<lambda>st. card (reachable g start - explored st)"])
       (rule bfs_init_inv, rule bfs_step)
  with False show ?thesis by (simp add: breadth_first_search_def)
qed

subsection \<open>Depth-first and depth-limited search\<close>

lemma stack_split: "xs \<noteq> [] \<Longrightarrow> mset xs = add_mset (last xs) (mset (butlast xs))"
  by (induction xs) auto

lemma dfs_child_keeps:
  assumes "stack_inv g start st" "node_ok g start c"
  shows "stack_inv g start (dfs_child c st) \<and> explored (dfs_child c st) = explored st"
proof (cases "state c \<notin> explored st \<and> state c \<notin> frontier_states st")
  case True
  have "frontier_inv g start id (dfs_child c st)"
    by (rule frontier_inv_push [where e = c and st = st])
      (use True assms in \<open>simp_all add: dfs_child_def stack_inv_def\<close>)
  with True assms(1) show ?thesis by (simp add: dfs_child_def stack_inv_def)
next
  case False
  have "frontier_inv g start id (dfs_child c st)"
    by (rule frontier_inv_skip [where st = st])
      (use False assms in \<open>auto simp: dfs_child_def stack_inv_def\<close>)
  with False assms(1) show ?thesis by (auto simp: dfs_child_def stack_inv_def)
qed

lemma stack_pop:
  assumes inv: "stack_inv g start st" and ne: "frontier st \<noteq> []"
  shows "set_remove (frontier_states st) (state (last (frontier st))) =
           Inr (state ` set (butlast (frontier st)))"
proof -
  let ?n = "last (frontier st)" and ?rest = "butlast (frontier st)"
  from inv have fi: "frontier_inv g start id st"
    and fs: "frontier_states st = state ` set (frontier st)" by (simp_all add: stack_inv_def)
  from stack_split [OF ne] have m: "mset (frontier st) = add_mset (id ?n) (mset ?rest)" by simp
  note p = frontier_inv_pop [OF fi m]
  from mset_split_facts(1) [OF m] have "set (frontier st) = insert ?n (set ?rest)" by simp
  with fs p(4) have "state ?n \<in> frontier_states st"
    "frontier_states st - {state ?n} = state ` set ?rest" by auto
  then show ?thesis by (simp add: set_remove_def)
qed

lemma stack_children:
  fixes mid :: "('a, 'a node, 'a set) search"
  assumes "stack_inv g start mid" "expand n g = Inr children" "node_ok g start n"
  shows "stack_inv g start (fold dfs_child (rev children) mid) \<and>
         explored (fold dfs_child (rev children) mid) = explored mid"
proof -
  let ?P = "\<lambda>s :: ('a, 'a node, 'a set) search. stack_inv g start s \<and> explored s = explored mid"
  show "?P (fold dfs_child (rev children) mid)"
  proof (rule fold_inv)
    show "?P mid" using assms(1) by simp
  next
    fix c s assume c: "c \<in> set (rev children)" and s: "?P s"
    from expand_child_ok [OF assms(2) _ assms(3)] c have "node_ok g start c" by simp
    with dfs_child_keeps [of g start s c] s show "?P (dfs_child c s)" by simp
  qed
qed

lemma dfs_step:
  fixes st :: "('a, 'a node, 'a set) search"
  assumes inv: "stack_inv g start st"
  shows "case dfs_body g goal st of
           Inl st' \<Rightarrow> stack_inv g start st' \<and>
             card (reachable g start - explored st') < card (reachable g start - explored st)
         | Inr res \<Rightarrow> outcome_ok g start goal res"
proof (cases "frontier st = []")
  case True
  from inv have "frontier_inv g start id st" by (simp add: stack_inv_def)
  from no_path_ok [OF this] True show ?thesis by (simp add: dfs_body_eq outcome_ok_def)
next
  case False
  let ?n = "last (frontier st)" and ?rest = "butlast (frontier st)"
  let ?fs = "state ` set ?rest"
  from inv have fi: "frontier_inv g start id st" by (simp add: stack_inv_def)
  from stack_split [OF False] have m: "mset (frontier st) = add_mset (id ?n) (mset ?rest)" by simp
  note p = frontier_inv_pop [OF fi m]
  note r = stack_pop [OF inv False]
  show ?thesis
  proof (cases "state ?n = goal")
    case True
    with pop_found_ok [OF fi m, where goal = goal and n' = ?n and fs = ?fs and alg = "''dfs''"]
      False r show ?thesis by (simp add: dfs_body_eq Let_def)
  next
    case ng: False
    show ?thesis
    proof (cases "expand ?n g")
      case (Inl err)
      with pop_expand_error_ok [OF fi m, where err = err and goal = goal] False ng r
      show ?thesis by (simp add: dfs_body_eq Let_def)
    next
      case (Inr children)
      let ?mid = "(after_pop id ?n ?rest ?fs st)\<lparr>explored := insert (state ?n) (explored st)\<rparr>"
      have "stack_inv g start ?mid" using p(1) by (simp add: stack_inv_def)
      from stack_children [OF this Inr] p(2) p(5) Inr False ng r show ?thesis
        by (simp add: dfs_body_eq Let_def)
    qed
  qed
qed

lemma dls_step:
  fixes st :: "('a, 'a node, 'a set) search"
  assumes inv: "stack_inv g start st"
  shows "case dls_body g goal depth_limit st of
           Inl st' \<Rightarrow> stack_inv g start st' \<and>
             card (reachable g start - explored st') < card (reachable g start - explored st)
         | Inr res \<Rightarrow> outcome_ok g start goal res"
proof (cases "frontier st = []")
  case True
  from inv have "frontier_inv g start id st" by (simp add: stack_inv_def)
  from no_path_ok [OF this] True show ?thesis by (simp add: dls_body_eq outcome_ok_def)
next
  case False
  let ?n = "last (frontier st)" and ?rest = "butlast (frontier st)"
  let ?fs = "state ` set ?rest"
  from inv have fi: "frontier_inv g start id st" by (simp add: stack_inv_def)
  from stack_split [OF False] have m: "mset (frontier st) = add_mset (id ?n) (mset ?rest)" by simp
  note p = frontier_inv_pop [OF fi m]
  note r = stack_pop [OF inv False]
  let ?mid = "(after_pop id ?n ?rest ?fs st)\<lparr>explored := insert (state ?n) (explored st)\<rparr>"
  have mid: "stack_inv g start ?mid" using p(1) by (simp add: stack_inv_def)
  show ?thesis
  proof (cases "state ?n = goal")
    case True
    with pop_found_ok [OF fi m, where goal = goal and n' = ?n and fs = ?fs and alg = "''dls''"]
      False r show ?thesis by (simp add: dls_body_eq Let_def)
  next
    case ng: False
    show ?thesis
    proof (cases "int (depth ?n) < depth_limit")
      case deep: False
      with mid p(5) False ng r show ?thesis by (simp add: dls_body_eq Let_def)
    next
      case True
      show ?thesis
      proof (cases "expand ?n g")
        case (Inl err)
        with pop_expand_error_ok [OF fi m, where err = err and goal = goal] False ng r True
        show ?thesis by (simp add: dls_body_eq Let_def)
      next
        case (Inr children)
        from stack_children [OF mid Inr] p(2) p(5) Inr False ng r True show ?thesis
          by (simp add: dls_body_eq Let_def)
      qed
    qed
  qed
qed

lemma stack_init_inv: "stack_inv g start (stack_init start)"
  by (simp add: stack_inv_def frontier_inv_def stack_init_def node_ok_root root_node_def)

lemma dfs_outcome:
  "\<exists>res. depth_first_search g start goal = Some res \<and> outcome_ok g start goal res"
proof (cases "start = goal")
  case True
  with trivial_ok [of 0 1 1 g start "''dfs''"] show ?thesis
    by (simp add: depth_first_search_def)
next
  case False
  have "\<exists>res. run_loop (dfs_body g goal) (stack_init start) = Some res \<and> outcome_ok g start goal res"
    by (rule run_loop_total [where I = "stack_inv g start"
          and m = "\<lambda>st. card (reachable g start - explored st)"])
       (rule stack_init_inv, rule dfs_step)
  with False show ?thesis by (simp add: depth_first_search_def)
qed

lemma dls_outcome:
  "\<exists>res. depth_limited_search g start goal depth_limit = Some res \<and> outcome_ok g start goal res"
proof (cases "start = goal")
  case True
  with trivial_ok [of 0 1 1 g start "''dls''"] show ?thesis
    by (simp add: depth_limited_search_def)
next
  case False
  have "\<exists>res. run_loop (dls_body g goal depth_limit) (stack_init start) = Some res \<and>
          outcome_ok g start goal res"
    by (rule run_loop_total [where I = "stack_inv g start"
          and m = "\<lambda>st. card (reachable g start - explored st)"])
       (rule stack_init_inv, rule dls_step)
  with False show ?thesis by (simp add: depth_limited_search_def)
qed

subsection \<open>Searches with a heap and a set of frontier states\<close>

lemma first_index_Some:
  "first_index P xs = Some i \<Longrightarrow> i < length xs \<and> P (xs ! i)"
proof (induction xs arbitrary: i)
  case Nil
  then show ?case by simp
next
  case (Cons x xs)
  show ?case
  proof (cases "P x")
    case True
    with Cons.prems show ?thesis by simp
  next
    case False
    with Cons.prems obtain j where "first_index P xs = Some j" "i = Suc j" by auto
    with Cons.IH [of j] show ?thesis by simp
  qed
qed

lemma first_index_None: "first_index P xs = None \<Longrightarrow> \<forall>x\<in>set xs. \<not> P x"
  by (induction xs) (auto split: if_splits)

lemma replace_same_image:
  assumes "mset xs' = mset (xs[i := e])" "i < length xs" "f e = f (xs ! i)"
  shows "f ` set xs' = f ` set xs"
proof -
  from assms(1) have "set xs' = set (xs[i := e])" by (rule mset_eq_setD)
  moreover have "map f (xs[i := e]) = map f xs"
    using assms(2,3) by (simp add: map_update list_update_same_conv)
  then have "f ` set (xs[i := e]) = f ` set xs" by (metis set_map)
  ultimately show ?thesis by simp
qed

lemma keyed_pop:
  assumes inv: "keyed_inv g start nd st" and m: "mset (frontier st) = add_mset e (mset rest)"
  shows "set_remove (frontier_states st) (state (nd e)) = Inr ((\<lambda>e. state (nd e)) ` set rest)"
proof -
  from inv have fi: "frontier_inv g start nd st"
    and fs: "frontier_states st = (\<lambda>e. state (nd e)) ` set (frontier st)"
    by (simp_all add: keyed_inv_def)
  note p = frontier_inv_pop [OF fi m]
  from mset_split_facts(1) [OF m] have "set (frontier st) = insert e (set rest)" .
  with fs p(4) have "state (nd e) \<in> frontier_states st"
    "frontier_states st - {state (nd e)} = (\<lambda>e. state (nd e)) ` set rest" by auto
  then show ?thesis by (simp add: set_remove_def)
qed

lemma keyed_push:
  assumes "keyed_inv g start nd st" "node_ok g start (nd e)"
    "state (nd e) \<notin> explored st" "state (nd e) \<notin> frontier_states st"
  shows "keyed_inv g start nd
           (st\<lparr>nodes_generated := nodes_generated st + 1,
               frontier := heappush lt (frontier st) e,
               frontier_states := insert (state (nd e)) (frontier_states st)\<rparr>)"
    (is "keyed_inv g start nd ?st'")
proof -
  have m: "mset (frontier ?st') = add_mset e (mset (frontier st))"
    by (simp add: heappush_mset)
  have "frontier_inv g start nd ?st'"
    by (rule frontier_inv_push [where e = e and st = st, OF _ m])
      (use assms in \<open>simp_all add: keyed_inv_def\<close>)
  moreover from m have "mset (frontier ?st') = mset (e # frontier st)" by simp
  then have "set (frontier ?st') = insert e (set (frontier st))"
    by (metis list.simps(15) mset_eq_setD)
  ultimately show ?thesis using assms(1) by (simp add: keyed_inv_def)
qed

lemma keyed_skip:
  assumes "keyed_inv g start nd st"
  shows "keyed_inv g start nd (st\<lparr>nodes_generated := nodes_generated st + 1\<rparr>)"
proof -
  have "frontier_inv g start nd (st\<lparr>nodes_generated := nodes_generated st + 1\<rparr>)"
    by (rule frontier_inv_skip [where st = st]) (use assms in \<open>simp_all add: keyed_inv_def\<close>)
  with assms show ?thesis by (simp add: keyed_inv_def)
qed

lemma keyed_replace:
  assumes "keyed_inv g start nd st" "node_ok g start (nd e)" "i < length (frontier st)"
    "state (nd e) = state (nd (frontier st ! i))"
  shows "keyed_inv g start nd
           (st\<lparr>nodes_generated := nodes_generated st + 1,
               frontier := heapify lt ((frontier st)[i := e])\<rparr>)"
    (is "keyed_inv g start nd ?st'")
proof -
  have m: "mset (frontier ?st') = mset ((frontier st)[i := e])"
    by (simp add: heapify_mset)
  have "frontier_inv g start nd ?st'"
    by (rule frontier_inv_replace [where e = e and st = st and i = i, OF _ m])
      (use assms in \<open>simp_all add: keyed_inv_def\<close>)
  moreover from replace_same_image [OF m assms(3), of "\<lambda>e. state (nd e)"] assms(4)
  have "(\<lambda>e. state (nd e)) ` set (frontier ?st') = (\<lambda>e. state (nd e)) ` set (frontier st)"
    by simp
  ultimately show ?thesis using assms(1) by (simp add: keyed_inv_def)
qed

subsection \<open>Uniform-cost search\<close>

lemma ucs_child_keeps:
  assumes inv: "keyed_inv g start snd st" and ok: "node_ok g start c"
  shows "keyed_inv g start snd (ucs_child c st) \<and> explored (ucs_child c st) = explored st"
proof -
  consider (push) "state c \<notin> explored st" "state c \<notin> frontier_states st"
    | (upd) "state c \<in> frontier_states st"
    | (skip) "state c \<in> explored st" "state c \<notin> frontier_states st" by blast
  then show ?thesis
  proof cases
    case push
    with keyed_push [OF inv, of "(path_cost c, c)" ucs_lt] ok show ?thesis
      by (simp add: ucs_child_def)
  next
    case skip
    with keyed_skip [OF inv] show ?thesis by (simp add: ucs_child_def)
  next
    case upd
    let ?P = "\<lambda>(cost, frontier_node). state frontier_node = state c \<and> path_cost c < cost"
    show ?thesis
    proof (cases "first_index ?P (frontier st)")
      case None
      with keyed_skip [OF inv] upd show ?thesis by (simp add: ucs_child_def ucs_update_def)
    next
      case (Some i)
      from first_index_Some [OF Some] have i: "i < length (frontier st)"
        and "state (snd (frontier st ! i)) = state c" by (auto split: prod.splits)
      with keyed_replace [OF inv, of "(path_cost c, c)" i ucs_lt] ok Some upd show ?thesis
        by (simp add: ucs_child_def ucs_update_def)
    qed
  qed
qed

lemma keyed_step_facts:
  assumes inv: "keyed_inv g start nd st" and ne: "frontier st \<noteq> []"
  obtains rest where "heappop lt (frontier st) = Some (hd (frontier st), rest)"
    "mset (frontier st) = add_mset (hd (frontier st)) (mset rest)"
    "set_remove (frontier_states st) (state (nd (hd (frontier st)))) =
       Inr ((\<lambda>e. state (nd e)) ` set rest)"
proof -
  from heappop_Some [OF ne, of lt] obtain rest where
    r: "heappop lt (frontier st) = Some (hd (frontier st), rest)"
    "mset (frontier st) = add_mset (hd (frontier st)) (mset rest)" by blast
  from keyed_pop [OF inv r(2)] r that show thesis by blast
qed

lemma ucs_step:
  fixes st :: "('a, int \<times> 'a node, 'a set) search"
  assumes inv: "keyed_inv g start snd st"
  shows "case ucs_body g goal st of
           Inl st' \<Rightarrow> keyed_inv g start snd st' \<and>
             card (reachable g start - explored st') < card (reachable g start - explored st)
         | Inr res \<Rightarrow> outcome_ok g start goal res"
proof (cases "frontier st = []")
  case True
  from inv have "frontier_inv g start snd st" by (simp add: keyed_inv_def)
  from no_path_ok [OF this] True show ?thesis by (simp add: ucs_body_eq outcome_ok_def)
next
  case False
  from inv have fi: "frontier_inv g start snd st" by (simp add: keyed_inv_def)
  obtain c n where e: "hd (frontier st) = (c, n)" by force
  from keyed_step_facts [OF inv False, of ucs_lt] e obtain rest where
    hp: "heappop ucs_lt (frontier st) = Some ((c, n), rest)"
    and m: "mset (frontier st) = add_mset (c, n) (mset rest)"
    and r: "set_remove (frontier_states st) (state n) = Inr ((\<lambda>e. state (snd e)) ` set rest)"
    by auto
  let ?fs = "(\<lambda>e. state (snd e)) ` set rest"
  note p = frontier_inv_pop [OF fi m]
  let ?mid = "(after_pop snd n rest ?fs st)\<lparr>explored := insert (state n) (explored st)\<rparr>"
  show ?thesis
  proof (cases "state n = goal")
    case True
    with pop_found_ok [OF fi m, where goal = goal and n' = n and fs = ?fs and alg = "''ucs''"]
      False hp r show ?thesis by (simp add: ucs_body_eq)
  next
    case ng: False
    show ?thesis
    proof (cases "expand n g")
      case (Inl err)
      with pop_expand_error_ok [OF fi m, where err = err and goal = goal] False ng hp r
      show ?thesis by (simp add: ucs_body_eq)
    next
      case (Inr children)
      let ?P = "\<lambda>s :: ('a, int \<times> 'a node, 'a set) search.
                  keyed_inv g start snd s \<and> explored s = explored ?mid"
      have "?P (fold ucs_child children ?mid)"
      proof (rule fold_inv)
        show "?P ?mid" using p(1) by (simp add: keyed_inv_def)
      next
        fix c s assume c: "c \<in> set children" and s: "?P s"
        from expand_child_ok [OF Inr c] p(2) have "node_ok g start c" by simp
        with ucs_child_keeps [of g start s c] s show "?P (ucs_child c s)" by simp
      qed
      with p(5) Inr False ng hp r show ?thesis by (simp add: ucs_body_eq)
    qed
  qed
qed

lemma ucs_init_inv: "keyed_inv g start snd (ucs_init start)"
  by (simp add: keyed_inv_def frontier_inv_def ucs_init_def node_ok_root root_node_def)

lemma ucs_outcome:
  "\<exists>res. uniform_cost_search g start goal = Some res \<and> outcome_ok g start goal res"
proof (cases "start = goal")
  case True
  with trivial_ok [of 0 1 1 g start "''ucs''"] show ?thesis
    by (simp add: uniform_cost_search_def)
next
  case False
  have "\<exists>res. run_loop (ucs_body g goal) (ucs_init start) = Some res \<and> outcome_ok g start goal res"
    by (rule run_loop_total [where I = "keyed_inv g start snd"
          and m = "\<lambda>st. card (reachable g start - explored st)"])
       (rule ucs_init_inv, rule ucs_step)
  with False show ?thesis by (simp add: uniform_cost_search_def)
qed

subsection \<open>Greedy search\<close>

lemma get_heuristic_Inr: "\<exists>h. get_heuristic s goal tbl = Inr h"
proof (cases "goal = ''Bucharest'' \<and> s \<in> set (map fst tbl)")
  case True
  with dict_get_key [of s tbl] show ?thesis by (auto simp: get_heuristic_def)
next
  case False
  then show ?thesis by (auto simp: get_heuristic_def)
qed

lemma fold_err_inv:
  assumes "P st" and "\<And>c st. c \<in> set cs \<Longrightarrow> P st \<Longrightarrow> \<exists>st'. f c st = Inr st' \<and> P st'"
  shows "\<exists>st'. fold_err f cs st = Inr st' \<and> P st'"
  using assms
proof (induction cs arbitrary: st)
  case Nil
  then show ?case by simp
next
  case (Cons c cs)
  from Cons.prems(2) [of c st] Cons.prems(1) obtain s1 where s1: "f c st = Inr s1" "P s1" by auto
  from Cons.IH [OF s1(2)] Cons.prems(2) obtain s2 where "fold_err f cs s1 = Inr s2" "P s2"
    by auto
  with s1 show ?case by simp
qed

lemma greedy_child_keeps:
  assumes inv: "keyed_inv g start snd st" and ok: "node_ok g start c"
  shows "\<exists>st'. greedy_child goal tbl c st = Inr st' \<and> keyed_inv g start snd st' \<and>
           explored st' = explored st"
proof (cases "state c \<notin> explored st \<and> state c \<notin> frontier_states st")
  case True
  obtain h where h: "get_heuristic (state c) goal tbl = Inr h"
    using get_heuristic_Inr by blast
  with keyed_push [OF inv, of "(h, c)" ucs_lt] ok True show ?thesis
    by (simp add: greedy_child_def)
next
  case False
  with keyed_skip [OF inv] show ?thesis by (auto simp: greedy_child_def)
qed

lemma greedy_step:
  fixes st :: "(string, int \<times> string node, string set) search"
  assumes inv: "keyed_inv g start snd st"
  shows "case greedy_body g goal tbl st of
           Inl st' \<Rightarrow> keyed_inv g start snd st' \<and>
             card (reachable g start - explored st') < card (reachable g start - explored st)
         | Inr res \<Rightarrow> outcome_ok g start goal res"
proof (cases "frontier st = []")
  case True
  from inv have "frontier_inv g start snd st" by (simp add: keyed_inv_def)
  from no_path_ok [OF this] True show ?thesis by (simp add: greedy_body_eq outcome_ok_def)
next
  case False
  from inv have fi: "frontier_inv g start snd st" by (simp add: keyed_inv_def)
  obtain c n where e: "hd (frontier st) = (c, n)" by force
  from keyed_step_facts [OF inv False, of ucs_lt] e obtain rest where
    hp: "heappop ucs_lt (frontier st) = Some ((c, n), rest)"
    and m: "mset (frontier st) = add_mset (c, n) (mset rest)"
    and r: "set_remove (frontier_states st) (state n) = Inr ((\<lambda>e. state (snd e)) ` set rest)"
    by auto
  let ?fs = "(\<lambda>e. state (snd e)) ` set rest"
  note p = frontier_inv_pop [OF fi m]
  let ?mid = "(after_pop snd n rest ?fs st)\<lparr>explored := insert (state n) (explored st)\<rparr>"
  show ?thesis
  proof (cases "state n = goal")
    case True
    with pop_found_ok [OF fi m, where goal = goal and n' = n and fs = ?fs and alg = "''greedy''"]
      False hp r show ?thesis by (simp add: greedy_body_eq)
  next
    case ng: False
    show ?thesis
    proof (cases "expand n g")
      case (Inl err)
      with pop_expand_error_ok [OF fi m, where err = err and goal = goal] False ng hp r
      show ?thesis by (simp add: greedy_body_eq)
    next
      case (Inr children)
      let ?P = "\<lambda>s :: (string, int \<times> string node, string set) search.
                  keyed_inv g start snd s \<and> explored s = explored ?mid"
      have "\<exists>st'. fold_err (greedy_child goal tbl) children ?mid = Inr st' \<and> ?P st'"
      proof (rule fold_err_inv)
        show "?P ?mid" using p(1) by (simp add: keyed_inv_def)
      next
        fix c s assume c: "c \<in> set children" and s: "?P s"
        from expand_child_ok [OF Inr c] p(2) have "node_ok g start c" by simp
        with greedy_child_keeps [of g start s c goal tbl] s
        show "\<exists>st'. greedy_child goal tbl c s = Inr st' \<and> ?P st'" by auto
      qed
      then obtain st' where "fold_err (greedy_child goal tbl) children ?mid = Inr st'" "?P st'"
        by blast
      with p(5) Inr False ng hp r show ?thesis by (simp add: greedy_body_eq)
    qed
  qed
qed

lemma greedy_init_inv: "keyed_inv g start snd (greedy_init start h)"
  by (simp add: keyed_inv_def frontier_inv_def greedy_init_def node_ok_root root_node_def)

lemma greedy_outcome:
  "\<exists>res. greedy_search g start goal tbl = Some res \<and> outcome_ok g start goal res"
proof (cases "start = goal")
  case True
  with trivial_ok [of 0 1 1 g start "''greedy''"] show ?thesis
    by (simp add: greedy_search_def)
next
  case False
  obtain h where h: "get_heuristic start goal tbl = Inr h" using get_heuristic_Inr by blast
  have "\<exists>res. run_loop (greedy_body g goal tbl) (greedy_init start h) = Some res \<and>
          outcome_ok g start goal res"
    by (rule run_loop_total [where I = "keyed_inv g start snd"
          and m = "\<lambda>st. card (reachable g start - explored st)"])
       (rule greedy_init_inv, rule greedy_step)
  with False h show ?thesis by (simp add: greedy_search_def)
qed

subsection \<open>A* search\<close>

lemma astar_child_keeps:
  assumes inv: "astar_inv g start st" and ok: "node_ok g start c"
  shows "\<exists>st'. astar_child ident goal tbl c st = Inr st' \<and> astar_inv g start st' \<and>
           explored st' = explored st"
proof -
  let ?nd = "\<lambda>e :: int \<times> int \<times> string node. snd (snd e)"
  let ?st1 = "st\<lparr>nodes_generated := nodes_generated st + 1, created := created st + 1\<rparr>"
  from inv have fi: "frontier_inv g start ?nd st"
    and fs: "dom (frontier_states st) = (\<lambda>e. state (?nd e)) ` set (frontier st)"
    by (simp_all add: astar_inv_def)
  obtain h where h: "get_heuristic (state c) goal tbl = Inr h"
    using get_heuristic_Inr by blast
  let ?e = "(path_cost c + h, ident (created st), c)"
  have skip: "astar_inv g start ?st1"
  proof -
    have "frontier_inv g start ?nd ?st1"
      by (rule frontier_inv_skip [where st = st]) (use fi in simp_all)
    with fs show ?thesis by (simp add: astar_inv_def)
  qed
  show ?thesis
  proof (cases "state c \<in> explored st")
    case True
    with skip show ?thesis by (simp add: astar_child_def Let_def)
  next
    case ne: False
    show ?thesis
    proof (cases "state c \<in> dom (frontier_states st)")
      case False
      let ?st' = "?st1\<lparr>frontier := heappush astar_lt (frontier st) ?e,
                       frontier_states := (frontier_states st)(state c \<mapsto> path_cost c)\<rparr>"
      have m: "mset (frontier ?st') = add_mset ?e (mset (frontier st))"
        by (simp add: heappush_mset)
      have "frontier_inv g start ?nd ?st'"
        by (rule frontier_inv_push [where e = ?e and st = st, OF fi m])
          (use ok ne False fs in simp_all)
      moreover from m have "mset (frontier ?st') = mset (?e # frontier st)" by simp
      then have "set (frontier ?st') = insert ?e (set (frontier st))"
        by (metis list.simps(15) mset_eq_setD)
      ultimately have "astar_inv g start ?st'" using fs by (simp add: astar_inv_def)
      with ne False h show ?thesis by (simp add: astar_child_def Let_def)
    next
      case True
      then obtain old where old: "frontier_states st (state c) = Some old" by auto
      show ?thesis
      proof (cases "path_cost c < old")
        case False
        with skip ne True h old show ?thesis
          by (simp add: astar_child_def Let_def map_get_def)
      next
        case less: True
        let ?Q = "\<lambda>(f, i, frontier_node). state (frontier_node :: string node) = state c"
        show ?thesis
        proof (cases "first_index ?Q (frontier st)")
          case None
          with skip ne True h old less show ?thesis
            by (simp add: astar_child_def Let_def map_get_def)
        next
          case (Some i)
          from first_index_Some [OF Some] have i: "i < length (frontier st)"
            and si: "state (?nd (frontier st ! i)) = state c" by (auto split: prod.splits)
          let ?st' = "?st1\<lparr>frontier := heapify astar_lt ((frontier st)[i := ?e]),
                           frontier_states := (frontier_states st)(state c \<mapsto> path_cost c)\<rparr>"
          have m: "mset (frontier ?st') = mset ((frontier st)[i := ?e])"
            by (simp add: heapify_mset)
          have "frontier_inv g start ?nd ?st'"
            by (rule frontier_inv_replace [where e = ?e and st = st and i = i, OF fi m])
              (use ok i si in simp_all)
          moreover from replace_same_image [OF m i, of "\<lambda>e. state (?nd e)"] si
          have "(\<lambda>e. state (?nd e)) ` set (frontier ?st') = (\<lambda>e. state (?nd e)) ` set (frontier st)"
            by simp
          ultimately have "astar_inv g start ?st'" using fs True by (auto simp: astar_inv_def)
          with ne True h old less Some show ?thesis
            by (simp add: astar_child_def Let_def map_get_def)
        qed
      qed
    qed
  qed
qed

lemma astar_step:
  fixes st :: "(string, int \<times> int \<times> string node, string \<rightharpoonup> int) astar_search"
  assumes inv: "astar_inv g start st"
  shows "case astar_body ident g goal tbl st of
           Inl st' \<Rightarrow> astar_inv g start st' \<and>
             card (reachable g start - explored st') < card (reachable g start - explored st)
         | Inr res \<Rightarrow> outcome_ok g start goal res"
proof (cases "frontier st = []")
  case True
  from inv have "frontier_inv g start (\<lambda>e. snd (snd e)) st" by (simp add: astar_inv_def)
  from no_path_ok [OF this] True show ?thesis by (simp add: astar_body_eq outcome_ok_def)
next
  case False
  let ?nd = "\<lambda>e :: int \<times> int \<times> string node. snd (snd e)"
  from inv have fi: "frontier_inv g start ?nd st"
    and fs: "dom (frontier_states st) = (\<lambda>e. state (?nd e)) ` set (frontier st)"
    by (simp_all add: astar_inv_def)
  obtain f i n where e: "hd (frontier st) = (f, i, n)" by (cases "hd (frontier st)") auto
  from heappop_Some [OF False, of astar_lt] e obtain rest where
    hp: "heappop astar_lt (frontier st) = Some ((f, i, n), rest)"
    and m: "mset (frontier st) = add_mset (f, i, n) (mset rest)" by auto
  note p = frontier_inv_pop [OF fi m]
  from mset_split_facts(1) [OF m] have se: "set (frontier st) = insert (f, i, n) (set rest)" .
  let ?fs = "(frontier_states st)(state n := None)"
  have dd: "dict_del (frontier_states st) (state n) = Inr ?fs"
    using fs se by (auto simp: dict_del_def)
  have dfs: "dom ?fs = (\<lambda>e. state (?nd e)) ` set rest"
    using fs se p(4) by auto
  let ?mid = "(after_pop ?nd n rest ?fs st)\<lparr>explored := insert (state n) (explored st)\<rparr>"
  show ?thesis
  proof (cases "state n = goal")
    case True
    with pop_found_ok [OF fi m, where goal = goal and n' = n and fs = ?fs and alg = "''astar''"]
      False hp dd show ?thesis by (simp add: astar_body_eq)
  next
    case ng: False
    show ?thesis
    proof (cases "expand n g")
      case (Inl err)
      with pop_expand_error_ok [OF fi m, where err = err and goal = goal] False ng hp dd
      show ?thesis by (simp add: astar_body_eq)
    next
      case (Inr children)
      let ?P = "\<lambda>s :: (string, int \<times> int \<times> string node, string \<rightharpoonup> int) astar_search.
                  astar_inv g start s \<and> explored s = explored ?mid"
      have "\<exists>st'. fold_err (astar_child ident goal tbl) children ?mid = Inr st' \<and> ?P st'"
      proof (rule fold_err_inv)
        show "?P ?mid" using p(1) dfs by (simp add: astar_inv_def)
      next
        fix c s assume c: "c \<in> set children" and s: "?P s"
        from expand_child_ok [OF Inr c] p(2) have "node_ok g start c" by simp
        with astar_child_keeps [of g start s c ident goal tbl] s
        show "\<exists>st'. astar_child ident goal tbl c s = Inr st' \<and> ?P st'" by auto
      qed
      then obtain st' where "fold_err (astar_child ident goal tbl) children ?mid = Inr st'" "?P st'"
        by blast
      with p(5) Inr False ng hp dd show ?thesis by (simp add: astar_body_eq)
    qed
  qed
qed

lemma astar_init_inv: "astar_inv g start (astar_init ident start h)"
  by (simp add: astar_inv_def frontier_inv_def astar_init_def node_ok_root root_node_def)

lemma astar_outcome:
  "\<exists>res. a_star_search ident g start goal tbl = Some res \<and> outcome_ok g start goal res"
proof (cases "start = goal")
  case True
  with trivial_ok [of 0 1 1 g start "''astar''"] show ?thesis
    by (simp add: a_star_search_def)
next
  case False
  obtain h where h: "get_heuristic start goal tbl = Inr h" using get_heuristic_Inr by blast
  have "\<exists>res. run_loop (astar_body ident g goal tbl) (astar_init ident start h) = Some res \<and>
          outcome_ok g start goal res"
    by (rule run_loop_total [where I = "astar_inv g start"
          and m = "\<lambda>st. card (reachable g start - explored st)"])
       (rule astar_init_inv, rule astar_step)
  with False h show ?thesis by (simp add: a_star_search_def)
qed

subsection \<open>Iterative deepening\<close>

lemma ids_loop_outcome:
  assumes "total_nodes_expanded acc \<le> total_nodes_generated acc"
    and "0 < k \<longrightarrow> 1 \<le> ids_max_frontier_size acc"
    and "total_nodes_expanded acc \<le> k * card (reachable g start)"
  shows "\<exists>res. ids_loop g start goal ds acc = Some res \<and>
           ids_outcome_ok g start goal (k + length ds) res"
  using assms
proof (induction ds arbitrary: acc k)
  case Nil
  then show ?case by (simp add: ids_outcome_ok_def ids_ok_def ids_result_def)
next
  case (Cons d ds)
  from dls_outcome [of g start goal d] obtain res where
    res: "depth_limited_search g start goal d = Some res" "outcome_ok g start goal res" by blast
  show ?case
  proof (cases res)
    case (Inl e)
    with res show ?thesis by (simp add: ids_outcome_ok_def outcome_ok_def)
  next
    case (Inr r)
    with res have ok: "result_ok g start goal r" by (simp add: outcome_ok_def)
    let ?acc = "ids_accumulate d r acc"
    from ok Cons.prems have a: "total_nodes_expanded ?acc \<le> total_nodes_generated ?acc"
      "0 < Suc k \<longrightarrow> 1 \<le> ids_max_frontier_size ?acc"
      "total_nodes_expanded ?acc \<le> Suc k * card (reachable g start)"
      by (auto simp: ids_accumulate_def result_ok_def)
    show ?thesis
    proof (cases "r_path r = []")
      case True
      from Cons.IH [OF a] True res Inr show ?thesis by (simp add: Let_def)
    next
      case False
      have "Suc k * card (reachable g start) \<le> (k + length (d # ds)) * card (reachable g start)"
        by (rule mult_le_mono1) simp
      with a(3) have "total_nodes_expanded ?acc \<le> (k + length (d # ds)) * card (reachable g start)"
        by (rule order_trans)
      with a(1,2) ok False have "ids_ok g start goal (k + length (d # ds))
          (ids_result (r_path r) (r_distance r) ?acc)"
        unfolding ids_ok_def ids_result_def result_ok_def by simp
      with False res Inr show ?thesis by (simp add: Let_def ids_outcome_ok_def)
    qed
  qed
qed

lemma ids_outcome:
  assumes "start \<noteq> goal"
  shows "\<exists>res. iterative_deepening_search g start goal max_depth = Some res \<and>
           ids_outcome_ok g start goal (nat max_depth) res"
  using ids_loop_outcome [of "\<lparr>total_nodes_expanded = 0, total_nodes_generated = 0,
              ids_max_frontier_size = 0, all_steps = []\<rparr>" 0 g start goal
            "map int [0..<nat max_depth]"] assms
  by (simp add: iterative_deepening_search_def)

section \<open>Paths of sound nodes\<close>

lemma path_root [simp]: "path (Node s None a c d) = [s]"
  by (simp add: path_def)

lemma path_child [simp]: "path (Node s (Some q) a c d) = path q @ [s]"
  by (simp add: path_def)

lemma path_nonempty [simp]: "path n \<noteq> []"
  by (cases n) (simp add: path_def)

lemma last_path [simp]: "last (path n) = state n"
  by (cases n) (simp add: path_def split: option.splits)

lemma path_ok_snoc:
  "p \<noteq> [] \<Longrightarrow> path_ok g (p @ [v]) = (path_ok g p \<and> edge_weight g (last p) v \<noteq> None)"
proof (induction p)
  case Nil
  then show ?case by simp
next
  case (Cons u p)
  show ?case
  proof (cases p)
    case Nil
    then show ?thesis by simp
  next
    case (Cons w q)
    with Cons.IH show ?thesis by simp
  qed
qed

lemma path_weight_snoc:
  "p \<noteq> [] \<Longrightarrow> path_weight g (p @ [v]) =
     path_weight g p + (case edge_weight g (last p) v of None \<Rightarrow> 0 | Some w \<Rightarrow> w)"
proof (induction p)
  case Nil
  then show ?case by simp
next
  case (Cons u p)
  show ?case
  proof (cases p)
    case Nil
    then show ?thesis by simp
  next
    case (Cons w q)
    with Cons.IH show ?thesis by simp
  qed
qed

lemma wf_edge_weight:
  assumes "wf_graph g" "map_of g u = Some nb" "(v, w) \<in> set nb"
  shows "edge_weight g u v = Some w"
proof -
  from assms(2) have "(u, nb) \<in> set g" by (rule map_of_SomeD)
  with assms(1) have "distinct (map fst nb)" by (auto simp: wf_graph_def)
  with assms(3) have "map_of nb v = Some w" by simp
  with assms(2) show ?thesis by (simp add: edge_weight_def)
qed

lemma node_ok_path:
  assumes "wf_graph g" "node_ok g start n"
  shows "path_ok g (path n) \<and> path_weight g (path n) = path_cost n \<and> hd (path n) = start"
  using assms(2)
proof (induction n)
  case (Node s p a c d)
  show ?case
  proof (cases p)
    case None
    with Node.prems show ?thesis by simp
  next
    case (Some q)
    with Node.prems obtain nb w where q: "node_ok g start q"
      and nb: "map_of g (state q) = Some nb" "(s, w) \<in> set nb" and c: "c = path_cost q + w"
      by auto
    from Node.IH [of q] Some q have ih: "path_ok g (path q)"
      "path_weight g (path q) = path_cost q" "hd (path q) = start" by simp_all
    from wf_edge_weight [OF assms(1) nb] have e: "edge_weight g (state q) s = Some w" .
    with ih c Some show ?thesis
      by (simp add: path_ok_snoc path_weight_snoc)
  qed
qed

lemma result_ok_path:
  assumes "wf_graph g" "r_path r \<noteq> []"
    and "\<exists>n. node_ok g start n \<and> state n = goal \<and> r_path r = path n \<and> r_distance r = path_cost n"
  shows "path_ok g (r_path r) \<and> r_distance r = path_weight g (r_path r) \<and>
         hd (r_path r) = start \<and> last (r_path r) = goal"
proof -
  from assms(3) obtain n where n: "node_ok g start n" "state n = goal" "r_path r = path n"
    "r_distance r = path_cost n" by blast
  from node_ok_path [OF assms(1) n(1)] n show ?thesis by simp
qed

section \<open>Invariants of bidirectional search\<close>

subsection \<open>Bidirectional search\<close>

lemma bi_set_forward_snoc [simp]:
  "bi_set_forward (ss @ [x]) s = ss @ [x\<lparr>s_current_forward := Some s\<rparr>]"
  by (simp add: bi_set_forward_def)

lemma bi_body_eq:
  "bi_body g rg st =
     (case forward_frontier st of
        [] \<Rightarrow> Inr (Inr (bi_result [] 0 st))
      | fn # rest \<Rightarrow>
          if backward_frontier st = [] then Inr (Inr (bi_result [] 0 st))
          else if state fn \<in> set (map fst (backward_explored st))
          then (case dict_get (backward_explored st) (state fn) of
                  Inl e \<Rightarrow> Inr (Inl e)
                | Inr bn \<Rightarrow> Inr (Inr (bi_meet fn bn (fwd_popped fn rest st))))
          else (case expand fn g of
                  Inl e \<Rightarrow> Inr (Inl e)
                | Inr children \<Rightarrow>
                    bi_backward rg (fold forward_child children (fwd_popped fn rest st))))"
  by (cases st)
    (simp add: bi_body_def bi_snapshot_def fwd_popped_def Let_def split: list.splits sum.splits)

lemma bi_backward_eq:
  "bi_backward rg st =
     (case backward_frontier st of
        [] \<Rightarrow> Inr (Inl IndexError)
      | bn # rest \<Rightarrow>
          if state bn \<in> set (map fst (forward_explored st))
          then (case dict_get (forward_explored st) (state bn) of
                  Inl e \<Rightarrow> Inr (Inl e)
                | Inr fn \<Rightarrow> Inr (Inr (bi_meet fn bn (bwd_popped bn rest st))))
          else (case expand bn rg of
                  Inl e \<Rightarrow> Inr (Inl e)
                | Inr children \<Rightarrow> Inl (fold backward_child children (bwd_popped bn rest st))))"
  by (cases st)
    (simp add: bi_backward_def bwd_popped_def Let_def split: list.splits sum.splits)

lemma fwd_popped_simps [simp]:
  "forward_frontier (fwd_popped fn rest st) = rest"
  "forward_explored (fwd_popped fn rest st) = dict_set (forward_explored st) (state fn) fn"
  "backward_frontier (fwd_popped fn rest st) = backward_frontier st"
  "backward_explored (fwd_popped fn rest st) = backward_explored st"
  "bi_nodes_expanded (fwd_popped fn rest st) = Suc (bi_nodes_expanded st)"
  "bi_nodes_generated (fwd_popped fn rest st) = bi_nodes_generated st"
  "bi_max_frontier_size (fwd_popped fn rest st) =
     max (bi_max_frontier_size st) (length (forward_frontier st) + length (backward_frontier st))"
  by (simp_all add: fwd_popped_def)

lemma bwd_popped_simps [simp]:
  "forward_frontier (bwd_popped bn rest st) = forward_frontier st"
  "forward_explored (bwd_popped bn rest st) = forward_explored st"
  "backward_frontier (bwd_popped bn rest st) = rest"
  "backward_explored (bwd_popped bn rest st) = dict_set (backward_explored st) (state bn) bn"
  "bi_nodes_expanded (bwd_popped bn rest st) = Suc (bi_nodes_expanded st)"
  "bi_nodes_generated (bwd_popped bn rest st) = bi_nodes_generated st"
  "bi_max_frontier_size (bwd_popped bn rest st) = bi_max_frontier_size st"
  by (simp_all add: bwd_popped_def)

lemma dict_set_new: "k \<notin> fst ` set d \<Longrightarrow> dict_set d k v = d @ [(k, v)]"
  by (induction d) auto

lemma path_butlast: "path n = butlast (path n) @ [state n]"
  by (metis append_butlast_last_id last_path path_nonempty)

lemma tl_rev_path: "tl (rev (path n)) = rev (butlast (path n))"
proof -
  from path_butlast [of n] obtain b where b: "path n = b @ [state n]" ..
  then show ?thesis by simp
qed

lemma notin_imageD: "y \<notin> f ` A \<Longrightarrow> x \<in> A \<Longrightarrow> f x \<noteq> y"
  by auto

lemma side_init: "side_inv g s [root_node s] []"
  by (simp add: side_inv_def root_node_def)

lemma side_pop:
  assumes "side_inv g s (n # rest) ex"
  shows "state n \<notin> fst ` set ex"
    and "side_inv g s rest (ex @ [(state n, n)])"
    and "node_ok g s n" "distinct (path n)"
    and "set (path n) \<subseteq> insert (state n) (fst ` set ex)"
    and "set (butlast (path n)) \<subseteq> fst ` set ex"
proof -
  from assms show "set (butlast (path n)) \<subseteq> fst ` set ex" by (simp add: side_inv_def)
  from assms show k: "state n \<notin> fst ` set ex" and ok: "node_ok g s n"
    and d: "distinct (path n)" by (simp_all add: side_inv_def)
  from assms have b: "set (butlast (path n)) \<subseteq> fst ` set ex" by (simp add: side_inv_def)
  have "set (path n) = insert (state n) (set (butlast (path n)))"
    by (subst path_butlast) simp
  with b show p: "set (path n) \<subseteq> insert (state n) (fst ` set ex)" by auto
  from assms have "state n \<notin> state ` set rest" by (simp add: side_inv_def)
  then have nr: "\<forall>m\<in>set rest. state m \<noteq> state n" by (blast dest: notin_imageD)
  show "side_inv g s rest (ex @ [(state n, n)])"
    unfolding side_inv_def using assms k ok d p nr
    by (auto simp: side_inv_def)
qed

lemma side_child:
  assumes inv: "side_inv g s fr ex" and n: "(state n, n) \<in> set ex"
    and e: "expand n g = Inr cs" and c: "c \<in> set cs"
    and new: "state c \<notin> fst ` set ex" "state c \<notin> state ` set fr"
  shows "side_inv g s (fr @ [c]) ex"
proof -
  from inv n have nok: "node_ok g s n" and nd: "distinct (path n)"
    and np: "set (path n) \<subseteq> fst ` set ex" by (auto simp: side_inv_def)
  from expand_child_ok [OF e c nok] have cok: "node_ok g s c" .
  from expand_child [OF e c] obtain w where
    "c = Node (state c) (Some n) (Some (state n, state c)) (path_cost n + w) (depth n + 1)"
    by blast
  then have pc: "path c = path n @ [state c]" by (metis path_child)
  from pc nd np new(1) have cd: "distinct (path c)" by auto
  from pc np have cb: "set (butlast (path c)) \<subseteq> fst ` set ex" by simp
  show ?thesis
    unfolding side_inv_def using inv cok cd cb new by (auto simp: side_inv_def)
qed

lemma side_keys:
  assumes "side_inv g s fr ex"
  shows "fst ` set ex \<subseteq> reachable g s" and "length ex \<le> card (reachable g s)"
proof -
  show sub: "fst ` set ex \<subseteq> reachable g s"
  proof
    fix k assume "k \<in> fst ` set ex"
    then obtain n where "(k, n) \<in> set ex" by auto
    with assms have "node_ok g s n" "state n = k" by (auto simp: side_inv_def)
    with node_ok_reachable [of g s n] show "k \<in> reachable g s" by simp
  qed
  from assms have "distinct (map fst ex)" by (simp add: side_inv_def)
  then have "card (set (map fst ex)) = length (map fst ex)" by (rule distinct_card)
  then have "card (fst ` set ex) = length ex" by simp
  moreover have "card (fst ` set ex) \<le> card (reachable g s)"
    using finite_reachable sub by (rule card_mono)
  ultimately show "length ex \<le> card (reachable g s)" by simp
qed

lemma side_lookup:
  assumes "side_inv g s fr ex" "k \<in> set (map fst ex)"
  shows "\<exists>n. dict_get ex k = Inr n \<and> node_ok g s n \<and> state n = k \<and> distinct (path n) \<and>
           set (path n) \<subseteq> fst ` set ex"
proof -
  from dict_get_key [OF assms(2)] obtain n where n: "dict_get ex k = Inr n" "map_of ex k = Some n"
    by blast
  from n(2) have "(k, n) \<in> set ex" by (rule map_of_SomeD)
  with assms(1) n(1) show ?thesis by (auto simp: side_inv_def)
qed

lemma meet_distinct:
  assumes "distinct (path fn)" "distinct (path bn)"
    and "set (path fn) \<inter> set (butlast (path bn)) = {}"
  shows "distinct (path fn @ tl (rev (path bn)))"
proof -
  from assms(2) have "distinct (butlast (path bn))" by (rule distinct_butlast)
  with assms(1,3) show ?thesis by (simp add: tl_rev_path)
qed

lemma butlast_not_last:
  assumes "distinct (path n)"
  shows "state n \<notin> set (butlast (path n))"
proof -
  from path_butlast [of n] obtain b where b: "path n = b @ [state n]" ..
  with assms show ?thesis by simp
qed

lemma forward_child_keeps:
  assumes core: "bi_core g rg start goal st" and n: "(state n, n) \<in> set (forward_explored st)"
    and e: "expand n g = Inr cs" and c: "c \<in> set cs"
  shows "bi_core g rg start goal (forward_child c st) \<and>
         forward_explored (forward_child c st) = forward_explored st \<and>
         backward_frontier (forward_child c st) = backward_frontier st \<and>
         backward_explored (forward_child c st) = backward_explored st \<and>
         bi_nodes_expanded (forward_child c st) = bi_nodes_expanded st"
proof (cases "state c \<notin> set (map fst (forward_explored st)) \<and>
              state c \<notin> set (map state (forward_frontier st))")
  case True
  from core have "side_inv g start (forward_frontier st) (forward_explored st)"
    by (simp add: bi_core_def)
  from side_child [OF this n e c] True
  have "side_inv g start (forward_frontier st @ [c]) (forward_explored st)" by simp
  with core True show ?thesis by (simp add: forward_child_def bi_core_def Let_def)
next
  case False
  then have "forward_child c st = st\<lparr>bi_nodes_generated := bi_nodes_generated st + 1\<rparr>"
    by (auto simp: forward_child_def Let_def)
  with core show ?thesis by (simp add: bi_core_def)
qed

lemma backward_child_keeps:
  assumes core: "bi_core g rg start goal st" and n: "(state n, n) \<in> set (backward_explored st)"
    and e: "expand n rg = Inr cs" and c: "c \<in> set cs"
  shows "bi_core g rg start goal (backward_child c st) \<and>
         backward_explored (backward_child c st) = backward_explored st \<and>
         forward_frontier (backward_child c st) = forward_frontier st \<and>
         forward_explored (backward_child c st) = forward_explored st \<and>
         bi_nodes_expanded (backward_child c st) = bi_nodes_expanded st"
proof (cases "state c \<notin> set (map fst (backward_explored st)) \<and>
              state c \<notin> set (map state (backward_frontier st))")
  case True
  from core have "side_inv rg goal (backward_frontier st) (backward_explored st)"
    by (simp add: bi_core_def)
  from side_child [OF this n e c] True
  have "side_inv rg goal (backward_frontier st @ [c]) (backward_explored st)" by simp
  with core True show ?thesis by (simp add: backward_child_def bi_core_def Let_def)
next
  case False
  then have "backward_child c st = st\<lparr>bi_nodes_generated := bi_nodes_generated st + 1\<rparr>"
    by (auto simp: backward_child_def Let_def)
  with core show ?thesis by (simp add: bi_core_def)
qed

lemma forward_children:
  assumes core: "bi_core g rg start goal st" and n: "(state n, n) \<in> set (forward_explored st)"
    and e: "expand n g = Inr cs"
  shows "bi_core g rg start goal (fold forward_child cs st) \<and>
         forward_explored (fold forward_child cs st) = forward_explored st \<and>
         backward_frontier (fold forward_child cs st) = backward_frontier st \<and>
         backward_explored (fold forward_child cs st) = backward_explored st \<and>
         bi_nodes_expanded (fold forward_child cs st) = bi_nodes_expanded st"
    (is "?P (fold forward_child cs st)")
proof (rule fold_inv)
  show "?P st" using core by simp
next
  fix c s assume c: "c \<in> set cs" and s: "?P s"
  from s n have "(state n, n) \<in> set (forward_explored s)" by simp
  from forward_child_keeps [OF _ this e c, of rg start goal] s show "?P (forward_child c s)"
    by simp
qed

lemma backward_children:
  assumes core: "bi_core g rg start goal st" and n: "(state n, n) \<in> set (backward_explored st)"
    and e: "expand n rg = Inr cs"
  shows "bi_core g rg start goal (fold backward_child cs st) \<and>
         backward_explored (fold backward_child cs st) = backward_explored st \<and>
         forward_frontier (fold backward_child cs st) = forward_frontier st \<and>
         forward_explored (fold backward_child cs st) = forward_explored st \<and>
         bi_nodes_expanded (fold backward_child cs st) = bi_nodes_expanded st"
    (is "?P (fold backward_child cs st)")
proof (rule fold_inv)
  show "?P st" using core by simp
next
  fix c s assume c: "c \<in> set cs" and s: "?P s"
  from s n have "(state n, n) \<in> set (backward_explored s)" by simp
  from backward_child_keeps [OF _ this e c, of g start goal] s show "?P (backward_child c s)"
    by simp
qed

lemma bi_meet_ok:
  assumes "node_ok g start fn" "node_ok rg goal bn" "state fn = state bn"
    and "distinct (path fn)" "distinct (path bn)"
    and "set (path fn) \<inter> set (butlast (path bn)) = {}"
    and "bi_nodes_expanded st \<le> bi_nodes_generated st" "1 \<le> bi_max_frontier_size st"
    and "bi_nodes_expanded st \<le> 2 * card (reachable g start)"
  shows "bi_result_ok g rg start goal (bi_meet fn bn st)"
proof -
  from meet_distinct [OF assms(4,5,6)] have "distinct (path fn @ tl (rev (path bn)))" .
  with assms(1,2,3) have "\<exists>fn' bn'. node_ok g start fn' \<and> node_ok rg goal bn' \<and>
      state fn' = state bn' \<and> path fn @ tl (rev (path bn)) = path fn' @ tl (rev (path bn')) \<and>
      path_cost fn + path_cost bn = path_cost fn' + path_cost bn' \<and>
      distinct (path fn @ tl (rev (path bn)))" by blast
  with assms(7,8,9) show ?thesis
    by (simp add: bi_result_ok_def bi_meet_def bi_result_def)
qed

lemma bi_no_path_ok:
  assumes "bi_inv g rg start goal st"
  shows "bi_result_ok g rg start goal (bi_result [] 0 st)"
proof -
  from assms have core: "bi_core g rg start goal st"
    and ne: "bi_nodes_expanded st = 2 * length (forward_explored st)" by (simp_all add: bi_inv_def)
  from core have "side_inv g start (forward_frontier st) (forward_explored st)"
    by (simp add: bi_core_def)
  from side_keys(2) [OF this] ne have "bi_nodes_expanded st \<le> 2 * card (reachable g start)"
    by simp
  with core show ?thesis by (simp add: bi_result_ok_def bi_result_def bi_core_def)
qed

lemma bi_backward_step:
  assumes core: "bi_core g rg start goal st"
    and bne: "backward_frontier st \<noteq> []"
    and disj: "fst ` set (forward_explored st) \<inter> fst ` set (backward_explored st) = {}"
    and cnt: "Suc (bi_nodes_expanded st) = 2 * length (forward_explored st)"
  shows "case bi_backward rg st of
           Inl st' \<Rightarrow> bi_inv g rg start goal st' \<and> forward_explored st' = forward_explored st
         | Inr res \<Rightarrow> bi_outcome_ok g rg start goal res"
proof -
  from bne obtain bn brest where bf: "backward_frontier st = bn # brest"
    by (cases "backward_frontier st") auto
  let ?fe = "forward_explored st" and ?be = "backward_explored st"
  from core have sfw: "side_inv g start (forward_frontier st) ?fe"
    and sbw: "side_inv rg goal (bn # brest) ?be"
    and c1: "bi_nodes_expanded st + length (forward_frontier st) + length (backward_frontier st)
             \<le> bi_nodes_generated st"
    and c2: "1 \<le> bi_max_frontier_size st"
    using bf by (simp_all add: bi_core_def)
  note sp = side_pop [OF sbw]
  from dict_set_new [OF sp(1)] have be': "dict_set ?be (state bn) bn = ?be @ [(state bn, bn)]" .
  let ?st6 = "bwd_popped bn brest st"
  have core6: "bi_core g rg start goal ?st6"
    using sfw sp(2) c1 c2 bf be' by (simp add: bi_core_def)
  note fk = side_keys [OF sfw]
  show ?thesis
  proof (cases "state bn \<in> set (map fst ?fe)")
    case True
    from side_lookup [OF sfw True] obtain fn where fn: "dict_get ?fe (state bn) = Inr fn"
      "node_ok g start fn" "state fn = state bn" "distinct (path fn)"
      "set (path fn) \<subseteq> fst ` set ?fe" by blast
    have "set (path fn) \<inter> set (butlast (path bn)) = {}"
      using fn(5) sp(6) disj by blast
    moreover have "bi_nodes_expanded ?st6 \<le> 2 * card (reachable g start)"
      using cnt fk(2) by simp
    moreover have "bi_nodes_expanded ?st6 \<le> bi_nodes_generated ?st6"
      using c1 bf by simp
    ultimately have "bi_result_ok g rg start goal (bi_meet fn bn ?st6)"
      using bi_meet_ok [OF fn(2) sp(3) fn(3) fn(4) sp(4)] c2 by simp
    with True fn(1) bf show ?thesis by (simp add: bi_backward_eq bi_outcome_ok_def)
  next
    case False
    show ?thesis
    proof (cases "expand bn rg")
      case (Inl err)
      from expand_Inl [OF Inl] node_ok_reachable [OF sp(3)] Inl False bf show ?thesis
        by (auto simp: bi_backward_eq bi_outcome_ok_def)
    next
      case (Inr cs)
      have mem: "(state bn, bn) \<in> set (backward_explored ?st6)" using be' by simp
      let ?st7 = "fold backward_child cs ?st6"
      from backward_children [OF core6 mem Inr]
      have k: "bi_core g rg start goal ?st7"
        "backward_explored ?st7 = ?be @ [(state bn, bn)]"
        "forward_explored ?st7 = ?fe" "bi_nodes_expanded ?st7 = Suc (bi_nodes_expanded st)"
        using be' by simp_all
      have "fst ` set ?fe \<inter> fst ` set (?be @ [(state bn, bn)]) = {}"
        using disj False by auto
      with k cnt have "bi_inv g rg start goal ?st7" by (simp add: bi_inv_def)
      with k(3) Inr False bf show ?thesis by (simp add: bi_backward_eq)
    qed
  qed
qed

lemma bi_step:
  assumes inv: "bi_inv g rg start goal st"
  shows "case bi_body g rg st of
           Inl st' \<Rightarrow> bi_inv g rg start goal st' \<and>
             card (reachable g start - fst ` set (forward_explored st'))
               < card (reachable g start - fst ` set (forward_explored st))
         | Inr res \<Rightarrow> bi_outcome_ok g rg start goal res"
proof (cases "forward_frontier st = [] \<or> backward_frontier st = []")
  case True
  with bi_no_path_ok [OF inv] show ?thesis
    by (auto simp: bi_body_eq bi_outcome_ok_def split: list.splits)
next
  case False
  then obtain fn rest where ff: "forward_frontier st = fn # rest"
    and bne: "backward_frontier st \<noteq> []" by (cases "forward_frontier st") auto
  let ?fe = "forward_explored st" and ?be = "backward_explored st"
  from inv have core: "bi_core g rg start goal st"
    and disj: "fst ` set ?fe \<inter> fst ` set ?be = {}"
    and cnt: "bi_nodes_expanded st = 2 * length ?fe" by (simp_all add: bi_inv_def)
  from core have sfw: "side_inv g start (fn # rest) ?fe"
    and sbw: "side_inv rg goal (backward_frontier st) ?be"
    and c1: "bi_nodes_expanded st + length (forward_frontier st) + length (backward_frontier st)
             \<le> bi_nodes_generated st"
    and c2: "1 \<le> bi_max_frontier_size st"
    using ff by (simp_all add: bi_core_def)
  note sp = side_pop [OF sfw]
  from dict_set_new [OF sp(1)] have fe': "dict_set ?fe (state fn) fn = ?fe @ [(state fn, fn)]" .
  let ?st4 = "fwd_popped fn rest st"
  have core4: "bi_core g rg start goal ?st4"
    using sbw sp(2) c1 c2 ff fe' by (simp add: bi_core_def)
  from side_keys(2) [OF sp(2)] have len: "Suc (length ?fe) \<le> card (reachable g start)" by simp
  show ?thesis
  proof (cases "state fn \<in> set (map fst ?be)")
    case True
    from side_lookup [OF sbw True] obtain bn where bn: "dict_get ?be (state fn) = Inr bn"
      "node_ok rg goal bn" "state bn = state fn" "distinct (path bn)"
      "set (path bn) \<subseteq> fst ` set ?be" by blast
    have "state fn \<notin> set (butlast (path bn))"
      using butlast_not_last [OF bn(4)] bn(3) by simp
    moreover have "set (butlast (path bn)) \<subseteq> fst ` set ?be"
      using bn(5) by (meson in_set_butlastD subset_iff)
    ultimately have "set (path fn) \<inter> set (butlast (path bn)) = {}"
      using sp(5) disj by blast
    moreover have "bi_nodes_expanded ?st4 \<le> 2 * card (reachable g start)"
      using cnt len by simp
    moreover have "bi_nodes_expanded ?st4 \<le> bi_nodes_generated ?st4"
      using c1 ff by simp
    ultimately have "bi_result_ok g rg start goal (bi_meet fn bn ?st4)"
      using bi_meet_ok [OF sp(3) bn(2) bn(3) [symmetric] sp(4) bn(4)] c2 by simp
    with True bn(1) ff bne show ?thesis by (simp add: bi_body_eq bi_outcome_ok_def)
  next
    case nomeet: False
    show ?thesis
    proof (cases "expand fn g")
      case (Inl err)
      from expand_Inl [OF Inl] node_ok_reachable [OF sp(3)] Inl nomeet ff bne show ?thesis
        by (auto simp: bi_body_eq bi_outcome_ok_def)
    next
      case (Inr cs)
      have mem: "(state fn, fn) \<in> set (forward_explored ?st4)" using fe' by simp
      let ?st5 = "fold forward_child cs ?st4"
      from forward_children [OF core4 mem Inr]
      have k: "bi_core g rg start goal ?st5"
        "forward_explored ?st5 = ?fe @ [(state fn, fn)]"
        "backward_frontier ?st5 = backward_frontier st"
        "backward_explored ?st5 = ?be" "bi_nodes_expanded ?st5 = Suc (bi_nodes_expanded st)"
        using fe' by simp_all
      have d5: "fst ` set (forward_explored ?st5) \<inter> fst ` set (backward_explored ?st5) = {}"
        using disj nomeet k(2,4) by auto
      have c5: "Suc (bi_nodes_expanded ?st5) = 2 * length (forward_explored ?st5)"
        using k(2,5) cnt by simp
      have b5: "backward_frontier ?st5 \<noteq> []" using k(3) bne by simp
      note bs = bi_backward_step [OF k(1) b5 d5 c5]
      have r: "state fn \<in> reachable g start" using sp(3) by (rule node_ok_reachable)
      have "reachable g start - fst ` set (?fe @ [(state fn, fn)])
            \<subset> reachable g start - fst ` set ?fe"
        using r sp(1) by auto
      then have m: "card (reachable g start - fst ` set (?fe @ [(state fn, fn)]))
            < card (reachable g start - fst ` set ?fe)"
        using finite_reachable [of g start] by (simp add: psubset_card_mono)
      have "bi_body g rg st = bi_backward rg ?st5"
        using Inr nomeet ff bne by (simp add: bi_body_eq)
      with bs m k(2) show ?thesis by (auto split: sum.splits)
    qed
  qed
qed

lemma bi_init_inv: "bi_inv g rg start goal (bi_init start goal)"
  by (simp add: bi_inv_def bi_core_def bi_init_def side_init)

lemma bi_loop_outcome:
  "\<exists>res. run_loop (bi_body g rg) (bi_init start goal) = Some res \<and>
         bi_outcome_ok g rg start goal res"
  by (rule run_loop_total [where I = "bi_inv g rg start goal"
        and m = "\<lambda>st. card (reachable g start - fst ` set (forward_explored st))"])
     (rule bi_init_inv, rule bi_step)

subsection \<open>The reverse graph\<close>

lemma map_of_dict_set: "map_of (dict_set d k v) = (map_of d)(k \<mapsto> v)"
  by (induction d) auto

lemma keys_dict_set: "fst ` set (dict_set d k v) = insert k (fst ` set d)"
  by (induction d k v rule: dict_set.induct) auto

lemma set_dict_set: "set (dict_set d k v) \<subseteq> insert (k, v) (set d)"
  by (induction d k v rule: dict_set.induct) auto

lemma fold_err_partial:
  assumes "fold_err f cs st = Inr st'" "P st"
    and "\<And>c s s'. c \<in> set cs \<Longrightarrow> P s \<Longrightarrow> f c s = Inr s' \<Longrightarrow> P s'"
  shows "P st'"
  using assms
proof (induction cs arbitrary: st)
  case Nil
  then show ?case by simp
next
  case (Cons c cs)
  from Cons.prems(1) obtain s1 where s1: "f c st = Inr s1" "fold_err f cs s1 = Inr st'"
    by (auto split: sum.splits)
  from Cons.prems(3) [of c st s1] Cons.prems(2) s1(1) have p1: "P s1" by simp
  have "\<And>c' s s'. c' \<in> set cs \<Longrightarrow> P s \<Longrightarrow> f c' s = Inr s' \<Longrightarrow> P s'"
    by (rule Cons.prems(3)) simp_all
  from Cons.IH [OF s1(2) p1 this] show ?case .
qed

lemma empty_dicts_keys:
  "fst ` set (fold (\<lambda>(city, neighbors) rg. dict_set rg city []) xs acc) =
     fst ` set acc \<union> fst ` set xs"
proof (induction xs arbitrary: acc)
  case Nil
  show ?case by simp
next
  case (Cons x xs)
  obtain city nbs where x: "x = (city, nbs)" by (cases x)
  have "fst ` set (fold (\<lambda>(city, neighbors) rg. dict_set rg city []) (x # xs) acc) =
        fst ` set (dict_set acc (fst x) []) \<union> fst ` set xs"
    using Cons.IH [of "dict_set acc city []"] x by simp
  also have "\<dots> = fst ` set acc \<union> fst ` set (x # xs)"
    unfolding keys_dict_set by (simp only: list.set image_insert) blast
  finally show ?case .
qed

lemma empty_dicts_vals:
  "(\<And>u nb. map_of acc u = Some nb \<Longrightarrow> nb = []) \<Longrightarrow>
   map_of (fold (\<lambda>(city, neighbors) rg. dict_set rg city []) xs acc) u = Some nb \<Longrightarrow> nb = []"
proof (induction xs arbitrary: acc)
  case Nil
  then show ?case by simp
next
  case (Cons x xs)
  obtain city nbs where x: "x = (city, nbs)" by (cases x)
  have a: "\<And>u nb. map_of (dict_set acc (fst x) []) u = Some nb \<Longrightarrow> nb = []"
    using Cons.prems(1) by (simp add: map_of_dict_set split: if_splits)
  from Cons.prems(2) x have "map_of (fold (\<lambda>(city, neighbors) rg. dict_set rg city []) xs
      (dict_set acc (fst x) [])) u = Some nb" by simp
  from Cons.IH [OF a this] show ?case .
qed

lemma reverse_edge_items:
  assumes "rev_items g rg" "(city, nbs) \<in> set g" "e \<in> set nbs"
    "reverse_edge city e rg = Inr rg'"
  shows "rev_items g rg'"
proof -
  obtain u0 w0 where e: "e = (u0, w0)" by (cases e)
  from assms(4) e obtain inner where inner: "map_of rg u0 = Some inner"
    and rg': "rg' = dict_set rg u0 (dict_set inner city w0)"
    by (auto simp: reverse_edge_def dict_get_def split: option.splits)
  from inner have "(u0, inner) \<in> set rg" by (rule map_of_SomeD)
  then have "u0 \<in> fst ` set rg" by (intro rev_image_eqI [of "(u0, inner)"]) simp_all
  with assms(1) rg' have keys: "fst ` set rg' = fst ` set g"
    by (auto simp: rev_items_def keys_dict_set)
  have "\<exists>nb'. (v, nb') \<in> set g \<and> (u, w) \<in> set nb'"
    if m: "map_of rg' u = Some nb" and i: "(v, w) \<in> set nb" for u nb v w
  proof (cases "u = u0")
    case True
    with m rg' have "nb = dict_set inner city w0" by (simp add: map_of_dict_set)
    with i set_dict_set [of inner city w0] have "(v, w) = (city, w0) \<or> (v, w) \<in> set inner"
      by auto
    then show ?thesis
    proof
      assume "(v, w) = (city, w0)"
      with assms(2,3) e True show ?thesis by auto
    next
      assume "(v, w) \<in> set inner"
      with assms(1) inner True show ?thesis by (auto simp: rev_items_def)
    qed
  next
    case False
    with m rg' have "map_of rg u = Some nb" by (simp add: map_of_dict_set)
    with assms(1) i show ?thesis by (auto simp: rev_items_def)
  qed
  with keys show ?thesis by (auto simp: rev_items_def)
qed

lemma make_reverse_graph_items:
  assumes "make_reverse_graph g = Inr rg"
  shows "rev_items g rg"
proof -
  let ?init = "fold (\<lambda>(city, neighbors) rg. dict_set rg city []) g ([] :: 'a graph)"
  have e1: "fst ` set ?init = fst ` set g"
    using empty_dicts_keys [where xs = g and acc = "[] :: 'a graph"] by simp
  have e2: "\<And>u nb. map_of ?init u = Some nb \<Longrightarrow> nb = []"
    by (rule empty_dicts_vals [where xs = g and acc = "[] :: 'a graph"]) simp_all
  have i: "rev_items g ?init"
    unfolding rev_items_def
  proof (intro conjI allI impI)
    show "fst ` set ?init = fst ` set g" by (rule e1)
  next
    fix u nb v w assume "map_of ?init u = Some nb" "(v, w) \<in> set nb"
    with e2 [of u nb] show "\<exists>nb'. (v, nb') \<in> set g \<and> (u, w) \<in> set nb'" by simp
  qed
  show ?thesis
  proof (rule fold_err_partial [where P = "rev_items g",
        OF assms [unfolded make_reverse_graph_def] i])
    fix c s s'
    assume c: "c \<in> set g" and s: "rev_items g s"
      and r: "(case c of (city, neighbors) \<Rightarrow> fold_err (reverse_edge city) neighbors) s = Inr s'"
    obtain city nbs where cn: "c = (city, nbs)" by (cases c)
    with r have r': "fold_err (reverse_edge city) nbs s = Inr s'" by simp
    show "rev_items g s'"
    proof (rule fold_err_partial [where P = "rev_items g", OF r' s])
      fix e t t' assume a: "e \<in> set nbs" "rev_items g t" "reverse_edge city e t = Inr t'"
      from c cn have "(city, nbs) \<in> set g" by simp
      from reverse_edge_items [OF a(2) this a(1) a(3)] show "rev_items g t'" .
    qed
  qed
qed

lemma make_reverse_graph_closed:
  assumes "closed_graph g"
  shows "\<exists>rg. make_reverse_graph g = Inr rg"
proof -
  let ?init = "fold (\<lambda>(city, neighbors) rg. dict_set rg city []) g ([] :: 'a graph)"
  let ?P = "\<lambda>rg :: 'a graph. fst ` set rg = fst ` set g"
  have i: "?P ?init"
    using empty_dicts_keys [where xs = g and acc = "[] :: 'a graph"] by simp
  have "\<exists>rg. fold_err (\<lambda>(city, neighbors) rg. fold_err (reverse_edge city) neighbors rg) g ?init
          = Inr rg \<and> ?P rg"
  proof (rule fold_err_inv [where P = ?P, OF i])
    fix c s assume c: "c \<in> set g" and s: "?P s"
    obtain city nbs where cn: "c = (city, nbs)" by (cases c)
    have "\<exists>s'. fold_err (reverse_edge city) nbs s = Inr s' \<and> ?P s'"
    proof (rule fold_err_inv [where P = ?P, OF s])
      fix e t assume e: "e \<in> set nbs" and t: "?P t"
      from assms c cn have sub: "set (map fst nbs) \<subseteq> set (map fst g)"
        unfolding closed_graph_def by blast
      from e have "fst e \<in> set (map fst nbs)" by simp
      with sub have "fst e \<in> set (map fst g)" by blast
      then have "fst e \<in> fst ` set g" by simp
      with t have "fst e \<in> set (map fst t)" by simp
      from dict_get_key [OF this] obtain inner where "dict_get t (fst e) = Inr inner" by blast
      moreover from \<open>fst e \<in> set (map fst t)\<close> have "insert (fst e) (fst ` set t) = fst ` set t"
        by auto
      ultimately show "\<exists>t'. reverse_edge city e t = Inr t' \<and> ?P t'"
        using t by (simp add: reverse_edge_def keys_dict_set)
    qed
    with cn show "\<exists>s'. (case c of (city, neighbors) \<Rightarrow>
        \<lambda>rg. fold_err (reverse_edge city) neighbors rg) s = Inr s' \<and> ?P s'" by simp
  qed
  then show ?thesis by (auto simp: make_reverse_graph_def)
qed

lemma hd_path: "node_ok g s n \<Longrightarrow> hd (path n) = s"
proof (induction n)
  case (Node st p a c d)
  show ?case
  proof (cases p)
    case None
    with Node.prems show ?thesis by simp
  next
    case (Some q)
    with Node.prems Node.IH [of q] show ?thesis by simp
  qed
qed

lemma rev_path_cons: "\<exists>r. rev (path n) = state n # r"
proof -
  from path_butlast [of n] obtain b where "path n = b @ [state n]" ..
  then show ?thesis by simp
qed

lemma rev_items_edge:
  assumes "wf_graph g" "rev_items g rg" "map_of rg u = Some nb" "(v, w) \<in> set nb"
  shows "edge_weight g v u = Some w"
proof -
  from assms(2) have "\<forall>u nb v w. map_of rg u = Some nb \<longrightarrow> (v, w) \<in> set nb \<longrightarrow>
        (\<exists>nb'. (v, nb') \<in> set g \<and> (u, w) \<in> set nb')"
    by (simp add: rev_items_def)
  from this [rule_format, OF assms(3,4)] obtain nb' where
    nb': "(v, nb') \<in> set g" "(u, w) \<in> set nb'" by (elim exE conjE)
  from assms(1) have "distinct (map fst g)" by (simp add: wf_graph_def)
  with nb'(1) have "map_of g v = Some nb'" by simp
  from wf_edge_weight [OF assms(1) this nb'(2)] show ?thesis .
qed

lemma rev_node_path:
  assumes "wf_graph g" "rev_items g rg" "node_ok rg goal n"
  shows "path_ok g (rev (path n)) \<and> path_weight g (rev (path n)) = path_cost n \<and>
         goal \<in> reachable g (state n)"
  using assms(3)
proof (induction n)
  case (Node s p a c d)
  show ?case
  proof (cases p)
    case None
    from Node.prems None have "s = goal" "c = 0" by simp_all
    with None show ?thesis by (simp add: reachable_start)
  next
    case (Some q)
    with Node.prems obtain nb w where q: "node_ok rg goal q"
      and nb: "map_of rg (state q) = Some nb" "(s, w) \<in> set nb" and c: "c = path_cost q + w"
      by auto
    from Node.IH [of q] Some q have ih: "path_ok g (rev (path q))"
      "path_weight g (rev (path q)) = path_cost q" "goal \<in> reachable g (state q)" by simp_all
    from rev_items_edge [OF assms(1,2) nb] have e: "edge_weight g s (state q) = Some w" .
    from rev_path_cons [of q] obtain r where r: "rev (path q) = state q # r" ..
    from e have sq: "(s, state q) \<in> edges g" by (simp add: edges_def)
    from ih(3) have "(state q, goal) \<in> (edges g)\<^sup>*" by (simp add: reachable_def)
    with sq have "(s, goal) \<in> (edges g)\<^sup>*" by (rule converse_rtrancl_into_rtrancl)
    then have rs: "goal \<in> reachable g s" by (simp add: reachable_def)
    have p: "rev (path (Node s p a c d)) = s # state q # r" using Some r by simp
    have "path_ok g (s # state q # r)" using ih(1) e r by simp
    moreover have "path_weight g (s # state q # r) = c" using ih(2) e r c by simp
    ultimately show ?thesis using rs unfolding p by simp
  qed
qed

lemma path_join_aux:
  "p \<noteq> [] \<Longrightarrow>
     path_ok g (p @ q) = (path_ok g p \<and> path_ok g (last p # q)) \<and>
     path_weight g (p @ q) = path_weight g p + path_weight g (last p # q)"
proof (induction p)
  case Nil
  then show ?case by simp
next
  case (Cons u p)
  show ?case
  proof (cases p)
    case Nil
    then show ?thesis by simp
  next
    case (Cons w p')
    with Cons.IH show ?thesis by simp
  qed
qed

lemma path_join:
  assumes "p \<noteq> []" "q \<noteq> []" "last p = hd q"
  shows "path_ok g (p @ tl q) = (path_ok g p \<and> path_ok g q) \<and>
     path_weight g (p @ tl q) = path_weight g p + path_weight g q"
proof -
  from assms(2,3) have "last p # tl q = q" by (cases q) auto
  with path_join_aux [OF assms(1), of g "tl q"] show ?thesis by simp
qed

lemma reachable_trans:
  "v \<in> reachable g s \<Longrightarrow> t \<in> reachable g v \<Longrightarrow> t \<in> reachable g s"
  by (auto simp: reachable_def)

text \<open>A met pair of sound nodes gives a walk of the graph from start to goal.\<close>

lemma meeting_path:
  assumes wf: "wf_graph g" and ri: "rev_items g rg"
    and fn: "node_ok g start fn" and bn: "node_ok rg goal bn" and st: "state fn = state bn"
  shows "path_ok g (path fn @ tl (rev (path bn)))"
    and "path_weight g (path fn @ tl (rev (path bn))) = path_cost fn + path_cost bn"
    and "hd (path fn @ tl (rev (path bn))) = start"
    and "last (path fn @ tl (rev (path bn))) = goal"
    and "goal \<in> reachable g start"
proof -
  note f = node_ok_path [OF wf fn]
  note b = rev_node_path [OF wf ri bn]
  have ne: "path fn \<noteq> []" "rev (path bn) \<noteq> []" by simp_all
  have l: "last (path fn) = hd (rev (path bn))" using st by (simp add: hd_rev)
  note j = path_join [OF ne l, of g]
  from j f b show "path_ok g (path fn @ tl (rev (path bn)))" by simp
  from j f b show "path_weight g (path fn @ tl (rev (path bn))) = path_cost fn + path_cost bn"
    by simp
  from f show "hd (path fn @ tl (rev (path bn))) = start" by simp
  have lg: "last (rev (path bn)) = goal" using hd_path [OF bn] by (simp add: last_rev)
  from rev_path_cons [of bn] obtain r where r: "rev (path bn) = state bn # r" ..
  show "last (path fn @ tl (rev (path bn))) = goal"
  proof (cases "r = []")
    case True
    with r lg have "state bn = goal" by simp
    with True r st show ?thesis by simp
  next
    case False
    with r lg have "last r = goal" by simp
    with False r show ?thesis by simp
  qed
  show "goal \<in> reachable g start"
  proof (rule reachable_trans)
    show "state fn \<in> reachable g start" using fn by (rule node_ok_reachable)
    show "goal \<in> reachable g (state fn)" using b st by simp
  qed
qed

section \<open>Properties of results\<close>

section \<open>From outcomes to results\<close>

lemma outcome_counters: "outcome_ok g s t (Inr r) \<Longrightarrow> counters_ok r"
  by (simp add: outcome_ok_def result_ok_def counters_ok_def)

lemma outcome_valid:
  assumes "wf_graph g" "outcome_ok g s t (Inr r)"
  shows "valid_path_result g s t r"
proof (cases "r_path r = []")
  case True
  then show ?thesis by (simp add: valid_path_result_def)
next
  case False
  with assms(2) have "\<exists>n. node_ok g s n \<and> state n = t \<and> r_path r = path n \<and>
      r_distance r = path_cost n" by (simp add: outcome_ok_def result_ok_def)
  from result_ok_path [OF assms(1) False this] show ?thesis by (simp add: valid_path_result_def)
qed

lemma outcome_exhausted:
  assumes "closed_from g s" "t \<notin> reachable g s" "outcome_ok g s t res"
  shows "\<exists>r. res = Inr r \<and> exhausted g s 1 r"
proof (cases res)
  case (Inl e)
  with assms(3) obtain k where "k \<in> reachable g s" "k \<notin> set (map fst g)"
    by (auto simp: outcome_ok_def)
  with assms(1) show ?thesis by (auto simp: closed_from_def)
next
  case (Inr r)
  with assms(3) have ok: "result_ok g s t r" by (simp add: outcome_ok_def)
  have "r_path r = []"
  proof (rule ccontr)
    assume "r_path r \<noteq> []"
    with ok obtain n where "node_ok g s n" "state n = t" by (auto simp: result_ok_def)
    with node_ok_reachable [of g s n] assms(2) show False by simp
  qed
  with ok Inr show ?thesis by (simp add: exhausted_def result_ok_def)
qed

lemma ids_outcome_exhausted:
  assumes "closed_from g s" "t \<notin> reachable g s" "ids_outcome_ok g s t k res"
  shows "\<exists>r. res = Inr r \<and> exhausted g s k r"
proof (cases res)
  case (Inl e)
  with assms(3) obtain x where "x \<in> reachable g s" "x \<notin> set (map fst g)"
    by (auto simp: ids_outcome_ok_def)
  with assms(1) show ?thesis by (auto simp: closed_from_def)
next
  case (Inr r)
  with assms(3) have ok: "ids_ok g s t k r" by (simp add: ids_outcome_ok_def)
  have "r_path r = []"
  proof (rule ccontr)
    assume "r_path r \<noteq> []"
    with ok obtain n where "node_ok g s n" "state n = t" by (auto simp: ids_ok_def)
    with node_ok_reachable [of g s n] assms(2) show False by simp
  qed
  with ok Inr show ?thesis by (simp add: exhausted_def ids_ok_def)
qed

lemma ids_outcome_valid:
  assumes "wf_graph g" "ids_outcome_ok g s t k (Inr r)"
  shows "valid_path_result g s t r"
proof (cases "r_path r = []")
  case True
  then show ?thesis by (simp add: valid_path_result_def)
next
  case False
  with assms(2) have "\<exists>n. node_ok g s n \<and> state n = t \<and> r_path r = path n \<and>
      r_distance r = path_cost n" by (simp add: ids_outcome_ok_def ids_ok_def)
  from result_ok_path [OF assms(1) False this] show ?thesis by (simp add: valid_path_result_def)
qed

lemma ids_trivial:
  "iterative_deepening_search g s s md = Some (Inr (trivial_result ''ids'' s 1 1 1))"
  by (simp add: iterative_deepening_search_def)

lemma trivial_valid: "valid_path_result g s s (trivial_result alg s ne ng mfs)"
  by (simp add: valid_path_result_def trivial_result_def)

subsection \<open>Bidirectional search as a whole\<close>

lemma bidirectional_cases:
  assumes "start \<noteq> goal"
  shows "(\<exists>e. make_reverse_graph g = Inl e \<and> bidirectional_search g start goal = Some (Inl e)) \<or>
         (\<exists>rg res. make_reverse_graph g = Inr rg \<and> rev_items g rg \<and>
            bidirectional_search g start goal = Some res \<and> bi_outcome_ok g rg start goal res)"
proof (cases "make_reverse_graph g")
  case (Inl e)
  with assms show ?thesis by (simp add: bidirectional_search_def)
next
  case (Inr rg)
  from bi_loop_outcome [of g rg start goal] obtain res where
    "run_loop (bi_body g rg) (bi_init start goal) = Some res" "bi_outcome_ok g rg start goal res"
    by blast
  with Inr assms make_reverse_graph_items [OF Inr] show ?thesis
    by (simp add: bidirectional_search_def)
qed

lemma bi_trivial:
  "bidirectional_search g s s = Some (Inr (trivial_result ''bidirectional'' s 0 2 2))"
  by (simp add: bidirectional_search_def)

lemma bi_returns_counters: "returns (bidirectional_search g start goal) counters_ok"
proof (cases "start = goal")
  case True
  then show ?thesis by (simp add: returns_def bi_trivial counters_ok_def trivial_result_def)
next
  case False
  from bidirectional_cases [OF False, of g] show ?thesis
    by (auto simp: returns_def bi_outcome_ok_def bi_result_ok_def counters_ok_def)
qed

lemma bi_returns_valid:
  assumes "wf_graph g"
  shows "returns (bidirectional_search g start goal) (valid_path_result g start goal)"
proof (cases "start = goal")
  case True
  then show ?thesis by (simp add: returns_def bi_trivial trivial_valid)
next
  case False
  show ?thesis
    unfolding returns_def
  proof (intro allI impI)
    fix r assume r: "bidirectional_search g start goal = Some (Inr r)"
    with bidirectional_cases [OF False, of g] obtain rg where rg: "rev_items g rg"
      and ok: "bi_result_ok g rg start goal r" by (auto simp: bi_outcome_ok_def)
    show "valid_path_result g start goal r"
    proof (cases "r_path r = []")
      case True
      then show ?thesis by (simp add: valid_path_result_def)
    next
      case ne: False
      with ok obtain fn bn where m: "node_ok g start fn" "node_ok rg goal bn"
        "state fn = state bn" "r_path r = path fn @ tl (rev (path bn))"
        "r_distance r = path_cost fn + path_cost bn" by (auto simp: bi_result_ok_def)
      from meeting_path [OF assms rg m(1,2,3)] m(4,5) show ?thesis
        by (simp add: valid_path_result_def)
    qed
  qed
qed

section \<open>Results on the scenario graph\<close>

lemma returned_path:
  "map_option (map_sum id r_path) out = Some (Inr p) \<Longrightarrow> \<exists>r. out = Some (Inr r) \<and> r_path r = p"
  by (cases out) (auto simp: map_sum_def split: sum.splits)

lemma scenario_bfs:
  "map_option (map_sum id r_path) (breadth_first_search scenario_graph ''A'' ''C'') =
     Some (Inr [''A'', ''C''])"
  by code_simp

lemma scenario_dfs:
  "map_option (map_sum id r_path) (depth_first_search scenario_graph ''A'' ''C'') =
     Some (Inr [''A'', ''C''])"
  by code_simp

lemma scenario_ucs:
  "map_option (map_sum id r_path) (uniform_cost_search scenario_graph ''A'' ''C'') =
     Some (Inr [''A'', ''B'', ''C''])"
  by code_simp

lemma scenario_dls:
  "map_option (map_sum id r_path) (depth_limited_search scenario_graph ''A'' ''C'' 10) =
     Some (Inr [''A'', ''C''])"
  by code_simp

lemma scenario_ids:
  "map_option (map_sum id r_path) (iterative_deepening_search scenario_graph ''A'' ''C'' 100) =
     Some (Inr [''A'', ''C''])"
  by code_simp

lemma scenario_bidirectional:
  "map_option (map_sum id r_path) (bidirectional_search scenario_graph ''A'' ''C'') =
     Some (Inr [''A'', ''C''])"
  by code_simp

lemma scenario_greedy:
  "map_option (map_sum id r_path) (greedy_search scenario_graph ''A'' ''C'' zero_table) =
     Some (Inr [''A'', ''C''])"
  by code_simp

lemma scenario_astar:
  "map_option (map_sum id r_path)
     (a_star_search (\<lambda>k. int k) scenario_graph ''A'' ''C'' zero_table) =
     Some (Inr [''A'', ''B'', ''C''])"
  by (simp add: eval_defs scenario_graph_def zero_table_def)

lemma returns_witness:
  assumes "returns out P" "map_option (map_sum id r_path) out = Some (Inr p)"
  shows "returns_with out P"
proof -
  from returned_path [OF assms(2)] obtain r where "out = Some (Inr r)" by blast
  with assms(1) show ?thesis by (auto simp: returns_def returns_with_def)
qed

lemma returns_outcome:
  assumes "\<exists>res. out = Some res \<and> outcome_ok g s t res"
  shows "returns out counters_ok" and "wf_graph g \<Longrightarrow> returns out (valid_path_result g s t)"
proof -
  from assms obtain res where res: "out = Some res" "outcome_ok g s t res" by blast
  show "returns out counters_ok"
    unfolding returns_def using res outcome_counters [of g s t] by auto
  assume "wf_graph g"
  then show "returns out (valid_path_result g s t)"
    unfolding returns_def using res outcome_valid [of g s t] by auto
qed

lemma ids_returns_counters:
  "returns (iterative_deepening_search g start goal max_depth)
     (\<lambda>r. r_nodes_expanded r \<le> r_nodes_generated r \<and>
          (start = goal \<or> 0 < max_depth \<longrightarrow> 1 \<le> r_max_frontier_size r))"
proof (cases "start = goal")
  case True
  then show ?thesis by (simp add: returns_def ids_trivial trivial_result_def)
next
  case False
  from ids_outcome [OF False, of g max_depth] False show ?thesis
    by (auto simp: returns_def ids_outcome_ok_def ids_ok_def)
qed

lemma ids_returns_valid:
  assumes "wf_graph g"
  shows "returns (iterative_deepening_search g start goal max_depth)
           (valid_path_result g start goal)"
proof (cases "start = goal")
  case True
  then show ?thesis by (simp add: returns_def ids_trivial trivial_valid)
next
  case False
  from ids_outcome [OF False, of g max_depth] ids_outcome_valid [OF assms, of start goal]
  show ?thesis by (auto simp: returns_def)
qed

section \<open>Monotonic metrics\<close>

text \<open>
  C8: whatever the graph, the start and the goal, every result that one of the eight
  algorithms returns has \<open>nodes_generated \<ge> nodes_expanded\<close> and \<open>max_frontier_size \<ge> 1\<close>;
  for iterative deepening the frontier exists only when a round is run: with
  \<open>max_depth > 0\<close>, or in the trivial case \<open>start = goal\<close>, which reports 1.
\<close>

theorem metrics_monotonic:
  "returns (breadth_first_search g start goal) counters_ok \<and>
   returns (depth_first_search g start goal) counters_ok \<and>
   returns (uniform_cost_search g start goal) counters_ok \<and>
   returns (depth_limited_search g start goal depth_limit) counters_ok \<and>
   returns (iterative_deepening_search g start goal max_depth)
     (\<lambda>r. r_nodes_expanded r \<le> r_nodes_generated r \<and>
          (start = goal \<or> 0 < max_depth \<longrightarrow> 1 \<le> r_max_frontier_size r)) \<and>
   returns (bidirectional_search g start goal) counters_ok \<and>
   returns (greedy_search sg s t tbl) counters_ok \<and>
   returns (a_star_search ident sg s t tbl) counters_ok"
  using returns_outcome(1) [OF bfs_outcome, of g start goal]
    returns_outcome(1) [OF dfs_outcome, of g start goal]
    returns_outcome(1) [OF ucs_outcome, of g start goal]
    returns_outcome(1) [OF dls_outcome, of g start goal depth_limit]
    ids_returns_counters [of g start goal max_depth]
    bi_returns_counters [of g start goal]
    returns_outcome(1) [OF greedy_outcome, of sg s t tbl]
    returns_outcome(1) [OF astar_outcome, of ident sg s t tbl]
  by blast

theorem metrics_monotonic_witness:
  "returns_with (breadth_first_search scenario_graph ''A'' ''C'') counters_ok \<and>
   returns_with (depth_first_search scenario_graph ''A'' ''C'') counters_ok \<and>
   returns_with (uniform_cost_search scenario_graph ''A'' ''C'') counters_ok \<and>
   returns_with (depth_limited_search scenario_graph ''A'' ''C'' 10) counters_ok \<and>
   returns_with (iterative_deepening_search scenario_graph ''A'' ''C'' 100)
     (\<lambda>r. r_nodes_expanded r \<le> r_nodes_generated r \<and>
          (''A'' = ''C'' \<or> (0::int) < 100 \<longrightarrow> 1 \<le> r_max_frontier_size r)) \<and>
   returns_with (bidirectional_search scenario_graph ''A'' ''C'') counters_ok \<and>
   returns_with (greedy_search scenario_graph ''A'' ''C'' zero_table) counters_ok \<and>
   returns_with (a_star_search (\<lambda>k. int k) scenario_graph ''A'' ''C'' zero_table) counters_ok"
proof -
  note t = metrics_monotonic [of scenario_graph "''A''" "''C''" 10 100 scenario_graph
      "''A''" "''C''" zero_table "\<lambda>k. int k"]
  from t have "returns (breadth_first_search scenario_graph ''A'' ''C'') counters_ok" by blast
  note a = returns_witness [OF this scenario_bfs]
  from t have "returns (depth_first_search scenario_graph ''A'' ''C'') counters_ok" by blast
  note b = returns_witness [OF this scenario_dfs]
  from t have "returns (uniform_cost_search scenario_graph ''A'' ''C'') counters_ok" by blast
  note c = returns_witness [OF this scenario_ucs]
  from t have "returns (depth_limited_search scenario_graph ''A'' ''C'' 10) counters_ok" by blast
  note d = returns_witness [OF this scenario_dls]
  from t have "returns (iterative_deepening_search scenario_graph ''A'' ''C'' 100)
     (\<lambda>r. r_nodes_expanded r \<le> r_nodes_generated r \<and>
          (''A'' = ''C'' \<or> (0::int) < 100 \<longrightarrow> 1 \<le> r_max_frontier_size r))" by blast
  note e = returns_witness [OF this scenario_ids]
  from t have "returns (bidirectional_search scenario_graph ''A'' ''C'') counters_ok" by blast
  note f = returns_witness [OF this scenario_bidirectional]
  from t have "returns (greedy_search scenario_graph ''A'' ''C'' zero_table) counters_ok" by blast
  note g = returns_witness [OF this scenario_greedy]
  from t have "returns (a_star_search (\<lambda>k. int k) scenario_graph ''A'' ''C'' zero_table)
      counters_ok" by blast
  note h = returns_witness [OF this scenario_astar]
  from a b c d e f g h show ?thesis by blast
qed

section \<open>Path validity\<close>

lemma wf_scenario: "wf_graph scenario_graph"
  by (simp add: wf_graph_def scenario_graph_def)

text \<open>
  C2: for every algorithm and every graph (a dict of dicts, so without repeated keys), a
  returned result with a non-empty path has consecutive elements of the path adjacent in the
  graph, a distance equal to the sum of the traversed edge weights, and a path that begins at
  start and ends at goal.
\<close>

theorem path_validity:
  assumes "wf_graph g" "wf_graph sg"
  shows
  "returns (breadth_first_search g start goal) (valid_path_result g start goal) \<and>
   returns (depth_first_search g start goal) (valid_path_result g start goal) \<and>
   returns (uniform_cost_search g start goal) (valid_path_result g start goal) \<and>
   returns (depth_limited_search g start goal depth_limit) (valid_path_result g start goal) \<and>
   returns (iterative_deepening_search g start goal max_depth)
     (valid_path_result g start goal) \<and>
   returns (bidirectional_search g start goal) (valid_path_result g start goal) \<and>
   returns (greedy_search sg s t tbl) (valid_path_result sg s t) \<and>
   returns (a_star_search ident sg s t tbl) (valid_path_result sg s t)"
  using returns_outcome(2) [OF bfs_outcome assms(1), of start goal]
    returns_outcome(2) [OF dfs_outcome assms(1), of start goal]
    returns_outcome(2) [OF ucs_outcome assms(1), of start goal]
    returns_outcome(2) [OF dls_outcome assms(1), of start goal depth_limit]
    ids_returns_valid [OF assms(1), of start goal max_depth]
    bi_returns_valid [OF assms(1), of start goal]
    returns_outcome(2) [OF greedy_outcome assms(2), of s t tbl]
    returns_outcome(2) [OF astar_outcome assms(2), of ident s t tbl]
  by blast

theorem path_validity_witness:
  "wf_graph scenario_graph \<and>
   returns_with (breadth_first_search scenario_graph ''A'' ''C'')
     (valid_path_result scenario_graph ''A'' ''C'') \<and>
   returns_with (depth_first_search scenario_graph ''A'' ''C'')
     (valid_path_result scenario_graph ''A'' ''C'') \<and>
   returns_with (uniform_cost_search scenario_graph ''A'' ''C'')
     (valid_path_result scenario_graph ''A'' ''C'') \<and>
   returns_with (depth_limited_search scenario_graph ''A'' ''C'' 10)
     (valid_path_result scenario_graph ''A'' ''C'') \<and>
   returns_with (iterative_deepening_search scenario_graph ''A'' ''C'' 100)
     (valid_path_result scenario_graph ''A'' ''C'') \<and>
   returns_with (bidirectional_search scenario_graph ''A'' ''C'')
     (valid_path_result scenario_graph ''A'' ''C'') \<and>
   returns_with (greedy_search scenario_graph ''A'' ''C'' zero_table)
     (valid_path_result scenario_graph ''A'' ''C'') \<and>
   returns_with (a_star_search (\<lambda>k. int k) scenario_graph ''A'' ''C'' zero_table)
     (valid_path_result scenario_graph ''A'' ''C'')"
proof -
  note t = path_validity [OF wf_scenario wf_scenario, of "''A''" "''C''" 10 100
      "''A''" "''C''" zero_table "\<lambda>k. int k"]
  from t have "returns (breadth_first_search scenario_graph ''A'' ''C'')
      (valid_path_result scenario_graph ''A'' ''C'')" by blast
  note a = returns_witness [OF this scenario_bfs]
  from t have "returns (depth_first_search scenario_graph ''A'' ''C'')
      (valid_path_result scenario_graph ''A'' ''C'')" by blast
  note b = returns_witness [OF this scenario_dfs]
  from t have "returns (uniform_cost_search scenario_graph ''A'' ''C'')
      (valid_path_result scenario_graph ''A'' ''C'')" by blast
  note c = returns_witness [OF this scenario_ucs]
  from t have "returns (depth_limited_search scenario_graph ''A'' ''C'' 10)
      (valid_path_result scenario_graph ''A'' ''C'')" by blast
  note d = returns_witness [OF this scenario_dls]
  from t have "returns (iterative_deepening_search scenario_graph ''A'' ''C'' 100)
      (valid_path_result scenario_graph ''A'' ''C'')" by blast
  note e = returns_witness [OF this scenario_ids]
  from t have "returns (bidirectional_search scenario_graph ''A'' ''C'')
      (valid_path_result scenario_graph ''A'' ''C'')" by blast
  note f = returns_witness [OF this scenario_bidirectional]
  from t have "returns (greedy_search scenario_graph ''A'' ''C'' zero_table)
      (valid_path_result scenario_graph ''A'' ''C'')" by blast
  note g = returns_witness [OF this scenario_greedy]
  from t have "returns (a_star_search (\<lambda>k. int k) scenario_graph ''A'' ''C'' zero_table)
      (valid_path_result scenario_graph ''A'' ''C'')" by blast
  note h = returns_witness [OF this scenario_astar]
  from wf_scenario a b c d e f g h show ?thesis by blast
qed

section \<open>Unreachable goals\<close>

lemma returns_with_exhausted:
  assumes "\<exists>res. out = Some res \<and> outcome_ok g s t res" "closed_from g s" "t \<notin> reachable g s"
  shows "returns_with out (exhausted g s 1)"
proof -
  from assms(1) obtain res where res: "out = Some res" "outcome_ok g s t res" by blast
  from outcome_exhausted [OF assms(2,3) res(2)] res(1) show ?thesis
    by (auto simp: returns_with_def)
qed

lemma ids_returns_with_exhausted:
  assumes "closed_from g s" "t \<notin> reachable g s"
  shows "returns_with (iterative_deepening_search g s t max_depth)
           (exhausted g s (nat max_depth))"
proof -
  from assms(2) have "s \<noteq> t" using reachable_start [of s g] by auto
  from ids_outcome [OF this, of g max_depth] obtain res where
    res: "iterative_deepening_search g s t max_depth = Some res"
    "ids_outcome_ok g s t (nat max_depth) res" by blast
  from ids_outcome_exhausted [OF assms res(2)] res(1) show ?thesis
    by (auto simp: returns_with_def)
qed

lemma rev_reachable_keys:
  assumes "rev_items g rg" "t \<in> set (map fst g)" "k \<in> reachable rg t"
  shows "k \<in> set (map fst rg)"
proof -
  from assms(3) have "(t, k) \<in> (edges rg)\<^sup>*" by (simp add: reachable_def)
  then show ?thesis
  proof (cases rule: rtranclE)
    case base
    with assms(1,2) show ?thesis by (simp add: rev_items_def)
  next
    case (step u)
    then have "edge_weight rg u k \<noteq> None" by (simp add: edges_def)
    then obtain nb w where nb: "map_of rg u = Some nb" "map_of nb k = Some w"
      by (auto simp: edge_weight_def split: option.splits)
    from nb(2) have "(k, w) \<in> set nb" by (rule map_of_SomeD)
    with assms(1) nb(1) have "\<exists>nb'. (k, nb') \<in> set g \<and> (u, w) \<in> set nb'"
      unfolding rev_items_def by (elim conjE allE impE) assumption+
    then obtain nb' where "(k, nb') \<in> set g" by (elim exE conjE)
    then have "k \<in> fst ` set g" by (intro rev_image_eqI [of "(k, nb')"]) simp_all
    with assms(1) show ?thesis by (simp add: rev_items_def)
  qed
qed

lemma bi_returns_with_exhausted:
  assumes wf: "wf_graph g" and cg: "closed_graph g" and cf: "closed_from g start"
    and gk: "goal \<in> set (map fst g)" and un: "goal \<notin> reachable g start"
  shows "returns_with (bidirectional_search g start goal) (exhausted g start 2)"
proof -
  from un have ne: "start \<noteq> goal" using reachable_start [of start g] by auto
  from make_reverse_graph_closed [OF cg] obtain rg0 where "make_reverse_graph g = Inr rg0" ..
  with bidirectional_cases [OF ne, of g] obtain rg res where
    ri: "rev_items g rg" and res: "bidirectional_search g start goal = Some res"
    and ok: "bi_outcome_ok g rg start goal res" by auto
  show ?thesis
  proof (cases res)
    case (Inl e)
    with ok obtain k where k: "k \<in> reachable g start \<and> k \<notin> set (map fst g) \<or>
        k \<in> reachable rg goal \<and> k \<notin> set (map fst rg)" by (auto simp: bi_outcome_ok_def)
    then show ?thesis
    proof
      assume "k \<in> reachable g start \<and> k \<notin> set (map fst g)"
      with cf show ?thesis by (auto simp: closed_from_def)
    next
      assume a: "k \<in> reachable rg goal \<and> k \<notin> set (map fst rg)"
      with rev_reachable_keys [OF ri gk, of k] show ?thesis by simp
    qed
  next
    case (Inr r)
    with ok have rok: "bi_result_ok g rg start goal r" by (simp add: bi_outcome_ok_def)
    have "r_path r = []"
    proof (rule ccontr)
      assume "r_path r \<noteq> []"
      with rok obtain fn bn where "node_ok g start fn" "node_ok rg goal bn" "state fn = state bn"
        by (auto simp: bi_result_ok_def)
      from meeting_path(5) [OF wf ri this] un show False by simp
    qed
    with rok have "exhausted g start 2 r" by (simp add: exhausted_def bi_result_ok_def)
    with res Inr show ?thesis by (auto simp: returns_with_def)
  qed
qed

text \<open>
  C7, as the code has it: on a graph in which every state reachable from the start is a key
  and the goal is not reachable from the start, every algorithm terminates without an
  exception and returns no path and distance 0. Breadth-first, depth-first, uniform-cost,
  depth-limited, greedy and A* search expand at most as many nodes as there are states
  reachable from the start; iterative deepening at most \<open>max_depth\<close> times as many;
  bidirectional search, on a graph in which every neighbour and the goal are keys, at most
  twice as many.
\<close>

theorem unreachable_goal:
  assumes "closed_from g start" "goal \<notin> reachable g start"
    and "closed_from sg s" "t \<notin> reachable sg s"
  shows
  "returns_with (breadth_first_search g start goal) (exhausted g start 1) \<and>
   returns_with (depth_first_search g start goal) (exhausted g start 1) \<and>
   returns_with (uniform_cost_search g start goal) (exhausted g start 1) \<and>
   returns_with (depth_limited_search g start goal depth_limit) (exhausted g start 1) \<and>
   returns_with (iterative_deepening_search g start goal max_depth)
     (exhausted g start (nat max_depth)) \<and>
   (wf_graph g \<and> closed_graph g \<and> goal \<in> set (map fst g) \<longrightarrow>
      returns_with (bidirectional_search g start goal) (exhausted g start 2)) \<and>
   returns_with (greedy_search sg s t tbl) (exhausted sg s 1) \<and>
   returns_with (a_star_search ident sg s t tbl) (exhausted sg s 1)"
  using returns_with_exhausted [OF bfs_outcome assms(1,2)]
    returns_with_exhausted [OF dfs_outcome assms(1,2)]
    returns_with_exhausted [OF ucs_outcome assms(1,2)]
    returns_with_exhausted [OF dls_outcome assms(1,2), of depth_limit]
    ids_returns_with_exhausted [OF assms(1,2), of max_depth]
    bi_returns_with_exhausted [OF _ _ assms(1) _ assms(2)]
    returns_with_exhausted [OF greedy_outcome assms(3,4), of tbl]
    returns_with_exhausted [OF astar_outcome assms(3,4), of ident tbl]
  by blast

lemma reachable_within:
  assumes "s \<in> S" and "\<And>u v. u \<in> S \<Longrightarrow> (u, v) \<in> edges g \<Longrightarrow> v \<in> S"
  shows "reachable g s \<subseteq> S"
proof
  fix v assume "v \<in> reachable g s"
  then have "(s, v) \<in> (edges g)\<^sup>*" by (simp add: reachable_def)
  then show "v \<in> S"
  proof (induction rule: rtrancl_induct)
    case base
    show ?case by (rule assms(1))
  next
    case (step y z)
    from assms(2) [OF step.IH step.hyps(2)] show ?case .
  qed
qed

lemma scenario_reachable: "reachable scenario_graph ''A'' \<subseteq> {''A'', ''B'', ''C''}"
proof (rule reachable_within)
  show "''A'' \<in> {''A'', ''B'', ''C''}" by simp
next
  fix u v assume "u \<in> {''A'', ''B'', ''C''}" "(u, v) \<in> edges scenario_graph"
  then show "v \<in> {''A'', ''B'', ''C''}"
    by (auto simp: edges_def edge_weight_def scenario_graph_def split: if_splits)
qed

lemma scenario_closed_from: "closed_from scenario_graph ''A''"
  using scenario_reachable by (auto simp: closed_from_def scenario_graph_def)

lemma scenario_unreachable: "''D'' \<notin> reachable scenario_graph ''A''"
  using scenario_reachable by auto

lemma scenario_closed: "closed_graph scenario_graph"
  by (simp add: closed_graph_def scenario_graph_def)

theorem unreachable_goal_witness:
  "closed_from scenario_graph ''A'' \<and> ''D'' \<notin> reachable scenario_graph ''A'' \<and>
   wf_graph scenario_graph \<and> closed_graph scenario_graph \<and>
   ''D'' \<in> set (map fst scenario_graph) \<and>
   returns_with (breadth_first_search scenario_graph ''A'' ''D'')
     (exhausted scenario_graph ''A'' 1) \<and>
   returns_with (depth_first_search scenario_graph ''A'' ''D'')
     (exhausted scenario_graph ''A'' 1) \<and>
   returns_with (uniform_cost_search scenario_graph ''A'' ''D'')
     (exhausted scenario_graph ''A'' 1) \<and>
   returns_with (depth_limited_search scenario_graph ''A'' ''D'' 10)
     (exhausted scenario_graph ''A'' 1) \<and>
   returns_with (iterative_deepening_search scenario_graph ''A'' ''D'' 100)
     (exhausted scenario_graph ''A'' (nat 100)) \<and>
   returns_with (bidirectional_search scenario_graph ''A'' ''D'')
     (exhausted scenario_graph ''A'' 2) \<and>
   returns_with (greedy_search scenario_graph ''A'' ''D'' zero_table)
     (exhausted scenario_graph ''A'' 1) \<and>
   returns_with (a_star_search (\<lambda>k. int k) scenario_graph ''A'' ''D'' zero_table)
     (exhausted scenario_graph ''A'' 1)"
proof -
  have k: "''D'' \<in> set (map fst scenario_graph)" by (simp add: scenario_graph_def)
  note t = unreachable_goal [OF scenario_closed_from scenario_unreachable
      scenario_closed_from scenario_unreachable, of 10 100 zero_table "\<lambda>k. int k"]
  from t wf_scenario scenario_closed k scenario_closed_from scenario_unreachable
  show ?thesis by blast
qed

text \<open>
  C7 as stated fails: on two states without edges, with the goal unreachable from the start,
  one state is reachable from the start but bidirectional search reports two expansions,
  one on each side.
\<close>

theorem unreachable_goal_bidirectional_expands_twice:
  "closed_from two_islands ''A'' \<and> ''C'' \<notin> reachable two_islands ''A'' \<and>
   ''A'' \<in> set (map fst two_islands) \<and> ''C'' \<in> set (map fst two_islands) \<and>
   card (reachable two_islands ''A'') = 1 \<and>
   map_option (map_sum id r_nodes_expanded) (bidirectional_search two_islands ''A'' ''C'') =
     Some (Inr 2)"
proof -
  have sub: "reachable two_islands ''A'' \<subseteq> {''A''}"
  proof (rule reachable_within)
    show "''A'' \<in> {''A''}" by simp
  next
    fix u v assume "u \<in> {''A''}" "(u, v) \<in> edges two_islands"
    then show "v \<in> {''A''}"
      by (auto simp: edges_def edge_weight_def two_islands_def split: if_splits)
  qed
  with reachable_start [of "''A''" two_islands] have r: "reachable two_islands ''A'' = {''A''}"
    by auto
  have e: "map_option (map_sum id r_nodes_expanded)
      (bidirectional_search two_islands ''A'' ''C'') = Some (Inr 2)" by code_simp
  from r e show ?thesis by (simp add: closed_from_def two_islands_def)
qed

section \<open>The bound of bidirectional search\<close>

lemma distinct_count_list: "distinct xs \<Longrightarrow> x \<in> set xs \<Longrightarrow> count_list xs x = 1"
proof (induction xs)
  case Nil
  then show ?case by simp
next
  case (Cons y xs)
  show ?case
  proof (cases "x = y")
    case True
    with Cons.prems have "x \<notin> set xs" by simp
    then have "count_list xs x = 0" by (simp add: count_list_0_iff)
    with True show ?thesis by simp
  next
    case False
    with Cons show ?thesis by simp
  qed
qed

lemma walk_bound:
  assumes "shortest_distance g s t d" "p \<noteq> []" "hd p = s" "last p = t" "path_ok g p"
  shows "d \<le> path_weight g p"
  using assms by (simp add: shortest_distance_def walk_def)

text \<open>
  C5: on a graph whose every neighbour is a key, a result of bidirectional search with a
  non-empty path has a distance that is not below the true shortest-path distance, and a
  path whose consecutive elements are adjacent in the graph. The path is the path of a
  forward node followed by the reversed path, without its first element, of a backward node
  of the constructed reverse graph; both nodes have the same state, which occurs exactly once
  in the path; the distance is the sum of the two path costs.
\<close>

theorem bidirectional_bound:
  assumes "wf_graph g" "closed_graph g"
    and "bidirectional_search g start goal = Some (Inr r)" "r_path r \<noteq> []"
  shows "(\<forall>d. shortest_distance g start goal d \<longrightarrow> d \<le> r_distance r) \<and>
         path_ok g (r_path r) \<and>
         (\<exists>rg fn bn. make_reverse_graph g = Inr rg \<and>
            node_ok g start fn \<and> node_ok rg goal bn \<and> state fn = state bn \<and>
            r_path r = path fn @ tl (rev (path bn)) \<and>
            r_distance r = path_cost fn + path_cost bn \<and>
            count_list (r_path r) (state fn) = 1)"
proof -
  from bi_returns_valid [OF assms(1), of start goal] assms(3,4)
  have v: "path_ok g (r_path r)" "r_distance r = path_weight g (r_path r)"
    "hd (r_path r) = start" "last (r_path r) = goal"
    by (simp_all add: returns_def valid_path_result_def)
  have b: "\<forall>d. shortest_distance g start goal d \<longrightarrow> d \<le> r_distance r"
    using walk_bound [OF _ assms(4) v(3,4,1)] v(2) by simp
  from make_reverse_graph_closed [OF assms(2)] obtain rg where rg: "make_reverse_graph g = Inr rg" ..
  have "\<exists>fn bn. node_ok g start fn \<and> node_ok rg goal bn \<and> state fn = state bn \<and>
            r_path r = path fn @ tl (rev (path bn)) \<and>
            r_distance r = path_cost fn + path_cost bn \<and>
            count_list (r_path r) (state fn) = 1"
  proof (cases "start = goal")
    case True
    with assms(3) have r: "r = trivial_result ''bidirectional'' start 0 2 2"
      by (simp add: bi_trivial)
    have "node_ok g start (root_node start) \<and> node_ok rg goal (root_node goal) \<and>
        state (root_node start) = state (root_node goal) \<and>
        r_path r = path (root_node start) @ tl (rev (path (root_node goal))) \<and>
        r_distance r = path_cost (root_node start) + path_cost (root_node goal) \<and>
        count_list (r_path r) (state (root_node start)) = 1"
      using True r by (simp add: root_node_def trivial_result_def)
    then show ?thesis by blast
  next
    case False
    from bidirectional_cases [OF False, of g] rg assms(3)
    have "bi_result_ok g rg start goal r" by (auto simp: bi_outcome_ok_def)
    with assms(4) obtain fn bn where m: "node_ok g start fn" "node_ok rg goal bn"
      "state fn = state bn" "r_path r = path fn @ tl (rev (path bn))"
      "r_distance r = path_cost fn + path_cost bn" "distinct (r_path r)"
      by (auto simp: bi_result_ok_def)
    have "state fn \<in> set (path fn)" by (metis last_in_set last_path path_nonempty)
    with m(4) have "state fn \<in> set (r_path r)" by simp
    from distinct_count_list [OF m(6) this] m(1-5) show ?thesis by blast
  qed
  with v(1) b rg show ?thesis by blast
qed

theorem bidirectional_bound_witness:
  "\<exists>r. wf_graph scenario_graph \<and> closed_graph scenario_graph \<and>
     bidirectional_search scenario_graph ''A'' ''C'' = Some (Inr r) \<and> r_path r \<noteq> [] \<and>
     (\<forall>d. shortest_distance scenario_graph ''A'' ''C'' d \<longrightarrow> d \<le> r_distance r) \<and>
     path_ok scenario_graph (r_path r) \<and>
     (\<exists>rg fn bn. make_reverse_graph scenario_graph = Inr rg \<and>
        node_ok scenario_graph ''A'' fn \<and> node_ok rg ''C'' bn \<and> state fn = state bn \<and>
        r_path r = path fn @ tl (rev (path bn)) \<and>
        r_distance r = path_cost fn + path_cost bn \<and>
        count_list (r_path r) (state fn) = 1)"
proof -
  from returned_path [OF scenario_bidirectional] obtain r where
    r: "bidirectional_search scenario_graph ''A'' ''C'' = Some (Inr r)" "r_path r = [''A'', ''C'']"
    by blast
  then have ne: "r_path r \<noteq> []" by simp
  from bidirectional_bound [OF wf_scenario scenario_closed r(1) ne] wf_scenario scenario_closed
    r(1) ne show ?thesis by blast
qed

section \<open>The trace of a search\<close>

lemma loop_state_step:
  "loop_state body s0 k = Some st \<Longrightarrow> i < k \<Longrightarrow>
     \<exists>sti st'. loop_state body s0 i = Some sti \<and> body sti = Inl st'"
proof (induction k arbitrary: st)
  case 0
  then show ?case by simp
next
  case (Suc k)
  from Suc.prems(1) obtain sk where sk: "loop_state body s0 k = Some sk" "body sk = Inl st"
    by (auto split: option.splits sum.splits)
  show ?case
  proof (cases "i < k")
    case True
    from Suc.IH [OF sk(1) True] show ?thesis .
  next
    case False
    with Suc.prems(2) have "i = k" by simp
    with sk show ?thesis by blast
  qed
qed

lemma trace_generic:
  fixes body :: "('a, 'e, 's, 'z) search_scheme \<Rightarrow>
      ('a, 'e, 's, 'z) search_scheme + ('a error + ('a, 'a step) result)"
  assumes run: "run_loop body s0 = Some (Inr r)"
    and init: "steps s0 = []" "nodes_expanded s0 = 0"
    and grow: "\<And>st st'. body st = Inl st' \<Longrightarrow>
        \<exists>e. pop (frontier st) = Some e \<and> steps st' = steps st @ [snapshot_of nd e st] \<and>
            nodes_expanded st' = Suc (nodes_expanded st)"
    and fin: "\<And>st. body st = Inr (Inr r) \<Longrightarrow>
        (r_steps r = steps st \<and> r_nodes_expanded r = nodes_expanded st) \<or>
        (\<exists>e. pop (frontier st) = Some e \<and> r_steps r = steps st @ [snapshot_of nd e st] \<and>
            r_nodes_expanded r = Suc (nodes_expanded st))"
  shows "trace_ok body s0 nd pop r"
proof -
  define snap where "snap st = snapshot_of nd (the (pop (frontier st))) st"
    for st :: "('a, 'e, 's, 'z) search_scheme"
  have g: "steps st' = steps st @ [snap st] \<and> nodes_expanded st' = Suc (nodes_expanded st)"
    if "body st = Inl st'" for st st'
    using grow [OF that] by (auto simp: snap_def)
  from run_loop_reaches [OF run] obtain k st where
    k: "loop_state body s0 k = Some st" and b: "body st = Inr (Inr r)" by blast
  from loop_trace [where body = body and stp = steps and cnt = nodes_expanded and snap = snap,
      OF g init k]
  have t: "nodes_expanded st = k" "length (steps st) = k"
    "\<forall>i<k. \<exists>sti. loop_state body s0 i = Some sti \<and> steps st ! i = snap sti" by simp_all
  have old: "\<exists>sti e. loop_state body s0 i = Some sti \<and> pop (frontier sti) = Some e \<and>
      steps st ! i = snapshot_of nd e sti" if i: "i < k" for i
  proof -
    from t(3) i obtain sti where s1: "loop_state body s0 i = Some sti" "steps st ! i = snap sti"
      by blast
    from loop_state_step [OF k i] s1(1) obtain st' where "body sti = Inl st'" by auto
    from grow [OF this] obtain e where "pop (frontier sti) = Some e" by blast
    with s1 show ?thesis by (auto simp: snap_def)
  qed
  from fin [OF b] show ?thesis
  proof
    assume a: "r_steps r = steps st \<and> r_nodes_expanded r = nodes_expanded st"
    with t old show ?thesis by (simp add: trace_ok_def)
  next
    assume "\<exists>e. pop (frontier st) = Some e \<and> r_steps r = steps st @ [snapshot_of nd e st] \<and>
        r_nodes_expanded r = Suc (nodes_expanded st)"
    then obtain e where e: "pop (frontier st) = Some e"
      "r_steps r = steps st @ [snapshot_of nd e st]"
      "r_nodes_expanded r = Suc (nodes_expanded st)" by blast
    have "\<exists>sti e'. loop_state body s0 i = Some sti \<and> pop (frontier sti) = Some e' \<and>
        r_steps r ! i = snapshot_of nd e' sti" if i: "i < Suc k" for i
    proof (cases "i < k")
      case True
      from old [OF True] e(2) t(2) True show ?thesis by (simp add: nth_append)
    next
      case False
      with i have "i = k" by simp
      with k e t(2) show ?thesis by (auto simp: nth_append)
    qed
    with e t show ?thesis by (simp add: trace_ok_def)
  qed
qed


section \<open>The loops append one snapshot per pop\<close>

lemma bfs_fold_keeps:
  "steps (fold bfs_child cs st) = steps st \<and>
   nodes_expanded (fold bfs_child cs st) = nodes_expanded st"
  by (induction cs arbitrary: st) (simp_all add: bfs_child_def Let_def)

lemma dfs_fold_keeps:
  "steps (fold dfs_child cs st) = steps st \<and>
   nodes_expanded (fold dfs_child cs st) = nodes_expanded st"
  by (induction cs arbitrary: st) (simp_all add: dfs_child_def Let_def)

lemma ucs_fold_keeps:
  "steps (fold ucs_child cs st) = steps st \<and>
   nodes_expanded (fold ucs_child cs st) = nodes_expanded st"
  by (induction cs arbitrary: st) (simp_all add: ucs_child_def Let_def)

lemma greedy_child_keeps_trace:
  "greedy_child goal tbl c st = Inr st' \<Longrightarrow>
     steps st' = steps st \<and> nodes_expanded st' = nodes_expanded st"
  by (auto simp: greedy_child_def Let_def split: if_splits sum.splits)

lemma astar_child_keeps_trace:
  "astar_child ident goal tbl c st = Inr st' \<Longrightarrow>
     steps st' = steps st \<and> nodes_expanded st' = nodes_expanded st"
  by (auto simp: astar_child_def Let_def split: if_splits sum.splits option.splits)

lemma greedy_fold_keeps:
  assumes "fold_err (greedy_child goal tbl) cs st = Inr st'"
  shows "steps st' = steps st \<and> nodes_expanded st' = nodes_expanded st"
  by (rule fold_err_partial [OF assms, where
        P = "\<lambda>s. steps s = steps st \<and> nodes_expanded s = nodes_expanded st"])
     (auto dest: greedy_child_keeps_trace)

lemma astar_fold_keeps:
  assumes "fold_err (astar_child ident goal tbl) cs st = Inr st'"
  shows "steps st' = steps st \<and> nodes_expanded st' = nodes_expanded st"
  by (rule fold_err_partial [OF assms, where
        P = "\<lambda>s. steps s = steps st \<and> nodes_expanded s = nodes_expanded st"])
     (auto dest: astar_child_keeps_trace)

lemma snapshot_of_after_pop:
  "steps (after_pop nd (nd e) rest fs st) = steps st @ [snapshot_of nd e st]"
  by (simp add: snapshot_of_def)

lemma bfs_trace_grow:
  assumes "bfs_body g goal st = Inl st'"
  shows "\<exists>e. popleft (frontier st) = Some e \<and> steps st' = steps st @ [snapshot_of id e st] \<and>
    nodes_expanded st' = Suc (nodes_expanded st)"
  using assms unfolding bfs_body_eq
  by (auto simp: popleft_def snapshot_of_def bfs_fold_keeps split: list.splits if_splits sum.splits)

lemma bfs_trace_fin:
  assumes "bfs_body g goal st = Inr (Inr r)"
  shows "(r_steps r = steps st \<and> r_nodes_expanded r = nodes_expanded st) \<or>
    (\<exists>e. popleft (frontier st) = Some e \<and> r_steps r = steps st @ [snapshot_of id e st] \<and>
        r_nodes_expanded r = Suc (nodes_expanded st))"
  using assms unfolding bfs_body_eq
  by (auto simp: popleft_def snapshot_of_def found_def no_path_def
      split: list.splits if_splits sum.splits)

lemma dfs_trace_grow:
  assumes "dfs_body g goal st = Inl st'"
  shows "\<exists>e. pop_last (frontier st) = Some e \<and> steps st' = steps st @ [snapshot_of id e st] \<and>
    nodes_expanded st' = Suc (nodes_expanded st)"
  using assms unfolding dfs_body_eq
  by (auto simp: pop_last_def snapshot_of_def dfs_fold_keeps Let_def split: if_splits sum.splits)

lemma dfs_trace_fin:
  assumes "dfs_body g goal st = Inr (Inr r)"
  shows "(r_steps r = steps st \<and> r_nodes_expanded r = nodes_expanded st) \<or>
    (\<exists>e. pop_last (frontier st) = Some e \<and> r_steps r = steps st @ [snapshot_of id e st] \<and>
        r_nodes_expanded r = Suc (nodes_expanded st))"
  using assms unfolding dfs_body_eq
  by (auto simp: pop_last_def snapshot_of_def found_def no_path_def Let_def
      split: if_splits sum.splits)

lemma dls_trace_grow:
  assumes "dls_body g goal depth_limit st = Inl st'"
  shows "\<exists>e. pop_last (frontier st) = Some e \<and> steps st' = steps st @ [snapshot_of id e st] \<and>
    nodes_expanded st' = Suc (nodes_expanded st)"
  using assms unfolding dls_body_eq
  by (auto simp: pop_last_def snapshot_of_def dfs_fold_keeps Let_def split: if_splits sum.splits)

lemma dls_trace_fin:
  assumes "dls_body g goal depth_limit st = Inr (Inr r)"
  shows "(r_steps r = steps st \<and> r_nodes_expanded r = nodes_expanded st) \<or>
    (\<exists>e. pop_last (frontier st) = Some e \<and> r_steps r = steps st @ [snapshot_of id e st] \<and>
        r_nodes_expanded r = Suc (nodes_expanded st))"
  using assms unfolding dls_body_eq
  by (auto simp: pop_last_def snapshot_of_def found_def no_path_def Let_def
      split: if_splits sum.splits)

lemma ucs_trace_grow:
  assumes "ucs_body g goal st = Inl st'"
  shows "\<exists>e. heap_top ucs_lt (frontier st) = Some e \<and>
    steps st' = steps st @ [snapshot_of snd e st] \<and>
    nodes_expanded st' = Suc (nodes_expanded st)"
  using assms unfolding ucs_body_eq
  by (auto simp: heap_top_def snapshot_of_def ucs_fold_keeps
      split: if_splits sum.splits option.splits)

lemma ucs_trace_fin:
  assumes "ucs_body g goal st = Inr (Inr r)"
  shows "(r_steps r = steps st \<and> r_nodes_expanded r = nodes_expanded st) \<or>
    (\<exists>e. heap_top ucs_lt (frontier st) = Some e \<and>
        r_steps r = steps st @ [snapshot_of snd e st] \<and>
        r_nodes_expanded r = Suc (nodes_expanded st))"
  using assms unfolding ucs_body_eq
  by (auto simp: heap_top_def snapshot_of_def found_def no_path_def
      split: if_splits sum.splits option.splits)

lemma greedy_trace_grow:
  assumes "greedy_body g goal tbl st = Inl st'"
  shows "\<exists>e. heap_top ucs_lt (frontier st) = Some e \<and>
    steps st' = steps st @ [snapshot_of snd e st] \<and>
    nodes_expanded st' = Suc (nodes_expanded st)"
  using assms unfolding greedy_body_eq
  by (auto simp: heap_top_def snapshot_of_def dest!: greedy_fold_keeps
      split: if_splits sum.splits option.splits)

lemma greedy_trace_fin:
  assumes "greedy_body g goal tbl st = Inr (Inr r)"
  shows "(r_steps r = steps st \<and> r_nodes_expanded r = nodes_expanded st) \<or>
    (\<exists>e. heap_top ucs_lt (frontier st) = Some e \<and>
        r_steps r = steps st @ [snapshot_of snd e st] \<and>
        r_nodes_expanded r = Suc (nodes_expanded st))"
  using assms unfolding greedy_body_eq
  by (auto simp: heap_top_def snapshot_of_def found_def no_path_def
      split: if_splits sum.splits option.splits)

lemma astar_trace_grow:
  assumes "astar_body ident g goal tbl st = Inl st'"
  shows "\<exists>e. heap_top astar_lt (frontier st) = Some e \<and>
    steps st' = steps st @ [snapshot_of (\<lambda>e. snd (snd e)) e st] \<and>
    nodes_expanded st' = Suc (nodes_expanded st)"
  using assms unfolding astar_body_eq
  by (auto simp: heap_top_def snapshot_of_def dest!: astar_fold_keeps
      split: if_splits sum.splits option.splits)

lemma astar_trace_fin:
  assumes "astar_body ident g goal tbl st = Inr (Inr r)"
  shows "(r_steps r = steps st \<and> r_nodes_expanded r = nodes_expanded st) \<or>
    (\<exists>e. heap_top astar_lt (frontier st) = Some e \<and>
        r_steps r = steps st @ [snapshot_of (\<lambda>e. snd (snd e)) e st] \<and>
        r_nodes_expanded r = Suc (nodes_expanded st))"
  using assms unfolding astar_body_eq
  by (auto simp: heap_top_def snapshot_of_def found_def no_path_def
      split: if_splits sum.splits option.splits)


lemma returns_trace:
  fixes body :: "('a, 'e, 's, 'z) search_scheme \<Rightarrow>
      ('a, 'e, 's, 'z) search_scheme + ('a error + ('a, 'a step) result)"
  assumes init: "steps s0 = []" "nodes_expanded s0 = 0"
    and grow: "\<And>st st'. body st = Inl st' \<Longrightarrow>
        \<exists>e. pop (frontier st) = Some e \<and> steps st' = steps st @ [snapshot_of nd e st] \<and>
            nodes_expanded st' = Suc (nodes_expanded st)"
    and fin: "\<And>st r. body st = Inr (Inr r) \<Longrightarrow>
        (r_steps r = steps st \<and> r_nodes_expanded r = nodes_expanded st) \<or>
        (\<exists>e. pop (frontier st) = Some e \<and> r_steps r = steps st @ [snapshot_of nd e st] \<and>
            r_nodes_expanded r = Suc (nodes_expanded st))"
  shows "returns (run_loop body s0) (trace_ok body s0 nd pop)"
  unfolding returns_def
proof (intro allI impI)
  fix r assume "run_loop body s0 = Some (Inr r)"
  from trace_generic [OF this init grow fin] show "trace_ok body s0 nd pop r" by blast
qed

lemma bfs_returns_trace:
  "start \<noteq> goal \<Longrightarrow>
     returns (breadth_first_search g start goal)
       (trace_ok (bfs_body g goal) (bfs_init start) id popleft)"
  unfolding breadth_first_search_def
  by (simp, intro impI returns_trace, simp add: bfs_init_def, simp add: bfs_init_def,
      erule bfs_trace_grow, erule bfs_trace_fin)

lemma dfs_returns_trace:
  "start \<noteq> goal \<Longrightarrow>
     returns (depth_first_search g start goal)
       (trace_ok (dfs_body g goal) (stack_init start) id pop_last)"
  unfolding depth_first_search_def
  by (simp, intro impI returns_trace, simp add: stack_init_def, simp add: stack_init_def,
      erule dfs_trace_grow, erule dfs_trace_fin)

lemma dls_returns_trace:
  "start \<noteq> goal \<Longrightarrow>
     returns (depth_limited_search g start goal depth_limit)
       (trace_ok (dls_body g goal depth_limit) (stack_init start) id pop_last)"
  unfolding depth_limited_search_def
  by (simp, intro impI returns_trace, simp add: stack_init_def, simp add: stack_init_def,
      erule dls_trace_grow, erule dls_trace_fin)

lemma ucs_returns_trace:
  "start \<noteq> goal \<Longrightarrow>
     returns (uniform_cost_search g start goal)
       (trace_ok (ucs_body g goal) (ucs_init start) snd (heap_top ucs_lt))"
  unfolding uniform_cost_search_def
  by (simp, intro impI returns_trace, simp add: ucs_init_def, simp add: ucs_init_def,
      erule ucs_trace_grow, erule ucs_trace_fin)

lemma greedy_returns_trace:
  "s \<noteq> t \<Longrightarrow> get_heuristic s t tbl = Inr h \<Longrightarrow>
     returns (greedy_search sg s t tbl)
       (trace_ok (greedy_body sg t tbl) (greedy_init s h) snd (heap_top ucs_lt))"
  unfolding greedy_search_def
  by (simp, intro impI returns_trace, simp add: greedy_init_def, simp add: greedy_init_def,
      erule greedy_trace_grow, erule greedy_trace_fin)

lemma astar_returns_trace:
  "s \<noteq> t \<Longrightarrow> get_heuristic s t tbl = Inr h \<Longrightarrow>
     returns (a_star_search ident sg s t tbl)
       (trace_ok (astar_body ident sg t tbl) (astar_init ident s h) (\<lambda>e. snd (snd e))
          (heap_top astar_lt))"
  unfolding a_star_search_def
  by (simp, intro impI returns_trace, simp add: astar_init_def, simp add: astar_init_def,
      erule astar_trace_grow, erule astar_trace_fin)

lemma scenario_heuristic: "get_heuristic ''A'' ''C'' zero_table = Inr 0"
  by (simp add: get_heuristic_def)

text \<open>
  C9: for each unidirectional algorithm (BFS, DFS, UCS, DLS, Greedy, A*) with start different
  from goal, the returned steps list has exactly \<open>nodes_expanded\<close> entries, one per pop
  iteration; the i-th snapshot has as \<open>current\<close> the state popped in the i-th iteration, and
  as frontier and explored the frontier (in order) and the explored set of the loop state at
  the start of that iteration, before the pop.
\<close>

theorem steps_trace:
  assumes "start \<noteq> goal" "s \<noteq> t"
  shows
  "returns (breadth_first_search g start goal)
     (trace_ok (bfs_body g goal) (bfs_init start) id popleft) \<and>
   returns (depth_first_search g start goal)
     (trace_ok (dfs_body g goal) (stack_init start) id pop_last) \<and>
   returns (uniform_cost_search g start goal)
     (trace_ok (ucs_body g goal) (ucs_init start) snd (heap_top ucs_lt)) \<and>
   returns (depth_limited_search g start goal depth_limit)
     (trace_ok (dls_body g goal depth_limit) (stack_init start) id pop_last) \<and>
   (\<forall>h. get_heuristic s t tbl = Inr h \<longrightarrow>
      returns (greedy_search sg s t tbl)
        (trace_ok (greedy_body sg t tbl) (greedy_init s h) snd (heap_top ucs_lt)) \<and>
      returns (a_star_search ident sg s t tbl)
        (trace_ok (astar_body ident sg t tbl) (astar_init ident s h) (\<lambda>e. snd (snd e))
           (heap_top astar_lt)))"
  using bfs_returns_trace [OF assms(1), of g] dfs_returns_trace [OF assms(1), of g]
    ucs_returns_trace [OF assms(1), of g] dls_returns_trace [OF assms(1), of g depth_limit]
    greedy_returns_trace [OF assms(2), of tbl _ sg]
    astar_returns_trace [OF assms(2), of tbl _ ident sg]
  by blast

theorem steps_trace_witness:
  "''A'' \<noteq> ''C'' \<and> get_heuristic ''A'' ''C'' zero_table = Inr 0 \<and>
   returns_with (breadth_first_search scenario_graph ''A'' ''C'')
     (trace_ok (bfs_body scenario_graph ''C'') (bfs_init ''A'') id popleft) \<and>
   returns_with (depth_first_search scenario_graph ''A'' ''C'')
     (trace_ok (dfs_body scenario_graph ''C'') (stack_init ''A'') id pop_last) \<and>
   returns_with (uniform_cost_search scenario_graph ''A'' ''C'')
     (trace_ok (ucs_body scenario_graph ''C'') (ucs_init ''A'') snd (heap_top ucs_lt)) \<and>
   returns_with (depth_limited_search scenario_graph ''A'' ''C'' 10)
     (trace_ok (dls_body scenario_graph ''C'' 10) (stack_init ''A'') id pop_last) \<and>
   returns_with (greedy_search scenario_graph ''A'' ''C'' zero_table)
     (trace_ok (greedy_body scenario_graph ''C'' zero_table) (greedy_init ''A'' 0) snd
        (heap_top ucs_lt)) \<and>
   returns_with (a_star_search (\<lambda>k. int k) scenario_graph ''A'' ''C'' zero_table)
     (trace_ok (astar_body (\<lambda>k. int k) scenario_graph ''C'' zero_table)
        (astar_init (\<lambda>k. int k) ''A'' 0) (\<lambda>e. snd (snd e)) (heap_top astar_lt))"
proof -
  have ne: "''A'' \<noteq> ''C''" by simp
  note t = steps_trace [OF ne ne, of scenario_graph 10 zero_table scenario_graph "\<lambda>k. int k"]
  from t have "returns (breadth_first_search scenario_graph ''A'' ''C'')
     (trace_ok (bfs_body scenario_graph ''C'') (bfs_init ''A'') id popleft)" by blast
  note a = returns_witness [OF this scenario_bfs]
  from t have "returns (depth_first_search scenario_graph ''A'' ''C'')
     (trace_ok (dfs_body scenario_graph ''C'') (stack_init ''A'') id pop_last)" by blast
  note b = returns_witness [OF this scenario_dfs]
  from t have "returns (uniform_cost_search scenario_graph ''A'' ''C'')
     (trace_ok (ucs_body scenario_graph ''C'') (ucs_init ''A'') snd (heap_top ucs_lt))" by blast
  note c = returns_witness [OF this scenario_ucs]
  from t have "returns (depth_limited_search scenario_graph ''A'' ''C'' 10)
     (trace_ok (dls_body scenario_graph ''C'' 10) (stack_init ''A'') id pop_last)" by blast
  note d = returns_witness [OF this scenario_dls]
  from t scenario_heuristic
  have "returns (greedy_search scenario_graph ''A'' ''C'' zero_table)
     (trace_ok (greedy_body scenario_graph ''C'' zero_table) (greedy_init ''A'' 0) snd
        (heap_top ucs_lt))" by blast
  note e = returns_witness [OF this scenario_greedy]
  from t scenario_heuristic
  have "returns (a_star_search (\<lambda>k. int k) scenario_graph ''A'' ''C'' zero_table)
     (trace_ok (astar_body (\<lambda>k. int k) scenario_graph ''C'' zero_table)
        (astar_init (\<lambda>k. int k) ''A'' 0) (\<lambda>e. snd (snd e)) (heap_top astar_lt))" by blast
  note f = returns_witness [OF this scenario_astar]
  from ne scenario_heuristic a b c d e f show ?thesis by blast
qed

section \<open>heapq keeps the heap order\<close>

lemma below_refl: "below s s"
  unfolding below_def by (rule exI [of _ 0]) simp

lemma below_le: "below s pos \<Longrightarrow> s \<le> pos"
proof -
  have "((\<lambda>c. (c - 1) div 2) ^^ k) pos \<le> pos" for k :: nat
  proof (induction k)
    case 0
    then show ?case by simp
  next
    case (Suc k)
    have "(((\<lambda>c. (c - 1) div 2) ^^ k) pos - 1) div 2 \<le> ((\<lambda>c. (c - 1) div 2) ^^ k) pos"
      by simp
    with Suc show ?case by simp
  qed
  then show "below s pos \<Longrightarrow> s \<le> pos" by (auto simp: below_def)
qed

lemma below_parent:
  assumes "below s pos" "s < pos"
  shows "below s ((pos - 1) div 2)"
proof -
  from assms(1) obtain k where k: "((\<lambda>c. (c - 1) div 2) ^^ k) pos = s" by (auto simp: below_def)
  with assms(2) obtain j where j: "k = Suc j" by (cases k) auto
  from k have "((\<lambda>c. (c - 1) div 2) ^^ j) ((pos - 1) div 2) = s"
    unfolding j funpow_Suc_right by simp
  then show ?thesis unfolding below_def by (rule exI)
qed

lemma below_child:
  assumes "below s pos" "(c - 1) div 2 = pos"
  shows "below s c"
proof -
  from assms(1) obtain k where k: "((\<lambda>c. (c - 1) div 2) ^^ k) pos = s" by (auto simp: below_def)
  with assms(2) have "((\<lambda>c. (c - 1) div 2) ^^ Suc k) c = s"
    unfolding funpow_Suc_right by simp
  then show ?thesis unfolding below_def by (rule exI)
qed

lemma below_zero: "below 0 pos"
proof (induction pos rule: less_induct)
  case (less pos)
  show ?case
  proof (cases "pos = 0")
    case True
    then show ?thesis by (simp add: below_refl)
  next
    case False
    then have "(pos - 1) div 2 < pos" by simp
    from less [OF this] show ?thesis by (rule below_child) simp
  qed
qed

lemma siftdown_loop_heap:
  "key_order lt key \<Longrightarrow> pos < length heap \<Longrightarrow> below sp pos \<Longrightarrow>
    (\<forall>c. 0 < c \<and> c < length heap \<and> sp \<le> (c - 1) div 2 \<and> c \<noteq> pos \<and> (c - 1) div 2 \<noteq> pos \<longrightarrow>
        key (heap ! ((c - 1) div 2)) \<le> key (heap ! c)) \<Longrightarrow>
    (\<forall>c. 0 < c \<and> c < length heap \<and> (c - 1) div 2 = pos \<longrightarrow>
        key x \<le> key (heap ! c) \<and>
        (sp < pos \<longrightarrow> key (heap ! ((pos - 1) div 2)) \<le> key (heap ! c))) \<Longrightarrow>
    siftdown_loop lt x sp heap pos = (h', p') \<Longrightarrow> heap_from key sp (h'[p' := x])"
proof (induction lt x sp heap pos arbitrary: h' p' rule: siftdown_loop.induct)
  case (1 lt x sp heap pos)
  let ?pp = "(pos - 1) div 2"
  note ko = "1.prems"(1) and len = "1.prems"(2) and bel = "1.prems"(3) and a = "1.prems"(4)
    and b = "1.prems"(5) and run = "1.prems"(6)
  show ?case
  proof (cases "sp < pos \<and> lt x (heap ! ?pp)")
    case True
    then have sp: "sp < pos" and ltx: "lt x (heap ! ?pp)" by auto
    from sp have pp: "?pp < pos" by auto
    from ltx ko have kx: "key x \<le> key (heap ! ?pp)" by (auto simp: key_order_def)
    from below_parent [OF bel sp] have bpp: "below sp ?pp" .
    from below_le [OF bpp] have spp: "sp \<le> ?pp" .
    let ?h1 = "heap[pos := heap ! ?pp]"
    have "siftdown_loop lt x sp heap pos = siftdown_loop lt x sp ?h1 ?pp"
      using True by (subst siftdown_loop.simps) (simp add: Let_def)
    with run have r: "siftdown_loop lt x sp ?h1 ?pp = (h', p')" by simp
    have old: "key (heap ! ((pp' - 1) div 2)) \<le> key (heap ! pp')"
      if "pp' = ?pp" "sp < pp'" for pp'
    proof -
      from that below_parent [OF bpp] have "below sp ((pp' - 1) div 2)" by simp
      then have "sp \<le> (pp' - 1) div 2" by (rule below_le)
      moreover from that pp have "0 < pp'" "pp' < length heap" "pp' \<noteq> pos"
        "(pp' - 1) div 2 \<noteq> pos" using len by auto
      ultimately show ?thesis using a by blast
    qed
    have a': "\<forall>c. 0 < c \<and> c < length ?h1 \<and> sp \<le> (c - 1) div 2 \<and> c \<noteq> ?pp \<and>
        (c - 1) div 2 \<noteq> ?pp \<longrightarrow> key (?h1 ! ((c - 1) div 2)) \<le> key (?h1 ! c)"
    proof (intro allI impI)
      fix c assume c: "0 < c \<and> c < length ?h1 \<and> sp \<le> (c - 1) div 2 \<and> c \<noteq> ?pp \<and>
        (c - 1) div 2 \<noteq> ?pp"
      then have cp: "c \<noteq> pos" by auto
      show "key (?h1 ! ((c - 1) div 2)) \<le> key (?h1 ! c)"
      proof (cases "(c - 1) div 2 = pos")
        case True
        with b c sp have "key (heap ! ?pp) \<le> key (heap ! c)" by simp
        with True cp len show ?thesis by simp
      next
        case False
        with a c cp have "key (heap ! ((c - 1) div 2)) \<le> key (heap ! c)" by simp
        with False cp show ?thesis by simp
      qed
    qed
    have b': "\<forall>c. 0 < c \<and> c < length ?h1 \<and> (c - 1) div 2 = ?pp \<longrightarrow>
        key x \<le> key (?h1 ! c) \<and>
        (sp < ?pp \<longrightarrow> key (?h1 ! ((?pp - 1) div 2)) \<le> key (?h1 ! c))"
    proof (intro allI impI)
      fix c assume c: "0 < c \<and> c < length ?h1 \<and> (c - 1) div 2 = ?pp"
      have ppp: "(?pp - 1) div 2 \<noteq> pos" using pp by auto
      have up: "key (heap ! ?pp) \<le> key (?h1 ! c)"
      proof (cases "c = pos")
        case True
        with len show ?thesis by simp
      next
        case False
        with c pp spp have "0 < c \<and> c < length heap \<and> sp \<le> (c - 1) div 2 \<and> c \<noteq> pos \<and>
          (c - 1) div 2 \<noteq> pos" by auto
        with a have "key (heap ! ((c - 1) div 2)) \<le> key (heap ! c)" by blast
        with c False show ?thesis by simp
      qed
      show "key x \<le> key (?h1 ! c) \<and>
        (sp < ?pp \<longrightarrow> key (?h1 ! ((?pp - 1) div 2)) \<le> key (?h1 ! c))"
      proof (intro conjI impI)
        from kx up show "key x \<le> key (?h1 ! c)" by simp
      next
        assume "sp < ?pp"
        from old [OF refl this] have "key (heap ! ((?pp - 1) div 2)) \<le> key (heap ! ?pp)" .
        with up ppp show "key (?h1 ! ((?pp - 1) div 2)) \<le> key (?h1 ! c)" by simp
      qed
    qed
    have l1: "?pp < length ?h1" using pp len by simp
    from "1.IH" [OF _ refl refl _ ko l1 bpp a' b' r] True show ?thesis by simp
  next
    case False
    have "siftdown_loop lt x sp heap pos = (heap, pos)"
      using False by (subst siftdown_loop.simps) (auto simp: Let_def)
    with run have e: "h' = heap" "p' = pos" by simp_all
    show ?thesis unfolding heap_from_def e
    proof (intro allI impI)
      fix c assume c: "0 < c \<and> c < length (heap[pos := x]) \<and> sp \<le> (c - 1) div 2"
      show "key (heap[pos := x] ! ((c - 1) div 2)) \<le> key (heap[pos := x] ! c)"
      proof (cases "c = pos")
        case True
        with c have "sp < pos" by auto
        with False ko have "key (heap ! ?pp) \<le> key x" by (auto simp: key_order_def)
        moreover from True c have "?pp \<noteq> pos" by auto
        ultimately show ?thesis using True len by simp
      next
        case cp: False
        show ?thesis
        proof (cases "(c - 1) div 2 = pos")
          case True
          with b c have "key x \<le> key (heap ! c)" by simp
          with True cp len show ?thesis by simp
        next
          case False
          with a c cp have "key (heap ! ((c - 1) div 2)) \<le> key (heap ! c)" by simp
          with False cp show ?thesis by simp
        qed
      qed
    qed
  qed
qed


lemma siftdown_heap:
  assumes ko: "key_order lt key" and pos: "pos < length heap" and bel: "below sp pos"
    and leaf: "length heap \<le> 2 * pos + 1"
    and rest: "\<forall>c. 0 < c \<and> c < length heap \<and> sp \<le> (c - 1) div 2 \<and> c \<noteq> pos \<longrightarrow>
        key (heap ! ((c - 1) div 2)) \<le> key (heap ! c)"
  shows "heap_from key sp (siftdown lt heap sp pos)"
proof -
  obtain h' p' where r: "siftdown_loop lt (heap ! pos) sp heap pos = (h', p')" by force
  have a: "\<forall>c. 0 < c \<and> c < length heap \<and> sp \<le> (c - 1) div 2 \<and> c \<noteq> pos \<and>
      (c - 1) div 2 \<noteq> pos \<longrightarrow> key (heap ! ((c - 1) div 2)) \<le> key (heap ! c)"
    using rest by blast
  have b: "\<forall>c. 0 < c \<and> c < length heap \<and> (c - 1) div 2 = pos \<longrightarrow>
      key (heap ! pos) \<le> key (heap ! c) \<and>
      (sp < pos \<longrightarrow> key (heap ! ((pos - 1) div 2)) \<le> key (heap ! c))"
  proof (intro allI impI)
    fix c assume c: "0 < c \<and> c < length heap \<and> (c - 1) div 2 = pos"
    then have "2 * pos + 1 \<le> c" by auto
    with leaf c have False by simp
    then show "key (heap ! pos) \<le> key (heap ! c) \<and>
      (sp < pos \<longrightarrow> key (heap ! ((pos - 1) div 2)) \<le> key (heap ! c))" ..
  qed
  from siftdown_loop_heap [OF ko pos bel a b r] show ?thesis
    by (simp add: siftdown_def r)
qed

lemma siftup_loop_heap:
  "key_order lt key \<Longrightarrow> pos < length heap \<Longrightarrow> endpos = length heap \<Longrightarrow> below sp pos \<Longrightarrow>
    (\<forall>c. 0 < c \<and> c < length heap \<and> sp \<le> (c - 1) div 2 \<and> (c - 1) div 2 \<noteq> pos \<longrightarrow>
        key (heap ! ((c - 1) div 2)) \<le> key (heap ! c)) \<Longrightarrow>
    (sp < pos \<longrightarrow> (\<forall>c. 0 < c \<and> c < length heap \<and> (c - 1) div 2 = pos \<longrightarrow>
        key (heap ! ((pos - 1) div 2)) \<le> key (heap ! c))) \<Longrightarrow>
    siftup_loop lt endpos heap pos = (h', p') \<Longrightarrow>
    length h' = length heap \<and> p' < length heap \<and> below sp p' \<and> heap_from key sp h' \<and>
    length heap \<le> 2 * p' + 1"
proof (induction lt endpos heap pos arbitrary: h' p' rule: siftup_loop.induct)
  case (1 lt endpos heap pos)
  note ko = "1.prems"(1) and len = "1.prems"(2) and ep = "1.prems"(3) and bel = "1.prems"(4)
    and a = "1.prems"(5) and b = "1.prems"(6) and run = "1.prems"(7)
  show ?case
  proof (cases "2 * pos + 1 < endpos")
    case True
    define c where "c = (if 2 * pos + 1 + 1 < endpos \<and> \<not> lt (heap ! (2 * pos + 1)) (heap ! (2 * pos + 1 + 1))
                           then 2 * pos + 1 + 1 else 2 * pos + 1)"
    have c: "pos < c" "c < endpos" "(c - 1) div 2 = pos" "0 < c" using True by (auto simp: c_def)
    let ?h1 = "heap[pos := heap ! c]"
    have "siftup_loop lt endpos heap pos = siftup_loop lt endpos ?h1 c"
      using True unfolding c_def by (subst siftup_loop.simps) (simp add: Let_def)
    with run have r: "siftup_loop lt endpos ?h1 c = (h', p')" by simp
    have small: "key (heap ! c) \<le> key (heap ! d)"
      if d: "0 < d" "d < length heap" "(d - 1) div 2 = pos" for d
    proof -
      from d have dd: "d = 2 * pos + 1 \<or> d = 2 * pos + 1 + 1" by auto
      show ?thesis
      proof (cases "2 * pos + 1 + 1 < endpos \<and> \<not> lt (heap ! (2 * pos + 1)) (heap ! (2 * pos + 1 + 1))")
        case True
        then have cc: "c = 2 * pos + 1 + 1" by (simp add: c_def)
        from True ko have "key (heap ! (2 * pos + 1 + 1)) \<le> key (heap ! (2 * pos + 1))"
          by (auto simp: key_order_def)
        with dd cc show ?thesis by auto
      next
        case False
        then have cc: "c = 2 * pos + 1" by (simp add: c_def)
        show ?thesis
        proof (cases "d = 2 * pos + 1")
          case True
          with cc show ?thesis by simp
        next
          case d2: False
          with dd have d3: "d = 2 * pos + 1 + 1" by simp
          with d ep have "2 * pos + 1 + 1 < endpos" by simp
          with False have "lt (heap ! (2 * pos + 1)) (heap ! (2 * pos + 1 + 1))" by simp
          with ko have "key (heap ! (2 * pos + 1)) \<le> key (heap ! (2 * pos + 1 + 1))"
            by (auto simp: key_order_def)
          with cc d3 show ?thesis by simp
        qed
      qed
    qed
    have a': "\<forall>d. 0 < d \<and> d < length ?h1 \<and> sp \<le> (d - 1) div 2 \<and> (d - 1) div 2 \<noteq> c \<longrightarrow>
        key (?h1 ! ((d - 1) div 2)) \<le> key (?h1 ! d)"
    proof (intro allI impI)
      fix d assume d: "0 < d \<and> d < length ?h1 \<and> sp \<le> (d - 1) div 2 \<and> (d - 1) div 2 \<noteq> c"
      show "key (?h1 ! ((d - 1) div 2)) \<le> key (?h1 ! d)"
      proof (cases "(d - 1) div 2 = pos")
        case True
        with d have dp: "d \<noteq> pos" by auto
        from small [of d] d True have "key (heap ! c) \<le> key (heap ! d)" by simp
        with True dp len show ?thesis by simp
      next
        case np: False
        show ?thesis
        proof (cases "d = pos")
          case True
          with d have "sp < pos" by auto
          with b c ep have "key (heap ! ((pos - 1) div 2)) \<le> key (heap ! c)" by simp
          with True np len show ?thesis by simp
        next
          case False
          with a d np have "key (heap ! ((d - 1) div 2)) \<le> key (heap ! d)" by simp
          with False np show ?thesis by simp
        qed
      qed
    qed
    have b': "sp < c \<longrightarrow> (\<forall>d. 0 < d \<and> d < length ?h1 \<and> (d - 1) div 2 = c \<longrightarrow>
        key (?h1 ! ((c - 1) div 2)) \<le> key (?h1 ! d))"
    proof (intro allI impI)
      fix d assume d: "0 < d \<and> d < length ?h1 \<and> (d - 1) div 2 = c"
      from below_le [OF bel] c have "sp \<le> (d - 1) div 2" using d by simp
      with a d c have "key (heap ! c) \<le> key (heap ! d)" by auto
      moreover from d c have "d \<noteq> pos" by auto
      ultimately show "key (?h1 ! ((c - 1) div 2)) \<le> key (?h1 ! d)" using c len by simp
    qed
    have l1: "c < length ?h1" using c ep by simp
    have e1: "endpos = length ?h1" using ep by simp
    from below_child [OF bel c(3)] have bc: "below sp c" .
    have "length h' = length ?h1 \<and> p' < length ?h1 \<and> below sp p' \<and> heap_from key sp h' \<and>
      length ?h1 \<le> 2 * p' + 1"
    proof (rule "1.IH" [OF refl True refl])
      show "c = (if 2 * pos + 1 + 1 < endpos \<and> \<not> lt (heap ! (2 * pos + 1)) (heap ! (2 * pos + 1 + 1))
                 then 2 * pos + 1 + 1 else 2 * pos + 1)" by (rule c_def)
    qed (rule ko l1 e1 bc a' b' r)+
    then show ?thesis by simp
  next
    case False
    have "siftup_loop lt endpos heap pos = (heap, pos)"
      using False by (subst siftup_loop.simps) (simp add: Let_def)
    with run have e: "h' = heap" "p' = pos" by simp_all
    have "heap_from key sp heap" unfolding heap_from_def
    proof (intro allI impI)
      fix d assume d: "0 < d \<and> d < length heap \<and> sp \<le> (d - 1) div 2"
      have "(d - 1) div 2 \<noteq> pos"
      proof
        assume "(d - 1) div 2 = pos"
        with d have "2 * pos + 1 \<le> d" by auto
        with d False ep show False by simp
      qed
      with a d show "key (heap ! ((d - 1) div 2)) \<le> key (heap ! d)" by simp
    qed
    with e len bel False ep show ?thesis by simp
  qed
qed

lemma siftup_heap:
  assumes ko: "key_order lt key" and pos: "pos < length heap"
    and h: "heap_from key (Suc pos) heap"
  shows "heap_from key pos (siftup lt heap pos)"
proof -
  obtain h' p' where r: "siftup_loop lt (length heap) heap pos = (h', p')" by force
  have a: "\<forall>c. 0 < c \<and> c < length heap \<and> pos \<le> (c - 1) div 2 \<and> (c - 1) div 2 \<noteq> pos \<longrightarrow>
        key (heap ! ((c - 1) div 2)) \<le> key (heap ! c)"
    using h by (auto simp: heap_from_def)
  have b: "pos < pos \<longrightarrow> (\<forall>c. 0 < c \<and> c < length heap \<and> (c - 1) div 2 = pos \<longrightarrow>
        key (heap ! ((pos - 1) div 2)) \<le> key (heap ! c))" by simp
  from siftup_loop_heap [OF ko pos refl below_refl a b r]
  have f: "length h' = length heap" "p' < length heap" "below pos p'" "heap_from key pos h'"
    "length heap \<le> 2 * p' + 1" by simp_all
  let ?h2 = "h'[p' := heap ! pos]"
  have "heap_from key pos (siftdown lt ?h2 pos p')"
  proof (rule siftdown_heap [OF ko _ f(3)])
    show "p' < length ?h2" using f by simp
    show "length ?h2 \<le> 2 * p' + 1" using f by simp
    show "\<forall>c. 0 < c \<and> c < length ?h2 \<and> pos \<le> (c - 1) div 2 \<and> c \<noteq> p' \<longrightarrow>
        key (?h2 ! ((c - 1) div 2)) \<le> key (?h2 ! c)"
    proof (intro allI impI)
      fix c assume c: "0 < c \<and> c < length ?h2 \<and> pos \<le> (c - 1) div 2 \<and> c \<noteq> p'"
      have "(c - 1) div 2 \<noteq> p'"
      proof
        assume "(c - 1) div 2 = p'"
        with c have "2 * p' + 1 \<le> c" by auto
        with c f show False by simp
      qed
      moreover from f(4) c have "key (h' ! ((c - 1) div 2)) \<le> key (h' ! c)"
        by (simp add: heap_from_def)
      ultimately show "key (?h2 ! ((c - 1) div 2)) \<le> key (?h2 ! c)" using c by simp
    qed
  qed
  then show ?thesis by (simp add: siftup_def r)
qed

lemma heappush_heap:
  assumes ko: "key_order lt key" and h: "heap_from key 0 heap"
  shows "heap_from key 0 (heappush lt heap item)"
  unfolding heappush_def
proof (rule siftdown_heap [OF ko _ below_zero])
  show "length heap < length (heap @ [item])" by simp
  show "length (heap @ [item]) \<le> 2 * length heap + 1" by simp
  show "\<forall>c. 0 < c \<and> c < length (heap @ [item]) \<and> 0 \<le> (c - 1) div 2 \<and> c \<noteq> length heap \<longrightarrow>
      key ((heap @ [item]) ! ((c - 1) div 2)) \<le> key ((heap @ [item]) ! c)"
  proof (intro allI impI)
    fix c assume c: "0 < c \<and> c < length (heap @ [item]) \<and> 0 \<le> (c - 1) div 2 \<and> c \<noteq> length heap"
    then have cl: "c < length heap" "(c - 1) div 2 < length heap" by auto
    from h c cl have "key (heap ! ((c - 1) div 2)) \<le> key (heap ! c)" by (simp add: heap_from_def)
    with cl show "key ((heap @ [item]) ! ((c - 1) div 2)) \<le> key ((heap @ [item]) ! c)"
      by (simp add: nth_append)
  qed
qed

lemma heap_root_least:
  assumes h: "heap_from key 0 heap"
  shows "i < length heap \<Longrightarrow> key (heap ! 0) \<le> key (heap ! i)"
proof (induction i rule: less_induct)
  case (less i)
  show ?case
  proof (cases "i = 0")
    case True
    then show ?thesis by simp
  next
    case False
    then have p: "(i - 1) div 2 < i" by simp
    with less.prems have "(i - 1) div 2 < length heap" by simp
    from less.IH [OF p this] have "key (heap ! 0) \<le> key (heap ! ((i - 1) div 2))" .
    moreover from h False less.prems have "key (heap ! ((i - 1) div 2)) \<le> key (heap ! i)"
      by (simp add: heap_from_def)
    ultimately show ?thesis by simp
  qed
qed

lemma heap_hd_least:
  assumes "heap_from key 0 heap" "e \<in> set heap"
  shows "key (hd heap) \<le> key e"
proof -
  from assms(2) obtain i where i: "i < length heap" "heap ! i = e" by (auto simp: in_set_conv_nth)
  from heap_root_least [OF assms(1) i(1)] i show ?thesis by (cases heap) auto
qed

lemma heappop_heap:
  assumes ko: "key_order lt key" and h: "heap_from key 0 heap"
    and pop: "heappop lt heap = Some (e, rest)"
  shows "heap_from key 0 rest"
proof -
  from pop have ne: "heap \<noteq> []" by (auto simp: heappop_def)
  then obtain b l where bl: "heap = b @ [l]" by (metis append_butlast_last_id)
  show ?thesis
  proof (cases "b = []")
    case True
    with bl pop have "rest = []" by (simp add: heappop_def)
    then show ?thesis by (simp add: heap_from_def)
  next
    case False
    with bl pop have rest: "rest = siftup lt (b[0 := l]) 0" by (simp add: heappop_def)
    have "heap_from key (Suc 0) (b[0 := l])" unfolding heap_from_def
    proof (intro allI impI)
      fix c assume c: "0 < c \<and> c < length (b[0 := l]) \<and> Suc 0 \<le> (c - 1) div 2"
      then have cl: "c < length b" "(c - 1) div 2 < length b" "(c - 1) div 2 \<noteq> 0" "c \<noteq> 0"
        by auto
      from h c cl bl have "key (heap ! ((c - 1) div 2)) \<le> key (heap ! c)"
        by (simp add: heap_from_def)
      with cl bl show "key (b[0 := l] ! ((c - 1) div 2)) \<le> key (b[0 := l] ! c)"
        by (simp add: nth_append)
    qed
    moreover have "0 < length (b[0 := l])" using False by simp
    ultimately show ?thesis unfolding rest using siftup_heap [OF ko] by blast
  qed
qed

lemma fold_siftup_heap:
  assumes ko: "key_order lt key"
  shows "m \<le> length h \<Longrightarrow> heap_from key m h \<Longrightarrow>
     heap_from key 0 (fold (\<lambda>i h. siftup lt h i) (rev [0..<m]) h)"
proof (induction m arbitrary: h)
  case 0
  then show ?case by simp
next
  case (Suc m)
  from Suc.prems have m: "m < length h" by simp
  from siftup_heap [OF ko m Suc.prems(2)] have "heap_from key m (siftup lt h m)" .
  moreover from siftup_mset [OF m, of lt] m have "m \<le> length (siftup lt h m)" by simp
  ultimately have "heap_from key 0 (fold (\<lambda>i h. siftup lt h i) (rev [0..<m]) (siftup lt h m))"
    using Suc.IH by blast
  then show ?case by simp
qed

lemma heapify_heap:
  assumes ko: "key_order lt key"
  shows "heap_from key 0 (heapify lt x)"
  unfolding heapify_def
proof (rule fold_siftup_heap [OF ko])
  show "length x div 2 \<le> length x" by simp
  show "heap_from key (length x div 2) x"
    by (auto simp: heap_from_def)
qed

lemma ucs_key_order: "key_order ucs_lt fst"
  by (auto simp: key_order_def ucs_lt_def)

lemma astar_key_order: "key_order astar_lt fst"
  by (auto simp: key_order_def astar_lt_def)

section \<open>The cheapest frontier entry\<close>

lemma improves_refl: "improves nd fr fr"
  by (auto simp: improves_def)

lemma improves_trans:
  assumes "improves nd a b" "improves nd b c"
  shows "improves nd a c"
  unfolding improves_def
proof
  fix e assume "e \<in> set a"
  with assms(1) obtain e1 where e1: "e1 \<in> set b" "state (nd e1) = state (nd e)"
    "path_cost (nd e1) \<le> path_cost (nd e)" by (auto simp: improves_def)
  with assms(2) obtain e2 where e2: "e2 \<in> set c" "state (nd e2) = state (nd e1)"
    "path_cost (nd e2) \<le> path_cost (nd e1)" by (auto simp: improves_def)
  from e1 e2 have "state (nd e2) = state (nd e) \<and> path_cost (nd e2) \<le> path_cost (nd e)"
    by simp
  with e2(1) show "\<exists>e'\<in>set c. state (nd e') = state (nd e) \<and> path_cost (nd e') \<le> path_cost (nd e)"
    by blast
qed

lemma improves_push: "set fr' = insert e (set fr) \<Longrightarrow> improves nd fr fr'"
  by (auto simp: improves_def)

lemma improves_replace:
  assumes s: "set fr' = set (fr[i := e])" and i: "i < length fr"
    and st: "state (nd e) = state (nd (fr ! i))"
    and c: "path_cost (nd e) \<le> path_cost (nd (fr ! i))"
  shows "improves nd fr fr'"
  unfolding improves_def
proof
  fix x assume "x \<in> set fr"
  then obtain j where j: "j < length fr" "fr ! j = x" by (auto simp: in_set_conv_nth)
  show "\<exists>e'\<in>set fr'. state (nd e') = state (nd x) \<and> path_cost (nd e') \<le> path_cost (nd x)"
  proof (cases "j = i")
    case True
    have "e \<in> set (fr[i := e])" using i by (rule set_update_memI)
    with s st c j True show ?thesis by auto
  next
    case False
    with j have "fr[i := e] ! j = x" by simp
    moreover from j have "j < length (fr[i := e])" by simp
    ultimately have "x \<in> set (fr[i := e])" by (metis nth_mem)
    with s show ?thesis by auto
  qed
qed

lemma covered_improves:
  assumes "covered nd fr ex z b" "improves nd fr fr'"
  shows "covered nd fr' ex z b"
proof (cases "z \<in> ex")
  case True
  then show ?thesis by (simp add: covered_def)
next
  case False
  with assms(1) obtain e where e: "e \<in> set fr" "state (nd e) = z" "path_cost (nd e) \<le> b"
    by (auto simp: covered_def)
  with assms(2) obtain e' where e': "e' \<in> set fr'" "state (nd e') = state (nd e)"
    "path_cost (nd e') \<le> path_cost (nd e)" by (auto simp: improves_def)
  from e e' have "state (nd e') = z \<and> path_cost (nd e') \<le> b" by simp
  with e'(1) show ?thesis unfolding covered_def by blast
qed

lemma covered_pop:
  assumes "covered nd fr ex z b" "set fr = insert e (set rest)"
  shows "covered nd rest (insert (state (nd e)) ex) z b"
  using assms by (auto simp: covered_def)

lemma covered_mono: "covered nd fr ex z b \<Longrightarrow> b \<le> b' \<Longrightarrow> covered nd fr ex z b'"
  by (force simp: covered_def)

lemma settled_improves:
  assumes "settled g start nd fr ex" "improves nd fr fr'"
  shows "settled g start nd fr' ex"
  unfolding settled_def
proof (intro conjI ballI)
  from assms show "covered nd fr' ex start 0" by (auto simp: settled_def intro: covered_improves)
next
  fix x assume "x \<in> ex"
  with assms(1) obtain d where d: "shortest_distance g start x d"
    "\<forall>z w. edge_weight g x z = Some w \<longrightarrow> covered nd fr ex z (d + w)"
    by (auto simp: settled_def)
  from d(2) assms(2) have "\<forall>z w. edge_weight g x z = Some w \<longrightarrow> covered nd fr' ex z (d + w)"
    by (auto intro: covered_improves)
  with d(1) show "\<exists>d. shortest_distance g start x d \<and>
      (\<forall>z w. edge_weight g x z = Some w \<longrightarrow> covered nd fr' ex z (d + w))" by blast
qed

text \<open>A walk that ends with an edge.\<close>

lemma walk_snoc:
  assumes "walk g s v (q @ [v])" "q \<noteq> []"
  shows "\<exists>w. walk g s (last q) q \<and> edge_weight g (last q) v = Some w \<and>
    path_weight g (q @ [v]) = path_weight g q + w"
proof -
  from assms have ok: "path_ok g q" "edge_weight g (last q) v \<noteq> None"
    by (simp_all add: walk_def path_ok_snoc)
  then obtain w where w: "edge_weight g (last q) v = Some w" by auto
  from assms have "hd q = s" by (simp add: walk_def)
  with ok assms(2) have "walk g s (last q) q" by (simp add: walk_def)
  with w assms(2) show ?thesis by (simp add: path_weight_snoc)
qed

lemma walk_single: "walk g s v [x] \<longleftrightarrow> x = s \<and> v = s"
  by (auto simp: walk_def)

text \<open>
  Under a consistent estimate, every walk from the start ends in an explored state or is
  undercut by a frontier entry.
\<close>

lemma walk_frontier_aux:
  assumes se: "settled g start nd fr ex" and co: "consistent g hf"
  shows "walk g start v p \<Longrightarrow>
    v \<in> ex \<or> (\<exists>e \<in> set fr. path_cost (nd e) + hf (state (nd e)) \<le> path_weight g p + hf v)"
proof (induction p arbitrary: v rule: rev_induct)
  case Nil
  then show ?case by (simp add: walk_def)
next
  case (snoc x q)
  from snoc.prems have x: "x = v" by (simp add: walk_def)
  show ?case
  proof (cases "q = []")
    case True
    with snoc.prems x have v: "v = start" by (simp add: walk_def)
    from se have c0: "covered nd fr ex start 0" by (simp add: settled_def)
    show ?thesis
    proof (cases "v \<in> ex")
      case True
      then show ?thesis by simp
    next
      case False
      with c0 v obtain e where e: "e \<in> set fr" "state (nd e) = v" "path_cost (nd e) \<le> 0"
        by (auto simp: covered_def)
      from e True x have "path_cost (nd e) + hf (state (nd e)) \<le> path_weight g (q @ [x]) + hf v"
        by simp
      with e(1) show ?thesis by blast
    qed
  next
    case False
    from walk_snoc [OF _ False] snoc.prems x obtain w where
      wq: "walk g start (last q) q" and ew: "edge_weight g (last q) v = Some w"
      and pw: "path_weight g (q @ [v]) = path_weight g q + w" by blast
    from snoc.IH [OF wq] show ?thesis
    proof
      assume "last q \<in> ex"
      with se obtain d where d: "shortest_distance g start (last q) d"
        "\<forall>z w. edge_weight g (last q) z = Some w \<longrightarrow> covered nd fr ex z (d + w)"
        by (auto simp: settled_def)
      from d(1) wq have dq: "d \<le> path_weight g q" by (simp add: shortest_distance_def)
      from d(2) ew have "covered nd fr ex v (d + w)" by blast
      then show ?thesis
      proof (cases "v \<in> ex")
        case True
        then show ?thesis by simp
      next
        case nv: False
        with \<open>covered nd fr ex v (d + w)\<close> obtain e where e: "e \<in> set fr" "state (nd e) = v"
          "path_cost (nd e) \<le> d + w" by (auto simp: covered_def)
        from e dq pw x have "path_cost (nd e) + hf (state (nd e)) \<le> path_weight g (q @ [x]) + hf v"
          by simp
        with e(1) show ?thesis by blast
      qed
    next
      assume "\<exists>e\<in>set fr. path_cost (nd e) + hf (state (nd e)) \<le> path_weight g q + hf (last q)"
      then obtain e where e: "e \<in> set fr"
        "path_cost (nd e) + hf (state (nd e)) \<le> path_weight g q + hf (last q)" by blast
      from co ew have "hf (last q) \<le> w + hf v" by (simp add: consistent_def)
      with e(2) pw x have "path_cost (nd e) + hf (state (nd e)) \<le> path_weight g (q @ [x]) + hf v"
        by simp
      with e(1) show ?thesis by blast
    qed
  qed
qed

lemma walk_frontier:
  assumes "settled g start nd fr ex" "consistent g hf" "walk g start v p" "v \<notin> ex"
  shows "\<exists>e \<in> set fr. path_cost (nd e) + hf (state (nd e)) \<le> path_weight g p + hf v"
  using walk_frontier_aux [OF assms(1,2,3)] assms(4) by simp

lemma node_walk:
  assumes "wf_graph g" "node_ok g start n"
  shows "walk g start (state n) (path n) \<and> path_weight g (path n) = path_cost n"
  using node_ok_path [OF assms] by (simp add: walk_def)

text \<open>The entry at the root of the heap carries the true distance of its state.\<close>

lemma pop_shortest:
  assumes wf: "wf_graph g" and se: "settled g start nd fr ex" and co: "consistent g hf"
    and ko: "keys_ok hf nd key fr" and ne: "fr \<noteq> []"
    and ok: "node_ok g start (nd (hd fr))" and nx: "state (nd (hd fr)) \<notin> ex"
  shows "shortest_distance g start (state (nd (hd fr))) (path_cost (nd (hd fr)))"
  unfolding shortest_distance_def
proof (intro conjI allI impI)
  from node_walk [OF wf ok]
  show "\<exists>p. walk g start (state (nd (hd fr))) p \<and> path_weight g p = path_cost (nd (hd fr))"
    by blast
next
  fix p assume p: "walk g start (state (nd (hd fr))) p"
  from walk_frontier [OF se co p nx] obtain e where e: "e \<in> set fr"
    "path_cost (nd e) + hf (state (nd e)) \<le> path_weight g p + hf (state (nd (hd fr)))" by blast
  from ko have h: "heap_from key 0 fr" by (simp add: keys_ok_def)
  from heap_hd_least [OF h e(1)] have "key (hd fr) \<le> key e" .
  moreover from ne have "hd fr \<in> set fr" by simp
  ultimately have "path_cost (nd (hd fr)) + hf (state (nd (hd fr))) \<le>
      path_cost (nd e) + hf (state (nd e))" using ko e(1) by (simp add: keys_ok_def)
  with e(2) show "path_cost (nd (hd fr)) \<le> path_weight g p" by simp
qed

text \<open>Exploring the popped state once all its neighbours are covered.\<close>

lemma settled_explore:
  assumes se: "settled g start nd fr ex" and s: "set fr = insert e (set rest)"
    and sd: "shortest_distance g start (state (nd e)) (path_cost (nd e))"
    and im: "improves nd rest fr'"
    and nb: "\<forall>z w. edge_weight g (state (nd e)) z = Some w \<longrightarrow>
        covered nd fr' (insert (state (nd e)) ex) z (path_cost (nd e) + w)"
  shows "settled g start nd fr' (insert (state (nd e)) ex)"
  unfolding settled_def
proof (intro conjI ballI)
  from se have "covered nd fr ex start 0" by (simp add: settled_def)
  from covered_improves [OF covered_pop [OF this s] im]
  show "covered nd fr' (insert (state (nd e)) ex) start 0" .
next
  fix x assume x: "x \<in> insert (state (nd e)) ex"
  show "\<exists>d. shortest_distance g start x d \<and>
      (\<forall>z w. edge_weight g x z = Some w \<longrightarrow> covered nd fr' (insert (state (nd e)) ex) z (d + w))"
  proof (cases "x = state (nd e)")
    case True
    with sd nb show ?thesis by blast
  next
    case False
    with x se obtain d where d: "shortest_distance g start x d"
      "\<forall>z w. edge_weight g x z = Some w \<longrightarrow> covered nd fr ex z (d + w)"
      by (auto simp: settled_def)
    have "\<forall>z w. edge_weight g x z = Some w \<longrightarrow>
        covered nd fr' (insert (state (nd e)) ex) z (d + w)"
    proof (intro allI impI)
      fix z w assume "edge_weight g x z = Some w"
      with d(2) have "covered nd fr ex z (d + w)" by blast
      from covered_improves [OF covered_pop [OF this s] im]
      show "covered nd fr' (insert (state (nd e)) ex) z (d + w)" .
    qed
    with d(1) show ?thesis by blast
  qed
qed

lemma expand_covers:
  assumes "expand n g = Inr children" "edge_weight g (state n) z = Some w"
  shows "\<exists>c \<in> set children. state c = z \<and> path_cost c = path_cost n + w"
proof -
  from assms(2) obtain nb where nb: "map_of g (state n) = Some nb" "map_of nb z = Some w"
    by (auto simp: edge_weight_def split: option.splits)
  from nb(2) have "(z, w) \<in> set nb" by (rule map_of_SomeD)
  with assms(1) nb(1) show ?thesis
    by (force simp: expand_def dict_get_def)
qed

text \<open>The loop over the children covers every child.\<close>

lemma fold_cover:
  assumes init: "I s0"
    and step: "\<And>c s. c \<in> set cs \<Longrightarrow> I s \<Longrightarrow>
        I (f c s) \<and> improves nd (fr s) (fr (f c s)) \<and>
        covered nd (fr (f c s)) ex (state c) (path_cost c)"
  shows "I (fold f cs s0) \<and> improves nd (fr s0) (fr (fold f cs s0)) \<and>
    (\<forall>c \<in> set cs. covered nd (fr (fold f cs s0)) ex (state c) (path_cost c))"
  using assms
proof (induction cs arbitrary: s0)
  case Nil
  then show ?case by (simp add: improves_refl)
next
  case (Cons c cs)
  from Cons.prems(2) [of c s0] Cons.prems(1)
  have s1: "I (f c s0)" "improves nd (fr s0) (fr (f c s0))"
    "covered nd (fr (f c s0)) ex (state c) (path_cost c)" by simp_all
  have st: "I (f c' s) \<and> improves nd (fr s) (fr (f c' s)) \<and>
        covered nd (fr (f c' s)) ex (state c') (path_cost c')"
    if "c' \<in> set cs" "I s" for c' s
    using Cons.prems(2) [of c' s] that by simp
  from Cons.IH [OF s1(1) st]
  have ih: "I (fold f cs (f c s0))" "improves nd (fr (f c s0)) (fr (fold f cs (f c s0)))"
    "\<forall>c' \<in> set cs. covered nd (fr (fold f cs (f c s0))) ex (state c') (path_cost c')"
    by blast+
  have e: "fold f (c # cs) s0 = fold f cs (f c s0)" by simp
  show ?case unfolding e
  proof (intro conjI ballI)
    show "I (fold f cs (f c s0))" by (rule ih(1))
    show "improves nd (fr s0) (fr (fold f cs (f c s0)))"
      by (rule improves_trans [OF s1(2) ih(2)])
    fix c' assume "c' \<in> set (c # cs)"
    then have "c' = c \<or> c' \<in> set cs" by simp
    then show "covered nd (fr (fold f cs (f c s0))) ex (state c') (path_cost c')"
    proof
      assume "c' = c"
      with covered_improves [OF s1(3) ih(2)] show ?thesis by simp
    next
      assume "c' \<in> set cs"
      with ih(3) show ?thesis by blast
    qed
  qed
qed

lemma fold_err_cover:
  assumes run: "fold_err f cs s0 = Inr s'" and init: "I s0"
    and step: "\<And>c s s1. c \<in> set cs \<Longrightarrow> I s \<Longrightarrow> f c s = Inr s1 \<Longrightarrow>
        I s1 \<and> improves nd (fr s) (fr s1) \<and> covered nd (fr s1) ex (state c) (path_cost c)"
  shows "I s' \<and> improves nd (fr s0) (fr s') \<and>
    (\<forall>c \<in> set cs. covered nd (fr s') ex (state c) (path_cost c))"
  using assms
proof (induction cs arbitrary: s0)
  case Nil
  then show ?case by (simp add: improves_refl)
next
  case (Cons c cs)
  from Cons.prems(1) obtain s1 where r: "f c s0 = Inr s1" "fold_err f cs s1 = Inr s'"
    by (auto split: sum.splits)
  from Cons.prems(3) [of c s0 s1] Cons.prems(2) r(1)
  have s1: "I s1" "improves nd (fr s0) (fr s1)"
    "covered nd (fr s1) ex (state c) (path_cost c)" by simp_all
  have st: "I s1 \<and> improves nd (fr s) (fr s1) \<and>
        covered nd (fr s1) ex (state c') (path_cost c')"
    if "c' \<in> set cs" "I s" "f c' s = Inr s1" for c' s s1
    using Cons.prems(3) [of c' s s1] that by simp
  from Cons.IH [OF r(2) s1(1) st]
  have ih: "I s'" "improves nd (fr s1) (fr s')"
    "\<forall>c \<in> set cs. covered nd (fr s') ex (state c) (path_cost c)" by blast+
  show ?case
  proof (intro conjI ballI)
    show "I s'" by (rule ih(1))
    show "improves nd (fr s0) (fr s')" by (rule improves_trans [OF s1(2) ih(2)])
    fix c' assume "c' \<in> set (c # cs)"
    then have "c' = c \<or> c' \<in> set cs" by simp
    then show "covered nd (fr s') ex (state c') (path_cost c')"
    proof
      assume "c' = c"
      with covered_improves [OF s1(3) ih(2)] show ?thesis by simp
    next
      assume "c' \<in> set cs"
      with ih(3) show ?thesis by blast
    qed
  qed
qed

text \<open>Reachable states are the ends of walks.\<close>

lemma reachable_walk:
  assumes "v \<in> reachable g s"
  shows "\<exists>p. walk g s v p"
proof -
  from assms have "(s, v) \<in> (edges g)\<^sup>*" by (simp add: reachable_def)
  then show ?thesis
  proof (induction rule: rtrancl_induct)
    case base
    have "walk g s s [s]" by (simp add: walk_def)
    then show ?case ..
  next
    case (step y z)
    then obtain p where p: "walk g s y p" by blast
    from step(2) have "edge_weight g y z \<noteq> None" by (simp add: edges_def)
    with p have "walk g s z (p @ [z])" by (simp add: walk_def path_ok_snoc)
    then show ?case ..
  qed
qed

lemma consistent_walk:
  assumes co: "consistent g hf"
  shows "walk g u v p \<Longrightarrow> hf u \<le> path_weight g p + hf v"
proof (induction p arbitrary: v rule: rev_induct)
  case Nil
  then show ?case by (simp add: walk_def)
next
  case (snoc x q)
  from snoc.prems have x: "x = v" by (simp add: walk_def)
  show ?case
  proof (cases "q = []")
    case True
    with snoc.prems x show ?thesis by (simp add: walk_def)
  next
    case False
    from walk_snoc [OF _ False] snoc.prems x obtain w where
      wq: "walk g u (last q) q" and ew: "edge_weight g (last q) v = Some w"
      and pw: "path_weight g (q @ [v]) = path_weight g q + w" by blast
    from co ew have "hf (last q) \<le> w + hf v" by (simp add: consistent_def)
    with snoc.IH [OF wq] pw x show ?thesis by simp
  qed
qed

lemma shortest_self:
  assumes "consistent g hf"
  shows "shortest_distance g s s 0"
  unfolding shortest_distance_def
proof (intro conjI allI impI)
  have "walk g s s [s] \<and> path_weight g [s] = 0" by (simp add: walk_def)
  then show "\<exists>p. walk g s s p \<and> path_weight g p = 0" ..
next
  fix p assume "walk g s s p"
  from consistent_walk [OF assms this] show "0 \<le> path_weight g p" by simp
qed

lemma nonneg_consistent:
  assumes "nonneg_weights g"
  shows "consistent g (\<lambda>s. 0)"
  unfolding consistent_def
proof (intro allI impI)
  fix u v w assume "edge_weight g u v = Some w"
  then obtain nb where nb: "map_of g u = Some nb" "map_of nb v = Some w"
    by (auto simp: edge_weight_def split: option.splits)
  then have "(u, nb) \<in> set g" "(v, w) \<in> set nb" by (auto dest: map_of_SomeD)
  with assms have "0 \<le> w" by (auto simp: nonneg_weights_def)
  then show "0 \<le> w + 0" by simp
qed

section \<open>Keys of the frontier\<close>

lemma heappush_set: "set (heappush lt h e) = insert e (set h)"
proof -
  have "mset (heappush lt h e) = mset (e # h)" by (simp add: heappush_mset)
  then have "set (heappush lt h e) = set (e # h)" by (rule mset_eq_setD)
  then show ?thesis by simp
qed

lemma heapify_set: "set (heapify lt x) = set x"
  using heapify_mset [of lt x] by (metis mset_eq_setD)

lemma keys_ok_push:
  assumes "keys_ok hf nd key fr" "key_order lt key"
    "key e = path_cost (nd e) + hf (state (nd e))"
  shows "keys_ok hf nd key (heappush lt fr e)"
  using assms heappush_heap [OF assms(2), of fr e]
  by (simp add: keys_ok_def heappush_set)

lemma keys_ok_replace:
  assumes "keys_ok hf nd key fr" "key_order lt key"
    "key e = path_cost (nd e) + hf (state (nd e))"
  shows "keys_ok hf nd key (heapify lt (fr[i := e]))"
proof -
  have "set (fr[i := e]) \<subseteq> insert e (set fr)" by (rule set_update_subset_insert)
  with assms(1,3) have "\<forall>x \<in> set (fr[i := e]). key x = path_cost (nd x) + hf (state (nd x))"
    by (auto simp: keys_ok_def)
  with heapify_heap [OF assms(2), of "fr[i := e]"] show ?thesis
    by (simp add: keys_ok_def heapify_set)
qed

lemma keys_ok_pop:
  assumes "keys_ok hf nd key fr" "key_order lt key" "heappop lt fr = Some (e, rest)"
    "set fr = insert e (set rest)"
  shows "keys_ok hf nd key rest"
  using assms heappop_heap [OF assms(2) _ assms(3)]
  by (simp add: keys_ok_def)

section \<open>Uniform-cost search returns the shortest distance\<close>

lemma ucs_child_opt:
  assumes inv: "keyed_inv g start snd st"
    and ko: "keys_ok (\<lambda>s. 0) snd fst (frontier st)"
  shows "keys_ok (\<lambda>s. 0) snd fst (frontier (ucs_child c st)) \<and>
    improves snd (frontier st) (frontier (ucs_child c st)) \<and>
    covered snd (frontier (ucs_child c st)) (explored st) (state c) (path_cost c)"
proof -
  from inv have fs: "frontier_states st = (\<lambda>e. state (snd e)) ` set (frontier st)"
    by (simp add: keyed_inv_def)
  let ?e = "(path_cost c, c)"
  consider (push) "state c \<notin> explored st" "state c \<notin> frontier_states st"
    | (upd) "state c \<in> frontier_states st"
    | (skip) "state c \<in> explored st" "state c \<notin> frontier_states st" by blast
  then show ?thesis
  proof cases
    case push
    then have f: "frontier (ucs_child c st) = heappush ucs_lt (frontier st) ?e"
      by (simp add: ucs_child_def)
    have "?e \<in> set (heappush ucs_lt (frontier st) ?e)" by (simp add: heappush_set)
    then have "covered snd (heappush ucs_lt (frontier st) ?e) (explored st) (state c) (path_cost c)"
      unfolding covered_def by force
    with keys_ok_push [OF ko ucs_key_order, of ?e]
      improves_push [OF heappush_set]
    show ?thesis unfolding f by simp
  next
    case skip
    then have f: "frontier (ucs_child c st) = frontier st" by (simp add: ucs_child_def)
    from skip have "covered snd (frontier st) (explored st) (state c) (path_cost c)"
      by (simp add: covered_def)
    with ko show ?thesis unfolding f by (simp add: improves_refl)
  next
    case upd
    let ?P = "\<lambda>(cost, frontier_node). state frontier_node = state c \<and> path_cost c < cost"
    show ?thesis
    proof (cases "first_index ?P (frontier st)")
      case None
      with upd have f: "frontier (ucs_child c st) = frontier st"
        by (simp add: ucs_child_def ucs_update_def)
      from upd fs obtain x where x: "x \<in> set (frontier st)" "state (snd x) = state c" by auto
      from first_index_None [OF None] x have "\<not> path_cost c < fst x"
        by (auto split: prod.splits)
      moreover from ko x(1) have "fst x = path_cost (snd x)" by (simp add: keys_ok_def)
      ultimately have "path_cost (snd x) \<le> path_cost c" by simp
      with x have "covered snd (frontier st) (explored st) (state c) (path_cost c)"
        unfolding covered_def by blast
      with ko show ?thesis unfolding f by (simp add: improves_refl)
    next
      case (Some i)
      from first_index_Some [OF Some] have i: "i < length (frontier st)"
        and si: "state (snd (frontier st ! i)) = state c"
        and lt: "path_cost c < fst (frontier st ! i)" by (auto split: prod.splits)
      from Some upd have f: "frontier (ucs_child c st) = heapify ucs_lt ((frontier st)[i := ?e])"
        by (simp add: ucs_child_def ucs_update_def)
      from i have "frontier st ! i \<in> set (frontier st)" by simp
      with ko have "fst (frontier st ! i) = path_cost (snd (frontier st ! i))"
        by (simp add: keys_ok_def)
      with lt have le: "path_cost (snd ?e) \<le> path_cost (snd (frontier st ! i))" by simp
      have im: "improves snd (frontier st) (heapify ucs_lt ((frontier st)[i := ?e]))"
        by (rule improves_replace [OF heapify_set i _ le]) (simp add: si)
      have "?e \<in> set ((frontier st)[i := ?e])" using i by (rule set_update_memI)
      then have "?e \<in> set (heapify ucs_lt ((frontier st)[i := ?e]))" by (simp add: heapify_set)
      then have "covered snd (heapify ucs_lt ((frontier st)[i := ?e])) (explored st)
          (state c) (path_cost c)"
        unfolding covered_def by force
      with keys_ok_replace [OF ko ucs_key_order, of ?e i] im show ?thesis unfolding f by simp
    qed
  qed
qed

lemma no_path_impossible:
  assumes "settled g start nd [] ex" "consistent g hf" "goal \<in> reachable g start" "goal \<notin> ex"
  shows False
proof -
  from reachable_walk [OF assms(3)] obtain p where "walk g start goal p" ..
  from walk_frontier [OF assms(1,2) this assms(4)] show False by simp
qed

lemma ucs_opt_step:
  fixes st :: "('a, int \<times> 'a node, 'a set) search"
  assumes wf: "wf_graph g" and co: "consistent g (\<lambda>s. 0)" and gr: "goal \<in> reachable g start"
    and opt: "ucs_opt g start goal st"
  shows "case ucs_body g goal st of
           Inl st' \<Rightarrow> ucs_opt g start goal st'
         | Inr res \<Rightarrow> (case res of Inl e \<Rightarrow> True | Inr r \<Rightarrow> optimal_result g start goal r)"
proof (cases "frontier st = []")
  case True
  with opt have "settled g start snd ([] :: (int \<times> 'a node) list) (explored st)"
    "goal \<notin> explored st"
    by (simp_all add: ucs_opt_def)
  from no_path_impossible [OF this(1) co gr this(2)] show ?thesis ..
next
  case False
  from opt have inv: "keyed_inv g start snd st"
    and ko: "keys_ok (\<lambda>s. 0) snd fst (frontier st)"
    and se: "settled g start snd (frontier st) (explored st)"
    and ge: "goal \<notin> explored st" by (simp_all add: ucs_opt_def)
  from inv have fi: "frontier_inv g start snd st" by (simp add: keyed_inv_def)
  obtain c n where e: "hd (frontier st) = (c, n)" by force
  from keyed_step_facts [OF inv False, of ucs_lt] e obtain rest where
    hp: "heappop ucs_lt (frontier st) = Some ((c, n), rest)"
    and m: "mset (frontier st) = add_mset (c, n) (mset rest)"
    and r: "set_remove (frontier_states st) (state n) = Inr ((\<lambda>e. state (snd e)) ` set rest)"
    by auto
  let ?fs = "(\<lambda>e. state (snd e)) ` set rest"
  note p = frontier_inv_pop [OF fi m]
  from mset_split_facts(1) [OF m] have s: "set (frontier st) = insert (c, n) (set rest)" .
  from pop_shortest [OF wf se co ko False] p(2,3) e
  have sd: "shortest_distance g start (state n) (path_cost n)" by simp
  let ?mid = "(after_pop snd n rest ?fs st)\<lparr>explored := insert (state n) (explored st)\<rparr>"
  show ?thesis
  proof (cases "state n = goal")
    case True
    with sd have "optimal_result g start goal (found ''ucs'' n (after_pop snd n rest ?fs st))"
      by (simp add: optimal_result_def found_def)
    with True False hp r show ?thesis by (simp add: ucs_body_eq)
  next
    case ng: False
    show ?thesis
    proof (cases "expand n g")
      case (Inl err)
      with False ng hp r show ?thesis by (simp add: ucs_body_eq)
    next
      case (Inr children)
      let ?I = "\<lambda>s :: ('a, int \<times> 'a node, 'a set) search.
                  keyed_inv g start snd s \<and> explored s = insert (state n) (explored st) \<and>
                  keys_ok (\<lambda>s. 0) snd fst (frontier s)"
      let ?fin = "fold ucs_child children ?mid"
      have kr: "keys_ok (\<lambda>s. 0) snd fst rest"
        by (rule keys_ok_pop [OF ko ucs_key_order hp s])
      have "?I ?fin \<and> improves snd (frontier ?mid) (frontier ?fin) \<and>
        (\<forall>c \<in> set children. covered snd (frontier ?fin) (insert (state n) (explored st))
            (state c) (path_cost c))"
      proof (rule fold_cover [where I = ?I and fr = frontier])
        show "?I ?mid" using p(1) kr by (simp add: keyed_inv_def)
      next
        fix c s assume c: "c \<in> set children" and s: "?I s"
        from expand_child_ok [OF Inr c] p(2) have "node_ok g start c" by simp
        with ucs_child_keeps [of g start s c] ucs_child_opt [of g start s c] s
        show "?I (ucs_child c s) \<and> improves snd (frontier s) (frontier (ucs_child c s)) \<and>
          covered snd (frontier (ucs_child c s)) (insert (state n) (explored st))
            (state c) (path_cost c)" by simp
      qed
      then have fin: "keyed_inv g start snd ?fin"
        "explored ?fin = insert (state n) (explored st)"
        "keys_ok (\<lambda>s. 0) snd fst (frontier ?fin)"
        "improves snd rest (frontier ?fin)"
        "\<forall>c \<in> set children. covered snd (frontier ?fin) (insert (state n) (explored st))
            (state c) (path_cost c)" by simp_all
      have nb: "\<forall>z w. edge_weight g (state (snd (c, n))) z = Some w \<longrightarrow>
          covered snd (frontier ?fin) (insert (state (snd (c, n))) (explored st)) z
            (path_cost (snd (c, n)) + w)"
      proof (intro allI impI)
        fix z w assume "edge_weight g (state (snd (c, n))) z = Some w"
        then have "edge_weight g (state n) z = Some w" by simp
        from expand_covers [OF Inr this] obtain ch where
          ch: "ch \<in> set children" "state ch = z" "path_cost ch = path_cost n + w" by blast
        with fin(5) show "covered snd (frontier ?fin) (insert (state (snd (c, n))) (explored st)) z
            (path_cost (snd (c, n)) + w)" by auto
      qed
      have "settled g start snd (frontier ?fin) (insert (state (snd (c, n))) (explored st))"
        by (rule settled_explore [OF se s _ _ nb]) (use sd fin(4) in simp_all)
      with fin ng ge have "ucs_opt g start goal ?fin" by (auto simp: ucs_opt_def)
      with Inr False ng hp r show ?thesis by (simp add: ucs_body_eq)
    qed
  qed
qed

lemma ucs_opt_init: "ucs_opt g start goal (ucs_init start)"
proof -
  have "keys_ok (\<lambda>s. 0) snd fst [(0, root_node start)]"
    by (simp add: keys_ok_def heap_from_def root_node_def)
  moreover have "settled g start snd [(0, root_node start)] {}"
    by (simp add: settled_def covered_def root_node_def)
  ultimately show ?thesis using ucs_init_inv [of g start]
    by (simp add: ucs_opt_def ucs_init_def)
qed

lemma closed_outcome:
  assumes "outcome_ok g start goal res" "closed_from g start"
  shows "\<exists>r. res = Inr r"
  using assms by (cases res) (auto simp: outcome_ok_def closed_from_def)

lemma trivial_optimal:
  assumes "consistent g hf"
  shows "optimal_result g s s (trivial_result alg s ne ng mfs)"
  using shortest_self [OF assms] by (simp add: optimal_result_def trivial_result_def)

lemma ucs_optimal:
  assumes wf: "wf_graph g" and cl: "closed_from g start" and gr: "goal \<in> reachable g start"
    and nn: "nonneg_weights g"
  shows "returns_with (uniform_cost_search g start goal) (optimal_result g start goal)"
proof (cases "start = goal")
  case True
  with trivial_optimal [OF nonneg_consistent [OF nn]] show ?thesis
    by (simp add: uniform_cost_search_def returns_with_def)
next
  case False
  from ucs_outcome [of g start goal] obtain res where
    res: "uniform_cost_search g start goal = Some res" "outcome_ok g start goal res" by blast
  from closed_outcome [OF res(2) cl] obtain r where r: "res = Inr r" ..
  from res(1) False have run: "run_loop (ucs_body g goal) (ucs_init start) = Some res"
    by (simp add: uniform_cost_search_def)
  have "case res of Inl e \<Rightarrow> True | Inr r \<Rightarrow> optimal_result g start goal r"
    by (rule run_loop_partial [OF run, where I = "ucs_opt g start goal"])
       (rule ucs_opt_init, rule ucs_opt_step [OF wf nonneg_consistent [OF nn] gr])
  with r res(1) show ?thesis by (simp add: returns_with_def)
qed

section \<open>A* returns the shortest distance under a consistent estimate\<close>

lemma h_value_eq: "get_heuristic s goal tbl = Inr h \<Longrightarrow> h_value goal tbl s = h"
  by (simp add: h_value_def)

lemma distinct_other:
  assumes d: "distinct (map f xs)" and i: "i < length xs" and x: "x \<in> set (xs[i := e])"
    and ne: "x \<noteq> e"
  shows "x \<in> set xs \<and> f x \<noteq> f (xs ! i)"
proof -
  from x obtain j where j: "j < length xs" "xs[i := e] ! j = x"
    by (auto simp: in_set_conv_nth)
  with ne i have ji: "j \<noteq> i" by auto
  with j have xj: "xs ! j = x" by simp
  from nth_eq_iff_index_eq [OF d, of j i] j(1) i ji have "map f xs ! j \<noteq> map f xs ! i"
    by simp
  with j(1) i xj show ?thesis by auto
qed

lemma astar_child_opt:
  fixes st :: "(string, int \<times> int \<times> string node, string \<rightharpoonup> int) astar_search"
  assumes inv: "astar_inv g start st"
    and ko: "keys_ok (h_value goal tbl) (\<lambda>e. snd (snd e)) fst (frontier st)"
    and fc: "\<forall>e \<in> set (frontier st).
        frontier_states st (state (snd (snd e))) = Some (path_cost (snd (snd e)))"
    and run: "astar_child ident goal tbl c st = Inr st'"
  shows "keys_ok (h_value goal tbl) (\<lambda>e. snd (snd e)) fst (frontier st') \<and>
    (\<forall>e \<in> set (frontier st').
        frontier_states st' (state (snd (snd e))) = Some (path_cost (snd (snd e)))) \<and>
    improves (\<lambda>e. snd (snd e)) (frontier st) (frontier st') \<and>
    covered (\<lambda>e. snd (snd e)) (frontier st') (explored st) (state c) (path_cost c)"
proof -
  let ?nd = "\<lambda>e :: int \<times> int \<times> string node. snd (snd e)"
  let ?hf = "h_value goal tbl"
  let ?st1 = "st\<lparr>nodes_generated := nodes_generated st + 1, created := created st + 1\<rparr>"
  from inv have fi: "frontier_inv g start ?nd st"
    and fs: "dom (frontier_states st) = (\<lambda>e. state (?nd e)) ` set (frontier st)"
    by (simp_all add: astar_inv_def)
  from fi have di: "distinct (map (\<lambda>e. state (?nd e)) (frontier st))"
    by (simp add: frontier_inv_def)
  obtain h where h: "get_heuristic (state c) goal tbl = Inr h"
    using get_heuristic_Inr by blast
  from h_value_eq [OF h] have hv: "?hf (state c) = h" .
  let ?e = "(path_cost c + h, ident (created st), c)"
  have same: "keys_ok ?hf ?nd fst (frontier ?st1) \<and>
    (\<forall>e \<in> set (frontier ?st1).
        frontier_states ?st1 (state (snd (snd e))) = Some (path_cost (snd (snd e)))) \<and>
    improves ?nd (frontier st) (frontier ?st1)"
    using ko fc by (simp add: improves_refl)
  show ?thesis
  proof (cases "state c \<in> explored st")
    case True
    with run have "st' = ?st1" by (simp add: astar_child_def Let_def)
    with same True show ?thesis by (simp add: covered_def)
  next
    case ne: False
    show ?thesis
    proof (cases "state c \<in> dom (frontier_states st)")
      case False
      let ?st' = "?st1\<lparr>frontier := heappush astar_lt (frontier st) ?e,
                       frontier_states := (frontier_states st)(state c \<mapsto> path_cost c)\<rparr>"
      from run ne False h have st': "st' = ?st'" by (simp add: astar_child_def Let_def)
      have k: "keys_ok ?hf ?nd fst (heappush astar_lt (frontier st) ?e)"
        by (rule keys_ok_push [OF ko astar_key_order]) (simp add: hv)
      have c: "\<forall>x \<in> set (heappush astar_lt (frontier st) ?e).
          ((frontier_states st)(state c \<mapsto> path_cost c)) (state (?nd x)) = Some (path_cost (?nd x))"
      proof
        fix x assume "x \<in> set (heappush astar_lt (frontier st) ?e)"
        then have "x = ?e \<or> x \<in> set (frontier st)" by (simp add: heappush_set)
        then show "((frontier_states st)(state c \<mapsto> path_cost c)) (state (?nd x)) =
            Some (path_cost (?nd x))"
        proof
          assume "x = ?e"
          then show ?thesis by simp
        next
          assume x: "x \<in> set (frontier st)"
          from False fs have "state c \<notin> (\<lambda>e. state (?nd e)) ` set (frontier st)" by simp
          from notin_imageD [OF this x] have "state (?nd x) \<noteq> state c" .
          with fc x show ?thesis by simp
        qed
      qed
      have "?e \<in> set (heappush astar_lt (frontier st) ?e)" by (simp add: heappush_set)
      then have "covered ?nd (heappush astar_lt (frontier st) ?e) (explored st)
          (state c) (path_cost c)" unfolding covered_def by force
      with k c improves_push [OF heappush_set] show ?thesis unfolding st' by simp
    next
      case True
      then obtain old where old: "frontier_states st (state c) = Some old" by auto
      from True fs obtain x where x: "x \<in> set (frontier st)" "state (?nd x) = state c" by auto
      with fc old have xo: "path_cost (?nd x) = old" by auto
      show ?thesis
      proof (cases "path_cost c < old")
        case False
        with run ne True h old have "st' = ?st1"
          by (simp add: astar_child_def Let_def map_get_def)
        moreover from x xo False
        have "covered ?nd (frontier st) (explored st) (state c) (path_cost c)"
          unfolding covered_def by force
        ultimately show ?thesis using same by simp
      next
        case less: True
        let ?Q = "\<lambda>(f, i, frontier_node). state (frontier_node :: string node) = state c"
        show ?thesis
        proof (cases "first_index ?Q (frontier st)")
          case None
          obtain xf xi xn where xe: "x = (xf, xi, xn)" by (cases x) auto
          from first_index_None [OF None] x(1) have "\<not> ?Q x" by blast
          with x(2) xe have False by simp
          then show ?thesis ..
        next
          case (Some i)
          from first_index_Some [OF Some] have i: "i < length (frontier st)"
            and si: "state (?nd (frontier st ! i)) = state c" by (auto split: prod.splits)
          let ?st' = "?st1\<lparr>frontier := heapify astar_lt ((frontier st)[i := ?e]),
                           frontier_states := (frontier_states st)(state c \<mapsto> path_cost c)\<rparr>"
          from run ne True h old less Some have st': "st' = ?st'"
            by (simp add: astar_child_def Let_def map_get_def)
          from i have mem: "frontier st ! i \<in> set (frontier st)" by simp
          with fc si old have "path_cost (?nd (frontier st ! i)) = old" by auto
          with less have le: "path_cost (?nd ?e) \<le> path_cost (?nd (frontier st ! i))" by simp
          have k: "keys_ok ?hf ?nd fst (heapify astar_lt ((frontier st)[i := ?e]))"
            by (rule keys_ok_replace [OF ko astar_key_order]) (simp add: hv)
          have im: "improves ?nd (frontier st) (heapify astar_lt ((frontier st)[i := ?e]))"
            by (rule improves_replace [OF heapify_set i _ le]) (simp add: si)
          have c: "\<forall>x \<in> set (heapify astar_lt ((frontier st)[i := ?e])).
              ((frontier_states st)(state c \<mapsto> path_cost c)) (state (?nd x)) =
                Some (path_cost (?nd x))"
          proof
            fix y assume "y \<in> set (heapify astar_lt ((frontier st)[i := ?e]))"
            then have y: "y \<in> set ((frontier st)[i := ?e])" by (simp add: heapify_set)
            show "((frontier_states st)(state c \<mapsto> path_cost c)) (state (?nd y)) =
                Some (path_cost (?nd y))"
            proof (cases "y = ?e")
              case True
              then show ?thesis by simp
            next
              case False
              from distinct_other [OF di i y False] si
              have "y \<in> set (frontier st)" "state (?nd y) \<noteq> state c" by simp_all
              with fc show ?thesis by simp
            qed
          qed
          have "?e \<in> set ((frontier st)[i := ?e])" using i by (rule set_update_memI)
          then have "?e \<in> set (heapify astar_lt ((frontier st)[i := ?e]))"
            by (simp add: heapify_set)
          then have "covered ?nd (heapify astar_lt ((frontier st)[i := ?e])) (explored st)
              (state c) (path_cost c)" unfolding covered_def by force
          with k c im show ?thesis unfolding st' by simp
        qed
      qed
    qed
  qed
qed

lemma astar_opt_step:
  fixes st :: "(string, int \<times> int \<times> string node, string \<rightharpoonup> int) astar_search"
  assumes wf: "wf_graph g" and co: "consistent g (h_value goal tbl)"
    and gr: "goal \<in> reachable g start"
    and opt: "astar_opt g start goal (h_value goal tbl) st"
  shows "case astar_body ident g goal tbl st of
           Inl st' \<Rightarrow> astar_opt g start goal (h_value goal tbl) st'
         | Inr res \<Rightarrow> (case res of Inl e \<Rightarrow> True | Inr r \<Rightarrow> optimal_result g start goal r)"
proof (cases "frontier st = []")
  case True
  with opt have "settled g start (\<lambda>e. snd (snd e))
      ([] :: (int \<times> int \<times> string node) list) (explored st)"
    "goal \<notin> explored st"
    by (simp_all add: astar_opt_def)
  from no_path_impossible [OF this(1) co gr this(2)] show ?thesis ..
next
  case False
  let ?nd = "\<lambda>e :: int \<times> int \<times> string node. snd (snd e)"
  let ?hf = "h_value goal tbl"
  from opt have inv: "astar_inv g start st"
    and ko: "keys_ok ?hf ?nd fst (frontier st)"
    and fc: "\<forall>e \<in> set (frontier st).
        frontier_states st (state (snd (snd e))) = Some (path_cost (snd (snd e)))"
    and se: "settled g start ?nd (frontier st) (explored st)"
    and ge: "goal \<notin> explored st" by (simp_all add: astar_opt_def)
  from inv have fi: "frontier_inv g start ?nd st"
    and fs: "dom (frontier_states st) = (\<lambda>e. state (?nd e)) ` set (frontier st)"
    by (simp_all add: astar_inv_def)
  obtain f i n where e: "hd (frontier st) = (f, i, n)" by (cases "hd (frontier st)") auto
  from heappop_Some [OF False, of astar_lt] e obtain rest where
    hp: "heappop astar_lt (frontier st) = Some ((f, i, n), rest)"
    and m: "mset (frontier st) = add_mset (f, i, n) (mset rest)" by auto
  note p = frontier_inv_pop [OF fi m]
  from mset_split_facts(1) [OF m] have s: "set (frontier st) = insert (f, i, n) (set rest)" .
  let ?fs = "(frontier_states st)(state n := None)"
  have dd: "dict_del (frontier_states st) (state n) = Inr ?fs"
    using fs s by (auto simp: dict_del_def)
  have dfs: "dom ?fs = (\<lambda>e. state (?nd e)) ` set rest"
    using fs s p(4) by auto
  from pop_shortest [OF wf se co ko False] p(2,3) e
  have sd: "shortest_distance g start (state n) (path_cost n)" by simp
  let ?mid = "(after_pop ?nd n rest ?fs st)\<lparr>explored := insert (state n) (explored st)\<rparr>"
  show ?thesis
  proof (cases "state n = goal")
    case True
    with sd have "optimal_result g start goal (found ''astar'' n (after_pop ?nd n rest ?fs st))"
      by (simp add: optimal_result_def found_def)
    with True False hp dd show ?thesis by (simp add: astar_body_eq)
  next
    case ng: False
    show ?thesis
    proof (cases "expand n g")
      case (Inl err)
      with False ng hp dd show ?thesis by (simp add: astar_body_eq)
    next
      case ex: (Inr children)
      let ?I = "\<lambda>s :: (string, int \<times> int \<times> string node, string \<rightharpoonup> int) astar_search.
                  astar_inv g start s \<and> explored s = insert (state n) (explored st) \<and>
                  keys_ok ?hf ?nd fst (frontier s) \<and>
                  (\<forall>e \<in> set (frontier s).
                     frontier_states s (state (snd (snd e))) = Some (path_cost (snd (snd e))))"
      have kr: "keys_ok ?hf ?nd fst rest"
        by (rule keys_ok_pop [OF ko astar_key_order hp s])
      have fr: "\<forall>e \<in> set rest. ?fs (state (snd (snd e))) = Some (path_cost (snd (snd e)))"
      proof
        fix x assume x: "x \<in> set rest"
        from p(4) have "state n \<notin> (\<lambda>e. state (?nd e)) ` set rest" by simp
        from notin_imageD [OF this x] have "state (?nd x) \<noteq> state n" .
        moreover from x s fc have "frontier_states st (state (?nd x)) = Some (path_cost (?nd x))"
          by auto
        ultimately show "?fs (state (snd (snd x))) = Some (path_cost (snd (snd x)))" by simp
      qed
      show ?thesis
      proof (cases "fold_err (astar_child ident goal tbl) children ?mid")
        case (Inl err)
        with ex False ng hp dd show ?thesis by (simp add: astar_body_eq)
      next
        case fin0: (Inr fin)
      have "?I fin \<and> improves ?nd (frontier ?mid) (frontier fin) \<and>
        (\<forall>c \<in> set children. covered ?nd (frontier fin) (insert (state n) (explored st))
            (state c) (path_cost c))"
      proof (rule fold_err_cover [OF fin0, where I = ?I and fr = frontier])
        show "?I ?mid" using p(1) kr fr dfs by (simp add: astar_inv_def)
      next
        fix c s s1 assume c: "c \<in> set children" and s: "?I s"
          and r: "astar_child ident goal tbl c s = Inr s1"
        from expand_child_ok [OF ex c] p(2) have "node_ok g start c" by simp
        with astar_child_keeps [of g start s c ident goal tbl] s r
        have k: "astar_inv g start s1" "explored s1 = explored s" by auto
        from s have a: "astar_inv g start s" and b: "keys_ok ?hf ?nd fst (frontier s)"
          and d: "\<forall>e \<in> set (frontier s).
               frontier_states s (state (snd (snd e))) = Some (path_cost (snd (snd e)))"
          by simp_all
        from astar_child_opt [OF a b d r] k s
        show "?I s1 \<and> improves ?nd (frontier s) (frontier s1) \<and>
          covered ?nd (frontier s1) (insert (state n) (explored st)) (state c) (path_cost c)"
          by simp
      qed
      then have fin: "astar_inv g start fin"
        "explored fin = insert (state n) (explored st)"
        "keys_ok ?hf ?nd fst (frontier fin)"
        "\<forall>e \<in> set (frontier fin).
           frontier_states fin (state (snd (snd e))) = Some (path_cost (snd (snd e)))"
        "improves ?nd rest (frontier fin)"
        "\<forall>c \<in> set children. covered ?nd (frontier fin) (insert (state n) (explored st))
            (state c) (path_cost c)" by simp_all
      have nb: "\<forall>z w. edge_weight g (state (?nd (f, i, n))) z = Some w \<longrightarrow>
          covered ?nd (frontier fin) (insert (state (?nd (f, i, n))) (explored st)) z
            (path_cost (?nd (f, i, n)) + w)"
      proof (intro allI impI)
        fix z w assume "edge_weight g (state (?nd (f, i, n))) z = Some w"
        then have "edge_weight g (state n) z = Some w" by simp
        from expand_covers [OF ex this] obtain ch where
          ch: "ch \<in> set children" "state ch = z" "path_cost ch = path_cost n + w" by blast
        with fin(6)
        show "covered ?nd (frontier fin) (insert (state (?nd (f, i, n))) (explored st)) z
            (path_cost (?nd (f, i, n)) + w)" by auto
      qed
      have "settled g start ?nd (frontier fin) (insert (state (?nd (f, i, n))) (explored st))"
        by (rule settled_explore [OF se s _ _ nb]) (use sd fin(5) in simp_all)
      with fin ng ge have "astar_opt g start goal ?hf fin" by (auto simp: astar_opt_def)
      with ex False ng hp dd fin0 show ?thesis by (simp add: astar_body_eq)
      qed
    qed
  qed
qed

lemma astar_opt_init:
  assumes "get_heuristic start goal tbl = Inr h"
  shows "astar_opt g start goal (h_value goal tbl) (astar_init ident start h)"
proof -
  let ?nd = "\<lambda>e :: int \<times> int \<times> string node. snd (snd e)"
  let ?fr = "[(path_cost (root_node start) + h, ident 0, root_node start)]"
  from h_value_eq [OF assms]
  have "keys_ok (h_value goal tbl) ?nd fst ?fr"
    by (simp add: keys_ok_def heap_from_def root_node_def)
  moreover have "settled g start ?nd ?fr {}"
    by (simp add: settled_def covered_def root_node_def)
  ultimately show ?thesis using astar_init_inv [of g start ident h]
    by (simp add: astar_opt_def astar_init_def root_node_def)
qed

lemma astar_optimal:
  assumes wf: "wf_graph g" and cl: "closed_from g start" and gr: "goal \<in> reachable g start"
    and co: "consistent g (h_value goal tbl)"
  shows "returns_with (a_star_search ident g start goal tbl) (optimal_result g start goal)"
proof (cases "start = goal")
  case True
  with trivial_optimal [OF co] show ?thesis
    by (simp add: a_star_search_def returns_with_def)
next
  case False
  from astar_outcome [of ident g start goal tbl] obtain res where
    res: "a_star_search ident g start goal tbl = Some res" "outcome_ok g start goal res" by blast
  from closed_outcome [OF res(2) cl] obtain r where r: "res = Inr r" ..
  obtain h where h: "get_heuristic start goal tbl = Inr h" using get_heuristic_Inr by blast
  from res(1) False h
  have run: "run_loop (astar_body ident g goal tbl) (astar_init ident start h) = Some res"
    by (simp add: a_star_search_def)
  have "case res of Inl e \<Rightarrow> True | Inr r \<Rightarrow> optimal_result g start goal r"
    by (rule run_loop_partial [OF run, where I = "astar_opt g start goal (h_value goal tbl)"])
       (rule astar_opt_init [OF h], rule astar_opt_step [OF wf co gr])
  with r res(1) show ?thesis by (simp add: returns_with_def)
qed

section \<open>Shortest distances\<close>

lemma shortest_unique:
  assumes "shortest_distance g s t d" "shortest_distance g s t d'"
  shows "d = d'"
proof -
  from assms(1) obtain p where p: "walk g s t p" "path_weight g p = d"
    by (auto simp: shortest_distance_def)
  from assms(2) obtain p' where p': "walk g s t p'" "path_weight g p' = d'"
    by (auto simp: shortest_distance_def)
  from assms(1) p' have "d \<le> d'" by (auto simp: shortest_distance_def)
  moreover from assms(2) p have "d' \<le> d" by (auto simp: shortest_distance_def)
  ultimately show ?thesis by simp
qed

lemma returned_distance:
  assumes "returns_with out (optimal_result g s t)"
    "map_option (map_sum id r_distance) out = Some (Inr d)"
  shows "shortest_distance g s t d"
proof -
  from assms(1) obtain r where r: "out = Some (Inr r)" "shortest_distance g s t (r_distance r)"
    by (auto simp: returns_with_def optimal_result_def)
  with assms(2) show ?thesis by simp
qed

lemma wf_detour: "wf_graph detour_graph"
  by (simp add: wf_graph_def detour_graph_def)

lemma nonneg_detour: "nonneg_weights detour_graph"
  by (simp add: nonneg_weights_def detour_graph_def)

lemma nonneg_scenario: "nonneg_weights scenario_graph"
  by (simp add: nonneg_weights_def scenario_graph_def)

lemma detour_reachable:
  assumes "s \<in> {''S'', ''A'', ''X'', ''Bucharest''}"
  shows "reachable detour_graph s \<subseteq> {''S'', ''A'', ''X'', ''Bucharest''}"
proof (rule reachable_within)
  show "s \<in> {''S'', ''A'', ''X'', ''Bucharest''}" by (rule assms)
next
  fix u v assume "u \<in> {''S'', ''A'', ''X'', ''Bucharest''}" "(u, v) \<in> edges detour_graph"
  then show "v \<in> {''S'', ''A'', ''X'', ''Bucharest''}"
    by (auto simp: edges_def edge_weight_def detour_graph_def split: if_splits)
qed

lemma detour_closed_from:
  assumes "s \<in> {''S'', ''A'', ''X'', ''Bucharest''}"
  shows "closed_from detour_graph s"
  using detour_reachable [OF assms] by (auto simp: closed_from_def detour_graph_def)

lemma detour_goal_reachable: "''Bucharest'' \<in> reachable detour_graph ''S''"
proof -
  have x: "''X'' \<in> reachable detour_graph ''S''"
    by (rule reachable_step [OF reachable_start,
          where nb = "[(''X'', 4), (''A'', 1)]" and w = 4])
       (simp_all add: detour_graph_def)
  show ?thesis
    by (rule reachable_step [OF x,
          where nb = "[(''S'', 4), (''A'', 1), (''Bucharest'', 10)]" and w = 10])
       (simp_all add: detour_graph_def)
qed

lemma detour_goal_reachable_A: "''Bucharest'' \<in> reachable detour_graph ''A''"
proof -
  have x: "''X'' \<in> reachable detour_graph ''A''"
    by (rule reachable_step [OF reachable_start,
          where nb = "[(''S'', 1), (''X'', 1)]" and w = 1])
       (simp_all add: detour_graph_def)
  show ?thesis
    by (rule reachable_step [OF x,
          where nb = "[(''S'', 4), (''A'', 1), (''Bucharest'', 10)]" and w = 10])
       (simp_all add: detour_graph_def)
qed

lemma scenario_goal_reachable: "''C'' \<in> reachable scenario_graph ''A''"
  by (rule reachable_step [OF reachable_start,
        where nb = "[(''B'', 1), (''C'', 5)]" and w = 5])
     (simp_all add: scenario_graph_def)

lemma detour_ucs:
  "map_option (map_sum id r_distance) (uniform_cost_search detour_graph ''S'' ''Bucharest'') =
     Some (Inr 12)"
  by code_simp

lemma detour_ucs_A:
  "map_option (map_sum id r_distance) (uniform_cost_search detour_graph ''A'' ''Bucharest'') =
     Some (Inr 11)"
  by code_simp

lemma detour_astar:
  "map_option (map_sum id r_distance)
     (a_star_search int detour_graph ''S'' ''Bucharest'' detour_table) = Some (Inr 14)"
  by (simp add: eval_defs Let_def detour_graph_def detour_table_def)

lemma detour_astar_exact:
  "map_option (map_sum id r_distance)
     (a_star_search int detour_graph ''S'' ''Bucharest'' exact_table) = Some (Inr 12)"
  by (simp add: eval_defs Let_def detour_graph_def exact_table_def)

lemma scenario_ucs_distance:
  "map_option (map_sum id r_distance) (uniform_cost_search scenario_graph ''A'' ''C'') =
     Some (Inr 3)"
  by code_simp

lemma detour_table_values:
  "h_value ''Bucharest'' detour_table s = (if s = ''A'' then 10 else 0)"
  by (simp add: h_value_def get_heuristic_def detour_table_def dict_get_def)

lemma exact_table_values:
  "h_value ''Bucharest'' exact_table s =
     (if s = ''S'' then 12 else if s = ''A'' then 11 else if s = ''X'' then 10 else 0)"
  by (simp add: h_value_def get_heuristic_def exact_table_def dict_get_def)

lemma exact_consistent: "consistent detour_graph (h_value ''Bucharest'' exact_table)"
  unfolding consistent_def exact_table_values
  by (auto simp: edge_weight_def detour_graph_def split: if_splits)

lemma detour_admissible: "admissible detour_graph ''Bucharest'' (h_value ''Bucharest'' detour_table)"
  unfolding admissible_def
proof (intro allI impI)
  fix s d assume sd: "shortest_distance detour_graph s ''Bucharest'' d"
  then obtain p where p: "walk detour_graph s ''Bucharest'' p" "path_weight detour_graph p = d"
    by (auto simp: shortest_distance_def)
  from consistent_walk [OF nonneg_consistent [OF nonneg_detour] p(1)] p(2) have d0: "0 \<le> d"
    by simp
  show "h_value ''Bucharest'' detour_table s \<le> d"
  proof (cases "s = ''A''")
    case True
    have "returns_with (uniform_cost_search detour_graph ''A'' ''Bucharest'')
        (optimal_result detour_graph ''A'' ''Bucharest'')"
      by (rule ucs_optimal [OF wf_detour detour_closed_from detour_goal_reachable_A nonneg_detour])
        simp
    from returned_distance [OF this detour_ucs_A]
    have "shortest_distance detour_graph ''A'' ''Bucharest'' 11" .
    from shortest_unique [OF this] sd True have "d = 11" by simp
    with True show ?thesis by (simp add: detour_table_values)
  next
    case False
    with d0 show ?thesis by (simp add: detour_table_values)
  qed
qed

lemma detour_shortest: "shortest_distance detour_graph ''S'' ''Bucharest'' 12"
proof -
  have "returns_with (uniform_cost_search detour_graph ''S'' ''Bucharest'')
      (optimal_result detour_graph ''S'' ''Bucharest'')"
    by (rule ucs_optimal [OF wf_detour detour_closed_from detour_goal_reachable nonneg_detour])
      simp
  from returned_distance [OF this detour_ucs] show ?thesis .
qed

text \<open>
  C1: for every graph (a dict of dicts) whose every state reachable from the start is a key,
  with the goal reachable from the start and non-negative edge weights, uniform_cost_search
  returns a result whose distance is the true shortest-path distance from start to goal.
  a_star_search returns a result with the true shortest-path distance when the estimate that
  get_heuristic reads from the table is consistent, that is, along every edge it drops by at
  most the weight of the edge. An admissible table is not enough, because A* never reopens
  an explored state.
\<close>

theorem optimal_distance:
  assumes "wf_graph g" "closed_from g start" "goal \<in> reachable g start" "nonneg_weights g"
    and "wf_graph sg" "closed_from sg s" "t \<in> reachable sg s"
    and "consistent sg (h_value t tbl)"
  shows
  "returns_with (uniform_cost_search g start goal) (optimal_result g start goal) \<and>
   returns_with (a_star_search ident sg s t tbl) (optimal_result sg s t)"
  using ucs_optimal [OF assms(1-4)] astar_optimal [OF assms(5-8), of ident] by simp

theorem optimal_distance_witness:
  "wf_graph scenario_graph \<and> closed_from scenario_graph ''A'' \<and>
   ''C'' \<in> reachable scenario_graph ''A'' \<and> nonneg_weights scenario_graph \<and>
   wf_graph detour_graph \<and> closed_from detour_graph ''S'' \<and>
   ''Bucharest'' \<in> reachable detour_graph ''S'' \<and>
   consistent detour_graph (h_value ''Bucharest'' exact_table) \<and>
   returns_with (uniform_cost_search scenario_graph ''A'' ''C'')
     (optimal_result scenario_graph ''A'' ''C'') \<and>
   returns_with (a_star_search int detour_graph ''S'' ''Bucharest'' exact_table)
     (optimal_result detour_graph ''S'' ''Bucharest'') \<and>
   map_option (map_sum id r_distance) (uniform_cost_search scenario_graph ''A'' ''C'') =
     Some (Inr 3) \<and>
   map_option (map_sum id r_distance)
     (a_star_search int detour_graph ''S'' ''Bucharest'' exact_table) = Some (Inr 12)"
proof -
  have c: "closed_from detour_graph ''S''" by (rule detour_closed_from) simp
  from optimal_distance [OF wf_scenario scenario_closed_from scenario_goal_reachable
      nonneg_scenario wf_detour c detour_goal_reachable exact_consistent, of int]
    wf_scenario scenario_closed_from scenario_goal_reachable nonneg_scenario wf_detour c
    detour_goal_reachable exact_consistent scenario_ucs_distance detour_astar_exact
  show ?thesis by blast
qed

text \<open>
  On the detour graph the table is admissible for the goal Bucharest, and A* returns the
  distance 14 although the shortest distance from S to Bucharest is 12.
\<close>

theorem astar_admissible_not_optimal:
  "wf_graph detour_graph \<and> closed_from detour_graph ''S'' \<and>
   ''Bucharest'' \<in> reachable detour_graph ''S'' \<and> nonneg_weights detour_graph \<and>
   admissible detour_graph ''Bucharest'' (h_value ''Bucharest'' detour_table) \<and>
   shortest_distance detour_graph ''S'' ''Bucharest'' 12 \<and>
   map_option (map_sum id r_distance)
     (a_star_search int detour_graph ''S'' ''Bucharest'' detour_table) = Some (Inr 14)"
proof -
  have c: "closed_from detour_graph ''S''" by (rule detour_closed_from) simp
  from wf_detour c detour_goal_reachable nonneg_detour detour_admissible detour_shortest
    detour_astar
  show ?thesis by blast
qed

section \<open>The trivial search\<close>

text \<open>
  C3, as the code has it: with \<open>start = goal\<close> every algorithm returns at once with the path
  \<open>[start]\<close>, distance 0 and no steps. Breadth-first, depth-first, uniform-cost, depth-limited,
  greedy and A* search report one node generated and none expanded; iterative deepening
  reports one generated and one expanded; bidirectional search reports two generated and
  none expanded.
\<close>

theorem start_is_goal:
  "breadth_first_search graph s s =
     Some (Inr \<lparr>r_algorithm = ''bfs'', r_path = [s], r_distance = 0, r_nodes_expanded = 0,
                r_nodes_generated = 1, r_max_frontier_size = 1, r_steps = []\<rparr>) \<and>
   depth_first_search graph s s =
     Some (Inr \<lparr>r_algorithm = ''dfs'', r_path = [s], r_distance = 0, r_nodes_expanded = 0,
                r_nodes_generated = 1, r_max_frontier_size = 1, r_steps = []\<rparr>) \<and>
   uniform_cost_search graph s s =
     Some (Inr \<lparr>r_algorithm = ''ucs'', r_path = [s], r_distance = 0, r_nodes_expanded = 0,
                r_nodes_generated = 1, r_max_frontier_size = 1, r_steps = []\<rparr>) \<and>
   depth_limited_search graph s s depth_limit =
     Some (Inr \<lparr>r_algorithm = ''dls'', r_path = [s], r_distance = 0, r_nodes_expanded = 0,
                r_nodes_generated = 1, r_max_frontier_size = 1, r_steps = []\<rparr>) \<and>
   iterative_deepening_search graph s s max_depth =
     Some (Inr \<lparr>r_algorithm = ''ids'', r_path = [s], r_distance = 0, r_nodes_expanded = 1,
                r_nodes_generated = 1, r_max_frontier_size = 1, r_steps = []\<rparr>) \<and>
   bidirectional_search graph s s =
     Some (Inr \<lparr>r_algorithm = ''bidirectional'', r_path = [s], r_distance = 0,
                r_nodes_expanded = 0, r_nodes_generated = 2, r_max_frontier_size = 2,
                r_steps = []\<rparr>) \<and>
   greedy_search sgraph t t heuristic_data =
     Some (Inr \<lparr>r_algorithm = ''greedy'', r_path = [t], r_distance = 0, r_nodes_expanded = 0,
                r_nodes_generated = 1, r_max_frontier_size = 1, r_steps = []\<rparr>) \<and>
   a_star_search ident sgraph t t heuristic_data =
     Some (Inr \<lparr>r_algorithm = ''astar'', r_path = [t], r_distance = 0, r_nodes_expanded = 0,
                r_nodes_generated = 1, r_max_frontier_size = 1, r_steps = []\<rparr>)"
  by (simp add: breadth_first_search_def depth_first_search_def uniform_cost_search_def
      depth_limited_search_def iterative_deepening_search_def bidirectional_search_def
      greedy_search_def a_star_search_def trivial_result_def)

text \<open>
  C3 as stated fails: iterative deepening with \<open>start = goal\<close> reports one node expanded,
  not zero.
\<close>

theorem start_is_goal_ids_expanded:
  "iterative_deepening_search scenario_graph ''A'' ''A'' 100 =
     Some (Inr \<lparr>r_algorithm = ''ids'', r_path = [''A''], r_distance = 0, r_nodes_expanded = 1,
                r_nodes_generated = 1, r_max_frontier_size = 1, r_steps = []\<rparr>)"
  by (simp add: iterative_deepening_search_def trivial_result_def)

section \<open>The concrete scenario\<close>

text \<open>
  C4, as the code has it: on the scenario graph from A to C, uniform-cost search and A* with
  the all-zero table (whatever the object identities) return the path A, B, C of distance 3;
  breadth-first search returns the direct path A, C of distance 5.
\<close>

theorem scenario_results:
  "uniform_cost_search scenario_graph ''A'' ''C'' =
     Some (Inr \<lparr>r_algorithm = ''ucs'', r_path = [''A'', ''B'', ''C''], r_distance = 3,
                r_nodes_expanded = 3, r_nodes_generated = 5, r_max_frontier_size = 2,
                r_steps =
                  [\<lparr>s_frontier = [''A''], s_explored = {}, s_current = Some ''A'',
                    s_depth_limit = None\<rparr>,
                   \<lparr>s_frontier = [''B'', ''C''], s_explored = {''A''},
                    s_current = Some ''B'', s_depth_limit = None\<rparr>,
                   \<lparr>s_frontier = [''C''], s_explored = {''B'', ''A''},
                    s_current = Some ''C'', s_depth_limit = None\<rparr>]\<rparr>) \<and>
   a_star_search ident scenario_graph ''A'' ''C'' zero_table =
     Some (Inr \<lparr>r_algorithm = ''astar'', r_path = [''A'', ''B'', ''C''], r_distance = 3,
                r_nodes_expanded = 3, r_nodes_generated = 5, r_max_frontier_size = 2,
                r_steps =
                  [\<lparr>s_frontier = [''A''], s_explored = {}, s_current = Some ''A'',
                    s_depth_limit = None\<rparr>,
                   \<lparr>s_frontier = [''B'', ''C''], s_explored = {''A''},
                    s_current = Some ''B'', s_depth_limit = None\<rparr>,
                   \<lparr>s_frontier = [''C''], s_explored = {''B'', ''A''},
                    s_current = Some ''C'', s_depth_limit = None\<rparr>]\<rparr>) \<and>
   map_option (map_sum id (\<lambda>r. (r_path r, r_distance r)))
       (breadth_first_search scenario_graph ''A'' ''C'') =
     Some (Inr ([''A'', ''C''], 5))"
  by (simp add: eval_defs scenario_graph_def zero_table_def)

text \<open>
  C4 as stated fails: breadth-first search returns the path A, C with distance 5, not
  A, B, C with distance 3.
\<close>

theorem scenario_bfs_direct:
  "breadth_first_search scenario_graph ''A'' ''C'' =
     Some (Inr \<lparr>r_algorithm = ''bfs'', r_path = [''A'', ''C''], r_distance = 5,
                r_nodes_expanded = 3, r_nodes_generated = 5, r_max_frontier_size = 2,
                r_steps =
                  [\<lparr>s_frontier = [''A''], s_explored = {}, s_current = Some ''A'',
                    s_depth_limit = None\<rparr>,
                   \<lparr>s_frontier = [''B'', ''C''], s_explored = {''A''},
                    s_current = Some ''B'', s_depth_limit = None\<rparr>,
                   \<lparr>s_frontier = [''C''], s_explored = {''B'', ''A''},
                    s_current = Some ''C'', s_depth_limit = None\<rparr>]\<rparr>)"
  by (simp add: eval_defs scenario_graph_def)

section \<open>The heuristic\<close>

text \<open>
  C6: for a goal other than Bucharest \<open>get_heuristic\<close> returns 0 whatever the state and the
  table; a value other than 0 is returned only for the goal Bucharest, and then it is the
  table's value for the state; for the goal Bucharest a tabulated state gets its table value.
\<close>

theorem get_heuristic_goal:
  "(goal \<noteq> ''Bucharest'' \<longrightarrow> get_heuristic s goal heuristic_data = Inr 0) \<and>
   (get_heuristic s goal heuristic_data \<noteq> Inr 0 \<longrightarrow>
      goal = ''Bucharest'' \<and>
      (\<exists>v. map_of heuristic_data s = Some v \<and> get_heuristic s goal heuristic_data = Inr v)) \<and>
   (goal = ''Bucharest'' \<and> map_of heuristic_data s = Some v \<longrightarrow>
      get_heuristic s goal heuristic_data = Inr v)"
proof (cases "goal = ''Bucharest'' \<and> s \<in> set (map fst heuristic_data)")
  case True
  from dict_get_key [of s heuristic_data] True obtain w where
    w: "dict_get heuristic_data s = Inr w" "map_of heuristic_data s = Some w" by blast
  with True show ?thesis by (simp add: get_heuristic_def)
next
  case False
  then have z: "get_heuristic s goal heuristic_data = Inr 0"
    by (auto simp: get_heuristic_def)
  have "goal = ''Bucharest'' \<Longrightarrow> map_of heuristic_data s = None"
    using False by (simp add: map_of_eq_None_iff)
  with z show ?thesis by auto
qed

theorem get_heuristic_goal_witness:
  "''Sibiu'' \<noteq> ''Bucharest'' \<and>
   get_heuristic ''Arad'' ''Sibiu'' [(''Arad'', 366)] = Inr 0 \<and>
   map_of [(''Arad'', 366::int)] ''Arad'' = Some 366 \<and>
   get_heuristic ''Arad'' ''Bucharest'' [(''Arad'', 366)] = Inr 366"
proof -
  have a: "''Sibiu'' \<noteq> ''Bucharest''" by simp
  have b: "map_of [(''Arad'', 366::int)] ''Arad'' = Some 366" by simp
  from get_heuristic_goal [of "''Sibiu''" "''Arad''" "[(''Arad'', 366)]" 0] a
  have c: "get_heuristic ''Arad'' ''Sibiu'' [(''Arad'', 366)] = Inr 0" by blast
  from get_heuristic_goal [of "''Bucharest''" "''Arad''" "[(''Arad'', 366)]" 366] b
  have d: "get_heuristic ''Arad'' ''Bucharest'' [(''Arad'', 366)] = Inr 366" by blast
  from a b c d show ?thesis by blast
qed

text \<open>
  C10: \<open>get_heuristic\<close> never raises: it always returns a number, and for a state that is
  not in the table the number is 0, also when the goal is Bucharest. So Greedy and A* return a
  result, whatever the table holds, on every graph whose states reachable from the start are
  keys.
\<close>

theorem get_heuristic_total:
  "(\<exists>v. get_heuristic s goal heuristic_data = Inr v) \<and>
   (s \<notin> set (map fst heuristic_data) \<longrightarrow> get_heuristic s goal heuristic_data = Inr 0) \<and>
   (closed_from g start \<longrightarrow>
      returns_with (greedy_search g start goal heuristic_data) (\<lambda>r. True) \<and>
      returns_with (a_star_search ident g start goal heuristic_data) (\<lambda>r. True))"
proof (intro conjI impI)
  show "\<exists>v. get_heuristic s goal heuristic_data = Inr v" by (rule get_heuristic_Inr)
next
  assume "s \<notin> set (map fst heuristic_data)"
  then show "get_heuristic s goal heuristic_data = Inr 0" by (simp add: get_heuristic_def)
next
  assume cl: "closed_from g start"
  from greedy_outcome [of g start goal heuristic_data] obtain res where
    res: "greedy_search g start goal heuristic_data = Some res" "outcome_ok g start goal res"
    by blast
  from closed_outcome [OF res(2) cl] res(1)
  show "returns_with (greedy_search g start goal heuristic_data) (\<lambda>r. True)"
    by (auto simp: returns_with_def)
next
  assume cl: "closed_from g start"
  from astar_outcome [of ident g start goal heuristic_data] obtain res where
    res: "a_star_search ident g start goal heuristic_data = Some res"
    "outcome_ok g start goal res" by blast
  from closed_outcome [OF res(2) cl] res(1)
  show "returns_with (a_star_search ident g start goal heuristic_data) (\<lambda>r. True)"
    by (auto simp: returns_with_def)
qed

theorem get_heuristic_total_witness:
  "''Zerind'' \<notin> set (map fst [(''Arad'', 366::int)]) \<and>
   get_heuristic ''Zerind'' ''Bucharest'' [(''Arad'', 366)] = Inr 0 \<and>
   closed_from detour_graph ''S'' \<and>
   returns_with (greedy_search detour_graph ''S'' ''Bucharest'' [(''Arad'', 366)]) (\<lambda>r. True) \<and>
   returns_with (a_star_search int detour_graph ''S'' ''Bucharest'' [(''Arad'', 366)])
     (\<lambda>r. True)"
proof -
  have a: "''Zerind'' \<notin> set (map fst [(''Arad'', 366::int)])" by simp
  have c: "closed_from detour_graph ''S''" by (rule detour_closed_from) simp
  from get_heuristic_total [of "''Zerind''" "''Bucharest''" "[(''Arad'', 366)]"
      detour_graph "''S''" int] a c
  show ?thesis by blast
qed

end
